(* ===== verification/Prelude.thy ===== *)
theory Prelude
  imports Main "HOL-Library.Word" "HOL-Library.AList" "HOL-Library.Multiset"
begin

text \<open>
  Shared vocabulary of the development: Go's machine integers as words, the store of a
  pointer structure as a list of objects indexed by address, the two slice idioms the
  sources use to delete an element, and the lemmas on them that the component theories
  share.
\<close>

type_synonym u8 = "8 word"
type_synonym u32 = "32 word"
type_synonym i32 = "32 word"
type_synonym u64 = "64 word"

text \<open>
  An object that the Go code reaches through a pointer lives in a store, a list whose
  index is its address; allocation appends, so an address never changes its meaning.
\<close>

type_synonym addr = nat

named_theorems store_simps \<open>reading a store after a write or an allocation\<close>

definition upd_at :: "addr \<Rightarrow> ('a \<Rightarrow> 'a) \<Rightarrow> 'a list \<Rightarrow> 'a list" where
  "upd_at a f h = h[a := f (h ! a)]"

lemma length_upd_at [simp]: "length (upd_at a f h) = length h"
  by (simp add: upd_at_def)

lemma nth_upd_at [store_simps]:
  "b < length h \<Longrightarrow> upd_at a f h ! b = (if b = a then f (h ! a) else h ! b)"
  by (simp add: upd_at_def nth_list_update)

lemma nth_upd_at_other [simp]: "b \<noteq> a \<Longrightarrow> upd_at a f h ! b = h ! b"
  by (simp add: upd_at_def)

lemma nth_upd_at_same [simp]: "a < length h \<Longrightarrow> upd_at a f h ! a = f (h ! a)"
  by (simp add: upd_at_def)

lemma map_upd_at_id: "(\<And>x. g (f x) = g x) \<Longrightarrow> map g (upd_at a f h) = map g h"
  by (cases "a < length h")
     (auto simp: upd_at_def map_update list_update_beyond list_update_same_conv)

text \<open>
  A field that an update leaves alone is read through the update, whatever the address.
\<close>

lemma nth_upd_at_field:
  assumes "\<And>x. g (f x) = g x"
  shows "g (upd_at a f h ! b) = g (h ! b)"
proof (cases "b = a \<and> a < length h")
  case True
  then show ?thesis by (simp add: assms)
next
  case False
  then show ?thesis
    by (cases "b = a") (auto simp: upd_at_def list_update_beyond)
qed

subsection \<open>Deleting from a slice\<close>

text \<open>
  \<open>copy(a[i:], a[i+1:]); a[len(a)-1] = nil; a = a[:len(a)-1]\<close> keeps the order.
\<close>

definition remove_at :: "nat \<Rightarrow> 'a list \<Rightarrow> 'a list" where
  "remove_at i xs = take i xs @ drop (Suc i) xs"

text \<open>
  \<open>a[i] = a[len(a)-1]; a[len(a)-1] = nil; a = a[:len(a)-1]\<close> moves the last element
  into the hole.
\<close>

definition swap_remove :: "nat \<Rightarrow> 'a list \<Rightarrow> 'a list" where
  "swap_remove i xs = butlast (xs[i := last xs])"

lemma length_remove_at [simp]: "i < length xs \<Longrightarrow> length (remove_at i xs) = length xs - 1"
  by (simp add: remove_at_def)

lemma set_remove_at_subset: "set (remove_at i xs) \<subseteq> set xs"
  by (auto simp: remove_at_def dest: in_set_takeD in_set_dropD)

lemma distinct_remove_at: "distinct xs \<Longrightarrow> distinct (remove_at i xs)"
  by (auto simp: remove_at_def distinct_append set_take_disj_set_drop_if_distinct)

lemma length_swap_remove [simp]: "length (swap_remove i xs) = length xs - 1"
  by (simp add: swap_remove_def)

lemma swap_remove_split:
  assumes "i < length xs"
  shows "mset xs = add_mset (xs ! i) (mset (swap_remove i xs))"
proof -
  have ne: "xs \<noteq> []" using assms by auto
  let ?ys = "xs[i := last xs]"
  have l: "last ?ys = last xs"
    using ne assms by (simp add: last_list_update)
  have "mset ?ys = add_mset (last xs) (mset xs - {# xs ! i #})"
    using assms by (simp add: mset_update)
  moreover have "mset ?ys = add_mset (last ?ys) (mset (butlast ?ys))"
    using ne by (metis append_butlast_last_id list_update_nonempty mset_append mset.simps
        add_mset_add_single)
  ultimately have "mset (butlast ?ys) = mset xs - {# xs ! i #}"
    using l by simp
  then show ?thesis
    using assms by (simp add: swap_remove_def nth_mem)
qed

lemma set_swap_remove_subset: "i < length xs \<Longrightarrow> set (swap_remove i xs) \<subseteq> set xs"
  by (metis mset_eq_setD set_mset_add_mset_insert set_mset_mset subset_insertI swap_remove_split)

lemma distinct_swap_remove:
  assumes "distinct xs" and "i < length xs"
  shows "distinct (swap_remove i xs)" and "set (swap_remove i xs) = set xs - {xs ! i}"
proof -
  have m: "mset xs = add_mset (xs ! i) (mset (swap_remove i xs))"
    using assms(2) by (rule swap_remove_split)
  then have "mset xs = mset (xs ! i # swap_remove i xs)" by simp
  then have d: "distinct (xs ! i # swap_remove i xs)"
    using assms(1) mset_eq_imp_distinct_iff by blast
  then show "distinct (swap_remove i xs)" by simp
  have "set xs = insert (xs ! i) (set (swap_remove i xs))"
    using m by (metis set_mset_add_mset_insert set_mset_mset)
  then show "set (swap_remove i xs) = set xs - {xs ! i}"
    using d by auto
qed

lemma take_swap_remove: "i < length xs \<Longrightarrow> take i (swap_remove i xs) = take i xs"
  by (auto simp: swap_remove_def butlast_conv_take min_def)

lemma set_drop_swap_remove:
  assumes "distinct xs" and "i < length xs"
  shows "set (drop i (swap_remove i xs)) = set (drop i xs) - {xs ! i}"
proof -
  have "set (take i xs) \<inter> set (drop i (swap_remove i xs)) = {}"
    using set_take_disj_set_drop_if_distinct [OF distinct_swap_remove(1) [OF assms], of i i]
    by (simp add: take_swap_remove assms(2))
  moreover have "set (take i xs) \<inter> set (drop i xs) = {}"
    using set_take_disj_set_drop_if_distinct [OF assms(1)] by simp
  moreover have "set (swap_remove i xs) = set (take i xs) \<union> set (drop i (swap_remove i xs))"
    by (metis append_take_drop_id set_append take_swap_remove assms(2))
  moreover have "set xs = set (take i xs) \<union> set (drop i xs)"
    by (metis append_take_drop_id set_append)
  moreover have "xs ! i \<in> set (drop i xs)" using assms(2) by (metis Cons_nth_drop_Suc list.set_intros(1))
  ultimately show ?thesis using distinct_swap_remove(2) [OF assms] by blast
qed

lemma remove1_eq_remove_at:
  "remove1 x xs = (if x \<in> set xs then remove_at (length (takeWhile (\<lambda>y. y \<noteq> x) xs)) xs else xs)"
  by (induction xs) (auto simp: remove_at_def)

subsection \<open>Association lists\<close>

lemma alist_update_fresh: "k \<notin> fst ` set al \<Longrightarrow> AList.update k v al = al @ [(k, v)]"
  by (induction al) auto

lemma set_alist_delete: "set (AList.delete k al) = {p \<in> set al. fst p \<noteq> k}"
  by (auto simp: AList.delete_eq)

lemma fst_alist_update: "fst ` set (AList.update k v al) = insert k (fst ` set al)"
  by (induction al) (auto simp: image_iff)

lemma set_alist_update: "set (AList.update k v al) \<subseteq> insert (k, v) (set al)"
  by (induction al) auto

lemma snd_alist_update:
  fixes al :: "('k \<times> 'v) list"
  assumes "distinct (map snd al)" and "v \<notin> snd ` set al"
  shows "distinct (map snd (AList.update k v al))"
    and "snd ` set (AList.update k v al) \<subseteq> insert v (snd ` set al)"
proof -
  have sub: "snd ` set (AList.update k v bl) \<subseteq> insert v (snd ` set bl)" for bl :: "('k \<times> 'v) list"
    by (induction bl) auto
  then show "snd ` set (AList.update k v al) \<subseteq> insert v (snd ` set al)" .
  show "distinct (map snd (AList.update k v al))"
    using assms
  proof (induction al)
    case (Cons p al)
    have "snd p \<notin> snd ` set (AList.update k v al)"
      using Cons.prems sub [of al] by auto
    then show ?case using Cons by (cases p) (auto simp: image_iff)
  qed simp
qed

lemma alist_key_unique:
  "distinct (map fst al) \<Longrightarrow> (k, v) \<in> set al \<Longrightarrow> (k, w) \<in> set al \<Longrightarrow> v = w"
  by (rule eq_key_imp_eq_value)

subsection \<open>Unsigned counters\<close>

lemma u32_inc_neq_zero: "(w :: u32) \<noteq> - 1 \<Longrightarrow> w + 1 \<noteq> 0"
  by (metis add_eq_0_iff2 minus_equation_iff)

lemma unat_inc_u32: "(w :: u32) \<noteq> - 1 \<Longrightarrow> unat (w + 1) = unat w + 1"
  using unatSuc [of w] u32_inc_neq_zero [of w] by (simp add: add.commute)

lemma unat_u32_max: "unat (- 1 :: u32) = 2 ^ 32 - 1"
  by (simp add: unsigned_minus_1_eq_mask mask_eq_exp_minus_1)

lemma u32_not_max: "unat (w :: u32) + 1 < 2 ^ 32 \<Longrightarrow> w \<noteq> - 1"
  by (auto simp: unat_u32_max)

lemma u32_less_inc: "(w :: u32) \<noteq> - 1 \<Longrightarrow> v \<le> w \<Longrightarrow> v < w + 1"
  by (simp add: word_less_nat_alt word_le_nat_alt unat_inc_u32)

subsection \<open>Trees by parent pointers\<close>

text \<open>
  The objects of a tree whose parent pointers lead to earlier addresses: \<open>par c\<close> is the
  parent of \<open>c\<close>. \<open>tree_anc par a x\<close>: \<open>x\<close> is in the subtree of \<open>a\<close>.
\<close>

definition decreasing :: "(addr \<Rightarrow> addr option) \<Rightarrow> bool" where
  "decreasing par \<longleftrightarrow> (\<forall>c p. par c = Some p \<longrightarrow> p < c)"

definition tree_anc :: "(addr \<Rightarrow> addr option) \<Rightarrow> addr \<Rightarrow> addr \<Rightarrow> bool" where
  "tree_anc par a x \<longleftrightarrow> (a, x) \<in> {(p, c). par c = Some p}\<^sup>*"

lemma tree_anc_refl [simp]: "tree_anc par a a"
  by (simp add: tree_anc_def)

lemma tree_anc_step: "tree_anc par a p \<Longrightarrow> par c = Some p \<Longrightarrow> tree_anc par a c"
  unfolding tree_anc_def by (rule rtrancl.rtrancl_into_rtrancl) auto

lemma tree_anc_child: "par c = Some a \<Longrightarrow> tree_anc par a c"
  by (rule tree_anc_step [OF tree_anc_refl])

lemma tree_anc_trans: "tree_anc par a b \<Longrightarrow> tree_anc par b c \<Longrightarrow> tree_anc par a c"
  unfolding tree_anc_def by (rule rtrancl_trans)

lemma tree_anc_last:
  assumes "tree_anc par a x" and "x \<noteq> a"
  shows "\<exists>p. par x = Some p \<and> tree_anc par a p"
  using assms unfolding tree_anc_def by (auto elim: rtranclE)

lemma tree_anc_first:
  assumes "tree_anc par a x" and "x \<noteq> a"
  shows "\<exists>c. par c = Some a \<and> tree_anc par c x"
  using assms unfolding tree_anc_def by (auto elim: converse_rtranclE)

lemma tree_anc_le:
  assumes "decreasing par" and "tree_anc par a x"
  shows "a \<le> x"
  using assms(2) unfolding tree_anc_def
proof (induction rule: rtrancl_induct)
  case (step y z)
  then have "y < z" using assms(1) by (simp add: decreasing_def)
  then show ?case using step.IH by simp
qed simp

lemma tree_anc_induct [consumes 1, case_names base step]:
  assumes "tree_anc par a x" and "P a"
    and "\<And>p c. tree_anc par a p \<Longrightarrow> par c = Some p \<Longrightarrow> P p \<Longrightarrow> P c"
  shows "P x"
  using assms(1) unfolding tree_anc_def
  by (induction rule: rtrancl_induct) (use assms(2,3) in \<open>auto simp: tree_anc_def\<close>)

lemma tree_anc_linear:
  assumes "tree_anc par a x" and "tree_anc par b x"
  shows "tree_anc par a b \<or> tree_anc par b a"
  using assms
proof (induction rule: tree_anc_induct)
  case (step p c)
  then show ?case
    using tree_anc_last [of par b c] tree_anc_step [of par a p c] by (cases "c = b") auto
qed simp

text \<open>The subtrees of two children of one node are disjoint, and the node is in neither.\<close>

lemma tree_anc_siblings:
  assumes "decreasing par" and "par c = Some a" and "par d = Some a" and "c \<noteq> d"
  shows "\<not> tree_anc par c a" and "\<not> tree_anc par c d" and "\<not> (tree_anc par c x \<and> tree_anc par d x)"
proof -
  have *: "\<not> tree_anc par e a" if "par e = Some a" for e
    using tree_anc_le [OF assms(1), of e a] assms(1) that by (fastforce simp: decreasing_def)
  then show "\<not> tree_anc par c a" using assms(2) .
  have **: "\<not> tree_anc par e f" if "par e = Some a" "par f = Some a" "e \<noteq> f" for e f
    using tree_anc_last [of par e f] that * by auto
  then show "\<not> tree_anc par c d" using assms by blast
  show "\<not> (tree_anc par c x \<and> tree_anc par d x)"
    using tree_anc_linear [of par c x d] ** assms(2-4) by metis
qed

end
