(* ===== verification/Messages.thy ===== *)
theory Messages
  imports Prelude
begin

text \<open>
  The protocol messages of \<open>rgraphql.pb.go\<close> (generated from \<open>rgraphql.proto\<close>): one record
  per message struct, with the struct's fields in the order of the file. A pointer to a
  message is an \<open>option\<close>, a slice of message pointers a list (the sources never put a nil
  pointer into one), a Go \<open>int32\<close> enum the 32-bit word it is on the wire (a peer may send
  a number that has no name), a \<open>float64\<close> its IEEE-754 bits, a \<open>[]byte\<close> a list of bytes.
  The getters of the file are the record selectors; a getter on a nil pointer returns the
  zero value, which the models write out where the code relies on it.
\<close>

subsection \<open>Enumerations\<close>

abbreviation (input) PRIMITIVE_KIND_NULL :: i32 where "PRIMITIVE_KIND_NULL \<equiv> 0"
abbreviation (input) PRIMITIVE_KIND_INT :: i32 where "PRIMITIVE_KIND_INT \<equiv> 1"
abbreviation (input) PRIMITIVE_KIND_FLOAT :: i32 where "PRIMITIVE_KIND_FLOAT \<equiv> 2"
abbreviation (input) PRIMITIVE_KIND_STRING :: i32 where "PRIMITIVE_KIND_STRING \<equiv> 3"
abbreviation (input) PRIMITIVE_KIND_BOOL :: i32 where "PRIMITIVE_KIND_BOOL \<equiv> 4"
abbreviation (input) PRIMITIVE_KIND_OBJECT :: i32 where "PRIMITIVE_KIND_OBJECT \<equiv> 5"
abbreviation (input) PRIMITIVE_KIND_ARRAY :: i32 where "PRIMITIVE_KIND_ARRAY \<equiv> 6"

abbreviation (input) SUBTREE_ADD_CHILD :: i32 where "SUBTREE_ADD_CHILD \<equiv> 0"
abbreviation (input) SUBTREE_DELETE :: i32 where "SUBTREE_DELETE \<equiv> 1"

abbreviation (input) CACHE_LRU :: i32 where "CACHE_LRU \<equiv> 0"

subsection \<open>Message structs\<close>

record RGQLPrimitive =
  Kind :: i32
  IntValue :: i32
  FloatValue :: u64
  StringValue :: string
  BoolValue :: bool
  prim_unknown :: "u8 list"

definition zero_primitive :: RGQLPrimitive where
  "zero_primitive = \<lparr>Kind = 0, IntValue = 0, FloatValue = 0, StringValue = '''',
     BoolValue = False, prim_unknown = []\<rparr>"

record FieldArgument =
  fa_name :: string
  fa_variable_id :: u32
  fa_unknown :: "u8 list"

record RGQLQueryFieldDirective =
  fd_name :: string
  fd_args :: "FieldArgument list"
  fd_unknown :: "u8 list"

datatype RGQLQueryTreeNode =
  RGQLQueryTreeNode (qn_id: u32) (qn_field_name: string) (qn_args: "FieldArgument list")
    (qn_directive: "RGQLQueryFieldDirective list") (qn_children: "RGQLQueryTreeNode list")
    (qn_unknown: "u8 list")

record ASTVariable =
  av_id :: u32
  av_value :: "RGQLPrimitive option"
  av_unknown :: "u8 list"

record RGQLQueryTreeMutation_NodeMutation =
  nm_node_id :: u32
  nm_operation :: i32
  nm_node :: "RGQLQueryTreeNode option"
  nm_unknown :: "u8 list"

record RGQLQueryTreeMutation =
  tm_query_id :: u32
  tm_node_mutation :: "RGQLQueryTreeMutation_NodeMutation list"
  tm_variables :: "ASTVariable list"
  tm_unknown :: "u8 list"

record RGQLQueryInit =
  qi_query_id :: u32
  qi_force_serial :: bool
  qi_operation_type :: string
  qi_unknown :: "u8 list"

record RGQLQueryFinish =
  qf_query_id :: u32
  qf_unknown :: "u8 list"

record RGQLClientMessage =
  cm_init_query :: "RGQLQueryInit option"
  cm_mutate_tree :: "RGQLQueryTreeMutation option"
  cm_finish_query :: "RGQLQueryFinish option"
  cm_unknown :: "u8 list"

record RGQLQueryError =
  qe_query_id :: u32
  qe_query_node_id :: u32
  qe_error :: string
  qe_unknown :: "u8 list"

record RGQLValueInit =
  vi_result_id :: u32
  vi_query_id :: u32
  vi_cache_strategy :: i32
  vi_cache_size :: u32
  vi_unknown :: "u8 list"

record RGQLValueFinalize =
  vf_result_id :: u32
  vf_unknown :: "u8 list"

record RGQLValue =
  rv_query_node_id :: u32
  rv_array_index :: u32
  rv_pos_identifier :: u32
  rv_value :: "RGQLPrimitive option"
  rv_error :: string
  rv_unknown :: "u8 list"

definition zero_value :: RGQLValue where
  "zero_value = \<lparr>rv_query_node_id = 0, rv_array_index = 0, rv_pos_identifier = 0,
     rv_value = None, rv_error = '''', rv_unknown = []\<rparr>"

record RGQLValueBatch =
  vb_result_id :: u32
  vb_values :: "u8 list list"
  vb_unknown :: "u8 list"

record RGQLServerMessage =
  sm_query_error :: "RGQLQueryError option"
  sm_value_init :: "RGQLValueInit option"
  sm_value_batch :: "RGQLValueBatch option"
  sm_value_finalize :: "RGQLValueFinalize option"
  sm_unknown :: "u8 list"

lemma zero_value_simps [simp]:
  "rv_query_node_id zero_value = 0" "rv_array_index zero_value = 0"
  "rv_pos_identifier zero_value = 0" "rv_value zero_value = None" "rv_error zero_value = ''''"
  "rv_unknown zero_value = []"
  by (simp_all add: zero_value_def)

subsection \<open>float64\<close>

text \<open>
  Go compares \<open>float64\<close> values by IEEE-754: a NaN equals nothing, and the two zeros are
  equal. The comparison is on the bits: the sign is bit 63, the exponent bits 52 to 62.
\<close>

definition f64_is_zero :: "u64 \<Rightarrow> bool" where
  "f64_is_zero b = (and b 0x7FFFFFFFFFFFFFFF = 0)"

definition f64_is_nan :: "u64 \<Rightarrow> bool" where
  "f64_is_nan b = (0x7FF0000000000000 < and b 0x7FFFFFFFFFFFFFFF)"

definition f64_eq :: "u64 \<Rightarrow> u64 \<Rightarrow> bool" where
  "f64_eq a b = (\<not> f64_is_nan a \<and> \<not> f64_is_nan b \<and>
     (a = b \<or> f64_is_zero a \<and> f64_is_zero b))"

lemma f64_zero_not_nan: "f64_is_zero a \<Longrightarrow> \<not> f64_is_nan a"
  by (simp add: f64_is_zero_def f64_is_nan_def)

lemma f64_eq_sym: "f64_eq a b \<Longrightarrow> f64_eq b a"
  by (auto simp: f64_eq_def)

lemma f64_eq_trans: "f64_eq a b \<Longrightarrow> f64_eq b c \<Longrightarrow> f64_eq a c"
  by (auto simp: f64_eq_def)

lemma f64_eq_refl_iff: "f64_eq a a \<longleftrightarrow> \<not> f64_is_nan a"
  by (auto simp: f64_eq_def)

end
