(* ===== verification/GoAST.thy ===== *)
theory GoAST
  imports Prelude
begin

text \<open>
  The parts of a parsed GraphQL document that the sources read: the node types of
  \<open>github.com/graphql-go/graphql/language/ast\<close> on which the code switches, with the fields
  it uses. The package itself is not in the repository; nothing here defines any of its
  functions. A \<open>*ast.Name\<close> that may be nil is a \<open>string option\<close>; a node type that the
  sources never name is one of the \<open>Other\<close> constructors.
\<close>

datatype ast_value =
    StringValueNode string
  | IntValueNode string
  | FloatValueNode string
  | BooleanValueNode bool
  | EnumValueNode string
  | VariableNode string
  | OtherValueNode

text \<open>
  Type definitions are objects with identity: \<open>ApplyIntrospection\<close> appends a field to the
  root object in place, and every map that leads to the object sees it. They live in a
  store, and a pointer to one is its address. \<open>ast.Type\<close> is \<open>*ast.Named\<close>, \<open>*ast.List\<close> or
  \<open>*ast.NonNull\<close>; \<open>schema.LookupType\<close> also accepts a value of the interface that is a type
  definition itself. An \<open>OtherDefinition\<close> is a type definition of a kind that the sources do
  not name (interfaces, input objects), with its kind.
\<close>

datatype ast_type =
    Named "string option"
  | List ast_type
  | NonNull ast_type
  | AsDefinition addr
  | OtherType

datatype input_value_definition =
    InputValueDefinition string ast_type "ast_value option"

datatype field_definition =
    FieldDefinition "string option" "input_value_definition list" ast_type

datatype type_definition =
    ObjectDefinition "string option" "field_definition list"
  | EnumDefinition "string option" "string list"
  | UnionDefinition "string option"
  | ScalarDefinition string
  | OtherDefinition string "string option"

type_synonym definitions = "type_definition list"

primrec od_name :: "type_definition \<Rightarrow> string option" where
  "od_name (ObjectDefinition n fs) = n"
| "od_name (EnumDefinition n vs) = n"
| "od_name (UnionDefinition n) = n"
| "od_name (ScalarDefinition n) = Some n"
| "od_name (OtherDefinition k n) = n"

primrec od_fields :: "type_definition \<Rightarrow> field_definition list" where
  "od_fields (ObjectDefinition n fs) = fs"
| "od_fields (EnumDefinition n vs) = []"
| "od_fields (UnionDefinition n) = []"
| "od_fields (ScalarDefinition n) = []"
| "od_fields (OtherDefinition k n) = []"

primrec fd_field_name :: "field_definition \<Rightarrow> string option" where
  "fd_field_name (FieldDefinition n args t) = n"

primrec fd_arguments :: "field_definition \<Rightarrow> input_value_definition list" where
  "fd_arguments (FieldDefinition n args t) = args"

primrec fd_type :: "field_definition \<Rightarrow> ast_type" where
  "fd_type (FieldDefinition n args t) = t"

text \<open>
  The loop \<open>for _, field := range fields { if field.Name.Value == name ... break }\<close>, which
  \<open>ApplyIntrospection\<close> and \<open>AddChild\<close> share: \<open>None\<close> is the nil dereference of a field
  without a name, \<open>Some None\<close> no match, \<open>Some (Some f)\<close> the first match.
\<close>

fun find_field :: "string \<Rightarrow> field_definition list \<Rightarrow> field_definition option option" where
  "find_field name [] = Some None"
| "find_field name (f # fs) =
     (case fd_field_name f of
        None \<Rightarrow> None
      | Some n \<Rightarrow> if n = name then Some (Some f) else find_field name fs)"

lemma find_field_Some:
  "find_field name fs = Some (Some f) \<Longrightarrow> f \<in> set fs \<and> fd_field_name f = Some name"
  by (induction fs) (auto split: option.splits if_splits)

lemma find_field_None:
  "find_field name fs = Some None \<Longrightarrow> f \<in> set fs \<Longrightarrow> fd_field_name f \<noteq> Some name"
  by (induction fs) (auto split: option.splits if_splits)

lemma find_field_total:
  "\<forall>f \<in> set fs. fd_field_name f \<noteq> None \<Longrightarrow> find_field name fs \<noteq> None"
  by (induction fs) (auto split: option.splits)

lemma find_field_append:
  "find_field name fs = Some None \<Longrightarrow> find_field name (fs @ gs) = find_field name gs"
  by (induction fs) (auto split: option.splits if_splits)

text \<open>The type assertion \<open>x.(*ast.ObjectDefinition)\<close>.\<close>

primrec is_object :: "type_definition \<Rightarrow> bool" where
  "is_object (ObjectDefinition n fs) = True"
| "is_object (EnumDefinition n vs) = False"
| "is_object (UnionDefinition n) = False"
| "is_object (ScalarDefinition n) = False"
| "is_object (OtherDefinition k n) = False"

lemma is_objectD: "is_object d \<Longrightarrow> \<exists>n fs. d = ObjectDefinition n fs"
  by (cases d) auto

text \<open>An argument of a field selection and a field selection of a query document.\<close>

record ast_argument =
  arg_name :: "string option"
  arg_value :: ast_value

record ast_field =
  f_name :: "string option"
  f_arguments :: "ast_argument list"

end
