(* ===== verification/Types.thy ===== *)
theory Types
  imports Messages GoAST
begin

text \<open>
  The packages \<open>types\<close> and \<open>types/gqlast\<close> (primitive type tables, packing, unpacking and
  comparing of primitive values, unwrapping of type references) and \<open>util/case.go\<close>.
\<close>

subsection \<open>Primitive type tables (types/primitive.go, types/primitive_scalar.go)\<close>

definition GraphQLPrimitivesKinds :: "string \<rightharpoonup> string" where
  "GraphQLPrimitivesKinds = map_of
     [(''Int'', ''SCALAR''), (''String'', ''SCALAR''), (''Float'', ''SCALAR''),
      (''Boolean'', ''SCALAR''), (''Object'', ''OBJECT''), (''ID'', ''SCALAR'')]"

definition GraphQLPrimitivesProtoKinds :: "string \<rightharpoonup> i32" where
  "GraphQLPrimitivesProtoKinds = map_of
     [(''Int'', PRIMITIVE_KIND_INT), (''String'', PRIMITIVE_KIND_STRING),
      (''Float'', PRIMITIVE_KIND_FLOAT), (''Boolean'', PRIMITIVE_KIND_BOOL),
      (''Object'', PRIMITIVE_KIND_OBJECT), (''ID'', PRIMITIVE_KIND_STRING)]"

definition IsPrimitive :: "string \<Rightarrow> bool" where
  "IsPrimitive name = (GraphQLPrimitivesProtoKinds name \<noteq> None)"

fun IsAstPrimitive :: "ast_type \<Rightarrow> bool" where
  "IsAstPrimitive (Named n) = (case n of None \<Rightarrow> False | Some v \<Rightarrow> IsPrimitive v)"
| "IsAstPrimitive _ = False"

fun AstPrimitiveProtoKind :: "ast_type \<Rightarrow> i32 \<times> bool" where
  "AstPrimitiveProtoKind (Named (Some v)) =
     (case GraphQLPrimitivesProtoKinds v of Some k \<Rightarrow> (k, True) | None \<Rightarrow> (0, False))"
| "AstPrimitiveProtoKind _ = (0, False)"

text \<open>
  \<open>init\<close> fills the map with a scalar definition for each table entry of kind SCALAR; each
  name is written once, so the order of the range over the table does not matter.
\<close>

definition GraphQLPrimitivesAST :: "string \<rightharpoonup> type_definition" where
  "GraphQLPrimitivesAST name =
     (if GraphQLPrimitivesKinds name = Some ''SCALAR'' then Some (ScalarDefinition name)
      else None)"

lemma IsAstPrimitive_iff: "IsAstPrimitive t \<longleftrightarrow> snd (AstPrimitiveProtoKind t)"
  by (cases t rule: AstPrimitiveProtoKind.cases) (auto simp: IsPrimitive_def split: option.splits)

lemma GraphQLPrimitivesAST_primitive: "GraphQLPrimitivesAST n = Some d \<Longrightarrow> IsPrimitive n"
  by (auto simp: GraphQLPrimitivesAST_def GraphQLPrimitivesKinds_def IsPrimitive_def
      GraphQLPrimitivesProtoKinds_def split: if_splits)

lemma GraphQLPrimitivesAST_not_object: "GraphQLPrimitivesAST n = Some d \<Longrightarrow> \<not> is_object d"
  by (auto simp: GraphQLPrimitivesAST_def split: if_splits)

subsection \<open>Unwrapping (types/gqlast/unwrap.go)\<close>

fun UnwrapASTType :: "ast_type \<Rightarrow> ast_type" where
  "UnwrapASTType (List t) = UnwrapASTType t"
| "UnwrapASTType (NonNull t) = UnwrapASTType t"
| "UnwrapASTType t = t"

lemma UnwrapASTType_not_wrapped:
  "UnwrapASTType t \<noteq> List u" "UnwrapASTType t \<noteq> NonNull u"
  by (induction t rule: UnwrapASTType.induct) auto

lemma UnwrapASTType_idem [simp]: "UnwrapASTType (UnwrapASTType t) = UnwrapASTType t"
  by (induction t rule: UnwrapASTType.induct) auto

subsection \<open>Primitive values (types/primitive_pack.go)\<close>

definition NewStringPrimitive :: "string \<Rightarrow> RGQLPrimitive" where
  "NewStringPrimitive v = zero_primitive\<lparr>Kind := PRIMITIVE_KIND_STRING, StringValue := v\<rparr>"

definition NewIntPrimitive :: "i32 \<Rightarrow> RGQLPrimitive" where
  "NewIntPrimitive v = zero_primitive\<lparr>Kind := PRIMITIVE_KIND_INT, IntValue := v\<rparr>"

definition NewFloatPrimitive :: "u64 \<Rightarrow> RGQLPrimitive" where
  "NewFloatPrimitive v = zero_primitive\<lparr>Kind := PRIMITIVE_KIND_FLOAT, FloatValue := v\<rparr>"

definition NewBoolPrimitive :: "bool \<Rightarrow> RGQLPrimitive" where
  "NewBoolPrimitive v = zero_primitive\<lparr>Kind := PRIMITIVE_KIND_BOOL, BoolValue := v\<rparr>"

definition NewNullPrimitive :: RGQLPrimitive where
  "NewNullPrimitive = zero_primitive\<lparr>Kind := PRIMITIVE_KIND_NULL\<rparr>"

text \<open>
  \<open>strconv.ParseInt(s, 10, 32)\<close>: an optional sign, at least one decimal digit and nothing
  else, and a value in the range of \<open>int32\<close>; anything else is an error.
\<close>

definition digit_val :: "char \<Rightarrow> nat option" where
  "digit_val c = (let n = of_char c :: nat in if 48 \<le> n \<and> n \<le> 57 then Some (n - 48) else None)"

fun parse_digits :: "nat \<Rightarrow> string \<Rightarrow> nat option" where
  "parse_digits acc [] = Some acc"
| "parse_digits acc (c # cs) =
     (case digit_val c of None \<Rightarrow> None | Some d \<Rightarrow> parse_digits (10 * acc + d) cs)"

definition ParseInt32 :: "string \<Rightarrow> i32 option" where
  "ParseInt32 s =
     (let (neg, ds) = (case s of [] \<Rightarrow> (False, [])
                         | c # cs \<Rightarrow> if c = CHR ''-'' then (True, cs)
                                     else if c = CHR ''+'' then (False, cs) else (False, s))
      in if ds = [] then None
         else case parse_digits 0 ds of
                None \<Rightarrow> None
              | Some n \<Rightarrow>
                  if \<not> neg \<and> 2 ^ 31 \<le> n then None
                  else if neg \<and> 2 ^ 31 < n then None
                  else Some (if neg then - of_nat n else of_nat n))"

text \<open>
  \<open>NewASTPrimitive\<close>. \<open>strconv.ParseFloat\<close> (decimal text to the nearest \<open>float64\<close>) is the
  argument \<open>parse_float\<close>; \<open>None\<close> is its error.
\<close>

datatype pack_error =
    ParseError
  | EnumNotSupported
  | CannotLookupVariable
  | UnsupportedValueType

fun NewASTPrimitive ::
  "(string \<Rightarrow> u64 option) \<Rightarrow> ast_value \<Rightarrow> pack_error + RGQLPrimitive" where
  "NewASTPrimitive parse_float (StringValueNode v) = Inr (NewStringPrimitive v)"
| "NewASTPrimitive parse_float (IntValueNode v) =
     (case ParseInt32 v of None \<Rightarrow> Inl ParseError | Some i \<Rightarrow> Inr (NewIntPrimitive i))"
| "NewASTPrimitive parse_float (FloatValueNode v) =
     (case parse_float v of None \<Rightarrow> Inl ParseError | Some f \<Rightarrow> Inr (NewFloatPrimitive f))"
| "NewASTPrimitive parse_float (BooleanValueNode b) = Inr (NewBoolPrimitive b)"
| "NewASTPrimitive parse_float (EnumValueNode v) = Inl EnumNotSupported"
| "NewASTPrimitive parse_float (VariableNode v) = Inl CannotLookupVariable"
| "NewASTPrimitive parse_float OtherValueNode = Inl UnsupportedValueType"

text \<open>The dynamic values (\<open>any\<close>) that \<open>UnpackPrimitive\<close> returns.\<close>

datatype go_any = AnyNil | AnyString string | AnyBool bool | AnyInt i32 | AnyFloat u64

definition UnpackPrimitive :: "RGQLPrimitive \<Rightarrow> go_any" where
  "UnpackPrimitive prim =
     (if Kind prim = PRIMITIVE_KIND_ARRAY then AnyString ''[]''
      else if Kind prim = PRIMITIVE_KIND_BOOL then AnyBool (BoolValue prim)
      else if Kind prim = PRIMITIVE_KIND_FLOAT then AnyFloat (FloatValue prim)
      else if Kind prim = PRIMITIVE_KIND_INT then AnyInt (IntValue prim)
      else if Kind prim = PRIMITIVE_KIND_NULL then AnyNil
      else if Kind prim = PRIMITIVE_KIND_OBJECT then AnyString ''{}''
      else if Kind prim = PRIMITIVE_KIND_STRING then AnyString (StringValue prim)
      else AnyString ''[unknown]'')"

subsection \<open>Equivalence of primitives (types/primitive_equiv.go)\<close>

text \<open>
  \<open>same\<close> is the outcome of the pointer comparison \<open>a == b\<close>, which values alone do not
  determine; when it holds the two pointers have one value.
\<close>

definition IsPrimEquiv :: "bool \<Rightarrow> RGQLPrimitive option \<Rightarrow> RGQLPrimitive option \<Rightarrow> bool" where
  "IsPrimEquiv same a b =
     (if same then True
      else case (a, b) of
        (None, None) \<Rightarrow> True
      | (None, Some _) \<Rightarrow> False
      | (Some _, None) \<Rightarrow> False
      | (Some x, Some y) \<Rightarrow>
          if Kind x \<noteq> Kind y then False
          else if Kind x = PRIMITIVE_KIND_BOOL then BoolValue x = BoolValue y
          else if Kind x = PRIMITIVE_KIND_FLOAT then f64_eq (FloatValue x) (FloatValue y)
          else if Kind x = PRIMITIVE_KIND_INT then IntValue x = IntValue y
          else if Kind x = PRIMITIVE_KIND_STRING then StringValue x = StringValue y
          else True)"

text \<open>Go's \<open>==\<close> on the dynamic values.\<close>

fun any_eq :: "go_any \<Rightarrow> go_any \<Rightarrow> bool" where
  "any_eq (AnyFloat x) (AnyFloat y) = f64_eq x y"
| "any_eq x y = (x = y)"

lemma any_eq_trans: "any_eq x y \<Longrightarrow> any_eq y z \<Longrightarrow> any_eq x z"
  by (cases x; cases y; cases z) (auto dest: f64_eq_trans)

lemma IsPrimEquiv_iff_unpack:
  "IsPrimEquiv False (Some x) (Some y) \<longleftrightarrow>
     Kind x = Kind y \<and> any_eq (UnpackPrimitive x) (UnpackPrimitive y)"
  by (simp add: IsPrimEquiv_def UnpackPrimitive_def)

lemma IsPrimEquiv_nil [simp]:
  "IsPrimEquiv False None b \<longleftrightarrow> b = None" "IsPrimEquiv False a None \<longleftrightarrow> a = None"
  by (auto simp: IsPrimEquiv_def split: option.splits)

lemma any_eq_sym: "any_eq x y \<Longrightarrow> any_eq y x"
  by (cases x; cases y) (auto dest: f64_eq_sym)

lemma IsPrimEquiv_sym: "IsPrimEquiv same a b \<Longrightarrow> IsPrimEquiv same b a"
proof (cases same)
  case True
  then show ?thesis by (simp add: IsPrimEquiv_def)
next
  case False
  assume "IsPrimEquiv same a b"
  with False show ?thesis
    by (cases a; cases b) (auto simp: IsPrimEquiv_iff_unpack simp del: any_eq.simps intro: any_eq_sym)
qed

lemma IsPrimEquiv_trans:
  assumes "IsPrimEquiv False a b" and "IsPrimEquiv False b c"
  shows "IsPrimEquiv False a c"
  using assms
  by (cases a; cases b; cases c)
     (auto simp: IsPrimEquiv_iff_unpack simp del: any_eq.simps intro: any_eq_trans)

lemma IsPrimEquiv_refl:
  "(\<And>x. a = Some x \<Longrightarrow> Kind x = PRIMITIVE_KIND_FLOAT \<Longrightarrow> \<not> f64_is_nan (FloatValue x)) \<Longrightarrow>
   IsPrimEquiv same a a"
  by (auto simp: IsPrimEquiv_def f64_eq_refl_iff split: option.splits)

subsection \<open>Names (util/case.go)\<close>

text \<open>
  \<open>ToPascalCase\<close> on the ASCII names that GraphQL allows, where a rune is a byte and
  \<open>unicode.ToUpper\<close> changes the letters a to z. \<open>first\<close> is \<open>i == 0\<close>.
\<close>

definition to_upper :: "char \<Rightarrow> char" where
  "to_upper c = (let n = of_char c :: nat in if 97 \<le> n \<and> n \<le> 122 then char_of (n - 32) else c)"

fun pascal_loop :: "bool \<Rightarrow> bool \<Rightarrow> string \<Rightarrow> string" where
  "pascal_loop first nextUpper [] = []"
| "pascal_loop first nextUpper (r # rs) =
     (if r = CHR ''_'' \<or> r = CHR '' '' then pascal_loop False True rs
      else if first \<or> nextUpper then to_upper r # pascal_loop False False rs
      else r # pascal_loop False nextUpper rs)"

definition ToPascalCase :: "string \<Rightarrow> string" where
  "ToPascalCase title = pascal_loop True False title"

subsection \<open>Properties\<close>

lemma of_char_char_of_minus:
  "(of_char c :: nat) \<le> 122 \<Longrightarrow> (of_char (char_of (of_char c - 32 :: nat)) :: nat) = of_char c - 32"
  by (simp add: of_char_of mod_less)

lemma to_upper_idem: "to_upper (to_upper c) = to_upper c"
proof (cases "97 \<le> (of_char c :: nat) \<and> (of_char c :: nat) \<le> 122")
  case True
  then have "(of_char (char_of (of_char c - 32 :: nat)) :: nat) = of_char c - 32"
    by (intro of_char_char_of_minus) simp
  with True show ?thesis by (auto simp: to_upper_def Let_def)
qed (auto simp: to_upper_def Let_def)

lemma to_upper_sep: "to_upper c = CHR ''_'' \<or> to_upper c = CHR '' '' \<Longrightarrow>
    c = CHR ''_'' \<or> c = CHR '' ''"
proof (cases "97 \<le> (of_char c :: nat) \<and> (of_char c :: nat) \<le> 122")
  case True
  then have n: "(of_char (to_upper c) :: nat) = of_char c - 32"
    using of_char_char_of_minus [of c] by (simp add: to_upper_def Let_def del: of_char_of)
  assume "to_upper c = CHR ''_'' \<or> to_upper c = CHR '' ''"
  then have "(of_char (to_upper c) :: nat) = 95 \<or> (of_char (to_upper c) :: nat) = 32"
    by auto
  with n True show ?thesis by linarith
qed (auto simp: to_upper_def Let_def)

lemma pascal_loop_no_sep:
  "c \<in> set (pascal_loop f u s) \<Longrightarrow> c \<noteq> CHR ''_'' \<and> c \<noteq> CHR '' ''"
  by (induction f u s rule: pascal_loop.induct) (auto split: if_splits dest: to_upper_sep [OF disjI1] to_upper_sep [OF disjI2])

lemma pascal_loop_plain:
  "(\<And>c. c \<in> set s \<Longrightarrow> c \<noteq> CHR ''_'' \<and> c \<noteq> CHR '' '') \<Longrightarrow> pascal_loop False False s = s"
  by (induction s) auto

lemma pascal_loop_fix:
  assumes "pascal_loop True u s = c # cs"
  shows "to_upper c = c"
proof -
  have "to_upper (hd (pascal_loop f u s)) = hd (pascal_loop f u s)"
    if "pascal_loop f u s \<noteq> []" and "f \<or> u" for f u
    using that
    by (induction f u s rule: pascal_loop.induct) (auto simp: to_upper_idem split: if_splits)
  from this [of True u] assms show ?thesis by simp
qed

lemma ToPascalCase_idem: "ToPascalCase (ToPascalCase s) = ToPascalCase s"
proof (cases "pascal_loop True False s")
  case Nil
  then show ?thesis by (simp add: ToPascalCase_def)
next
  case (Cons c cs)
  have sep: "d \<noteq> CHR ''_'' \<and> d \<noteq> CHR '' ''" if "d \<in> set (c # cs)" for d
    using pascal_loop_no_sep [of d True False s] that Cons by simp
  then have "pascal_loop False False cs = cs"
    by (intro pascal_loop_plain) auto
  moreover have "to_upper c = c" using Cons by (rule pascal_loop_fix)
  ultimately show ?thesis
    using sep [of c] Cons by (simp add: ToPascalCase_def)
qed

text \<open>The integer that \<open>ParseInt\<close> accepts is the number written, with its sign.\<close>

lemma sint_i32_of_int: "- (2 ^ 31) \<le> z \<Longrightarrow> z < 2 ^ 31 \<Longrightarrow> sint (word_of_int z :: i32) = z"
  by (simp add: int_word_sint)

lemma ParseInt32_value:
  assumes "ParseInt32 s = Some i"
  shows "\<exists>ds n. (s = ds \<and> sint i = int n \<or> s = CHR ''+'' # ds \<and> sint i = int n
                  \<or> s = CHR ''-'' # ds \<and> sint i = - int n)
               \<and> ds \<noteq> [] \<and> parse_digits 0 ds = Some n"
proof -
  obtain neg ds where sp: "(case s of [] \<Rightarrow> (False, [])
      | c # cs \<Rightarrow> if c = CHR ''-'' then (True, cs)
                   else if c = CHR ''+'' then (False, cs) else (False, s)) = (neg, ds)"
    by fastforce
  from assms obtain n where ds: "ds \<noteq> []" and n: "parse_digits 0 ds = Some n"
    and r: "neg \<longrightarrow> n \<le> 2 ^ 31" "\<not> neg \<longrightarrow> n < 2 ^ 31"
    and i: "i = (if neg then - of_nat n else of_nat n)"
    unfolding ParseInt32_def sp by (auto split: if_splits option.splits)
  have "i = word_of_int (if neg then - int n else int n)"
    using i by simp
  moreover have "sint (word_of_int (if neg then - int n else int n) :: i32)
      = (if neg then - int n else int n)"
    using r by (intro sint_i32_of_int) auto
  ultimately have v: "sint i = (if neg then - int n else int n)" by simp
  have sh: "s = ds \<and> \<not> neg \<or> s = CHR ''+'' # ds \<and> \<not> neg \<or> s = CHR ''-'' # ds \<and> neg"
    using sp ds by (cases s) (auto split: if_splits)
  then show ?thesis using v ds n by auto
qed

end
