(* ===== verification/Schema.thy ===== *)
theory Schema
  imports Types
begin

text \<open>
  \<open>schema/ast.go\<close>, \<open>schema/meta.go\<close>, \<open>schema/schema.go\<close>: the classification of a parsed
  document into maps of named definitions, the lookup of a type through them, and the
  introspection types that every schema gets. A definition is an object in the store
  \<open>definitions\<close>; the maps of \<open>ASTParts\<close> hold addresses, so the field that
  \<open>ApplyIntrospection\<close> appends to the root object is seen through all of them. The GraphQL
  parser is not in the repository: a document is the list of definitions it returns.
\<close>

subsection \<open>Documents and their parts\<close>

text \<open>
  A definition of a document: a schema definition with its operation types, a type
  definition, another node with a \<open>GetName\<close> method, or a node without one.
\<close>

datatype document_definition =
    SchemaDefinition "(string \<times> ast_type) list"
  | TypeDefinition addr
  | NamedNode "string option"
  | UnnamedNode

datatype ast_node = TypeNode addr | OtherNode

record ASTParts =
  ap_Types :: "string \<rightharpoonup> addr"
  ap_Objects :: "string \<rightharpoonup> addr"
  ap_Enums :: "string \<rightharpoonup> addr"
  ap_Unions :: "string \<rightharpoonup> addr"
  ap_SchemaOperations :: "string \<rightharpoonup> ast_type"
  ap_AllNamed :: "string \<rightharpoonup> ast_node"
  ap_Schemas :: "(string \<times> ast_type) list list"
  ap_RootQuery :: "addr option"

definition new_parts :: ASTParts where
  "new_parts = \<lparr>ap_Types = Map.empty, ap_Objects = Map.empty, ap_Enums = Map.empty,
     ap_Unions = Map.empty, ap_SchemaOperations = Map.empty, ap_AllNamed = Map.empty,
     ap_Schemas = [], ap_RootQuery = None\<rparr>"

fun LookupType :: "ASTParts \<Rightarrow> ast_type \<Rightarrow> addr option" where
  "LookupType ap (NonNull t) = LookupType ap t"
| "LookupType ap (Named None) = None"
| "LookupType ap (Named (Some n)) = (if n = '''' then None else ap_Types ap n)"
| "LookupType ap (AsDefinition a) = Some a"
| "LookupType ap (List t) = LookupType ap t"
| "LookupType ap OtherType = None"

text \<open>The type switch of \<open>DocumentToParts\<close> on a type definition with a name.\<close>

definition classify :: "definitions \<Rightarrow> addr \<Rightarrow> ASTParts \<Rightarrow> ASTParts" where
  "classify defs a ap =
     (case defs ! a of
        UnionDefinition (Some n) \<Rightarrow>
          if n = '''' then ap
          else ap\<lparr>ap_Types := (ap_Types ap)(n \<mapsto> a), ap_Unions := (ap_Unions ap)(n \<mapsto> a)\<rparr>
      | ObjectDefinition (Some n) fs \<Rightarrow>
          if n = '''' then ap
          else ap\<lparr>ap_Types := (ap_Types ap)(n \<mapsto> a), ap_Objects := (ap_Objects ap)(n \<mapsto> a)\<rparr>
      | EnumDefinition (Some n) vs \<Rightarrow>
          if n = '''' then ap
          else ap\<lparr>ap_Types := (ap_Types ap)(n \<mapsto> a), ap_Enums := (ap_Enums ap)(n \<mapsto> a)\<rparr>
      | _ \<Rightarrow> ap)"

fun add_definition :: "definitions \<Rightarrow> document_definition \<Rightarrow> ASTParts \<Rightarrow> ASTParts" where
  "add_definition defs (SchemaDefinition ops) ap =
     ap\<lparr>ap_Schemas := ap_Schemas ap @ [ops],
        ap_SchemaOperations :=
          fold (\<lambda>(opn, t) m. m(opn \<mapsto> t)) ops (ap_SchemaOperations ap)\<rparr>"
| "add_definition defs (TypeDefinition a) ap =
     (let ap = classify defs a ap
      in (case od_name (defs ! a) of
            None \<Rightarrow> ap
          | Some n \<Rightarrow> ap\<lparr>ap_AllNamed := (ap_AllNamed ap)(n \<mapsto> TypeNode a)\<rparr>))"
| "add_definition defs (NamedNode n) ap =
     (case n of
        None \<Rightarrow> ap
      | Some n \<Rightarrow> ap\<lparr>ap_AllNamed := (ap_AllNamed ap)(n \<mapsto> OtherNode)\<rparr>)"
| "add_definition defs UnnamedNode ap = ap"

text \<open>\<open>None\<close> is the panic of the type assertion on the root query object.\<close>

definition DocumentToParts :: "definitions \<Rightarrow> document_definition list \<Rightarrow> ASTParts option" where
  "DocumentToParts defs doc =
     (let pts = fold (add_definition defs) doc new_parts
      in (case ap_SchemaOperations pts ''query'' of
            None \<Rightarrow> Some pts
          | Some t \<Rightarrow>
              (case LookupType pts t of
                 None \<Rightarrow> Some pts
               | Some a \<Rightarrow>
                   if is_object (defs ! a) then Some (pts\<lparr>ap_RootQuery := Some a\<rparr>) else None)))"

text \<open>One iteration of \<open>Apply\<close>: the interface value is stored, then the type assertions.\<close>

definition apply_entry :: "definitions \<Rightarrow> string \<Rightarrow> ast_node \<Rightarrow> ASTParts \<Rightarrow> ASTParts" where
  "apply_entry defs name typ ap =
     (let ap = ap\<lparr>ap_AllNamed := (ap_AllNamed ap)(name \<mapsto> typ)\<rparr>
      in (case typ of
            OtherNode \<Rightarrow> ap
          | TypeNode a \<Rightarrow>
              let ap = (case defs ! a of
                          EnumDefinition n vs \<Rightarrow> ap\<lparr>ap_Enums := (ap_Enums ap)(name \<mapsto> a)\<rparr>
                        | ObjectDefinition n fs \<Rightarrow> ap\<lparr>ap_Objects := (ap_Objects ap)(name \<mapsto> a)\<rparr>
                        | UnionDefinition n \<Rightarrow> ap\<lparr>ap_Unions := (ap_Unions ap)(name \<mapsto> a)\<rparr>
                        | _ \<Rightarrow> ap)
              in ap\<lparr>ap_Types := (ap_Types ap)(name \<mapsto> a)\<rparr>))"

text \<open>\<open>order\<close> is the order in which the range visits \<open>other.AllNamed\<close>.\<close>

definition Apply :: "definitions \<Rightarrow> string list \<Rightarrow> ASTParts \<Rightarrow> ASTParts \<Rightarrow> ASTParts" where
  "Apply defs order other ap =
     fold (\<lambda>name ap. case ap_AllNamed other name of
             None \<Rightarrow> ap | Some typ \<Rightarrow> apply_entry defs name typ ap) order ap"

subsection \<open>Introspection types (meta.go)\<close>

abbreviation (input) named :: "string \<Rightarrow> ast_type" where "named n \<equiv> Named (Some n)"

abbreviation (input) fld :: "string \<Rightarrow> ast_type \<Rightarrow> field_definition" where
  "fld n t \<equiv> FieldDefinition (Some n) [] t"

definition include_deprecated :: "input_value_definition list" where
  "include_deprecated =
     [InputValueDefinition ''includeDeprecated'' (named ''Boolean'') (Some (BooleanValueNode False))]"

definition introspection_types :: definitions where
  "introspection_types =
    [ObjectDefinition (Some ''__Directive'')
       [fld ''name'' (NonNull (named ''String'')),
        fld ''description'' (named ''String''),
        fld ''locations'' (NonNull (List (NonNull (named ''__DirectiveLocation'')))),
        fld ''args'' (NonNull (List (NonNull (named ''__InputValue''))))],
     EnumDefinition (Some ''__DirectiveLocation'')
       [''QUERY'', ''MUTATION'', ''SUBSCRIPTION'', ''FIELD'', ''FRAGMENT_DEFINITION'',
        ''FRAGMENT_SPREAD'', ''INLINE_FRAGMENT'', ''SCHEMA'', ''SCALAR'', ''OBJECT'',
        ''FIELD_DEFINITION'', ''ARGUMENT_DEFINITION'', ''INTERFACE'', ''UNION'', ''ENUM'',
        ''ENUM_VALUE'', ''INPUT_OBJECT'', ''INPUT_FIELD_DEFINITION''],
     ObjectDefinition (Some ''__EnumValue'')
       [fld ''name'' (NonNull (named ''String'')),
        fld ''description'' (named ''String''),
        fld ''isDeprecated'' (NonNull (named ''Boolean'')),
        fld ''deprecationReason'' (named ''String'')],
     ObjectDefinition (Some ''__Field'')
       [fld ''name'' (NonNull (named ''String'')),
        fld ''description'' (named ''String''),
        fld ''args'' (NonNull (List (NonNull (named ''__InputValue'')))),
        fld ''type'' (NonNull (named ''__Type'')),
        fld ''isDeprecated'' (NonNull (named ''Boolean'')),
        fld ''deprecationReason'' (named ''String'')],
     ObjectDefinition (Some ''__InputValue'')
       [fld ''name'' (NonNull (named ''String'')),
        fld ''description'' (named ''String''),
        fld ''type'' (NonNull (named ''__Type'')),
        fld ''defaultValue'' (named ''String'')],
     ObjectDefinition (Some ''__Schema'')
       [fld ''types'' (NonNull (List (NonNull (named ''__Type'')))),
        fld ''queryType'' (NonNull (named ''__Type'')),
        fld ''mutationType'' (named ''__Type''),
        fld ''subscriptionType'' (named ''__Type''),
        fld ''directives'' (NonNull (List (NonNull (named ''__Directive''))))],
     ObjectDefinition (Some ''__Type'')
       [fld ''kind'' (NonNull (named ''__TypeKind'')),
        fld ''name'' (named ''String''),
        fld ''description'' (named ''String''),
        FieldDefinition (Some ''fields'') include_deprecated (List (NonNull (named ''__Field''))),
        fld ''interfaces'' (List (NonNull (named ''__Type''))),
        fld ''possibleTypes'' (List (NonNull (named ''__Type''))),
        FieldDefinition (Some ''enumValues'') include_deprecated
          (List (NonNull (named ''__EnumValue''))),
        fld ''inputFields'' (List (NonNull (named ''__InputValue''))),
        fld ''ofType'' (named ''__Type'')],
     EnumDefinition (Some ''__TypeKind'')
       [''SCALAR'', ''OBJECT'', ''INTERFACE'', ''UNION'', ''ENUM'', ''INPUT_OBJECT'', ''LIST'',
        ''NON_NULL'']]"

text \<open>
  The definitions that exist once the packages are initialised: the scalars of
  \<open>types.GraphQLPrimitivesAST\<close>, then the introspection types. A document that is parsed
  later allocates its definitions behind them.
\<close>

definition primitive_names :: "string list" where
  "primitive_names = [''Int'', ''String'', ''Float'', ''Boolean'', ''ID'']"

definition package_definitions :: definitions where
  "package_definitions = map (the \<circ> GraphQLPrimitivesAST) primitive_names @ introspection_types"

definition primitive_addr :: "string \<rightharpoonup> addr" where
  "primitive_addr = map_of (zip primitive_names [0 ..< 5])"

definition introspection_document :: "document_definition list" where
  "introspection_document = map TypeDefinition [5 ..< 13]"

definition introspectionAst :: ASTParts where
  "introspectionAst = the (DocumentToParts package_definitions introspection_document)"

definition schema_field :: field_definition where
  "schema_field = FieldDefinition (Some ''__schema'') [] (named ''__Schema'')"

definition append_field :: "field_definition \<Rightarrow> type_definition \<Rightarrow> type_definition" where
  "append_field f d = (case d of ObjectDefinition n fs \<Rightarrow> ObjectDefinition n (fs @ [f]) | _ \<Rightarrow> d)"

text \<open>The loop of \<open>ApplyIntrospection\<close> over the primitives.\<close>

definition add_primitives :: "string list \<Rightarrow> ASTParts \<Rightarrow> ASTParts" where
  "add_primitives porder ap =
     fold (\<lambda>name ap. case primitive_addr name of
             None \<Rightarrow> ap
           | Some a \<Rightarrow> ap\<lparr>ap_AllNamed := (ap_AllNamed ap)(name \<mapsto> TypeNode a),
                         ap_Types := (ap_Types ap)(name \<mapsto> a)\<rparr>) porder ap"

text \<open>\<open>None\<close> is the nil dereference of a root field without a name.\<close>

definition ApplyIntrospection ::
  "string list \<Rightarrow> string list \<Rightarrow> definitions \<times> ASTParts \<Rightarrow> (definitions \<times> ASTParts) option" where
  "ApplyIntrospection porder order st =
     (case st of (defs, ap) \<Rightarrow>
       (case ap_RootQuery ap of
          None \<Rightarrow> Some (defs, ap)
        | Some rqd \<Rightarrow>
            (case find_field ''__schema'' (od_fields (defs ! rqd)) of
               None \<Rightarrow> None
             | Some found \<Rightarrow>
                 let defs = (if found = None then upd_at rqd (append_field schema_field) defs
                             else defs)
                 in if ap_AllNamed ap ''__Schema'' \<noteq> None then Some (defs, ap)
                    else Some (defs, Apply defs order introspectionAst (add_primitives porder ap)))))"

subsection \<open>Schemas (schema.go)\<close>

record Schema =
  Document :: "document_definition list"
  Definitions :: ASTParts

text \<open>
  \<open>None\<close> is a panic of one of the two steps. The introspection resolver that the Go struct
  also carries only points to \<open>Definitions\<close>, its \<open>Types\<close> and its \<open>RootQuery\<close>.
\<close>

definition FromDocument ::
  "string list \<Rightarrow> string list \<Rightarrow> definitions \<Rightarrow> document_definition list \<Rightarrow>
     (definitions \<times> Schema) option" where
  "FromDocument porder order defs doc =
     (case DocumentToParts defs doc of
        None \<Rightarrow> None
      | Some ap \<Rightarrow>
          (case ApplyIntrospection porder order (defs, ap) of
             None \<Rightarrow> None
           | Some (defs', ap') \<Rightarrow> Some (defs', \<lparr>Document = doc, Definitions = ap'\<rparr>)))"

subsection \<open>Lookup\<close>

text \<open>
  What a client of the lookup relies on (\<open>qtree.SchemaResolver\<close>, \<open>introspect.ASTLookup\<close>):
  list and non-null wrappers do not matter.
\<close>

locale type_lookup =
  fixes lookup :: "ast_type \<Rightarrow> 'd option"
  assumes lookup_NonNull: "lookup (NonNull t) = lookup t"
    and lookup_List: "lookup (List t) = lookup t"
begin

lemma lookup_unwrap: "lookup (UnwrapASTType t) = lookup t"
  by (induction t rule: UnwrapASTType.induct) (simp_all add: lookup_NonNull lookup_List)

end

interpretation parts: type_lookup "LookupType ap" for ap
  by unfold_locales simp_all

text \<open>The kinds of definition that \<open>DocumentToParts\<close> enters into \<open>Types\<close>.\<close>

definition classified :: "type_definition \<Rightarrow> bool" where
  "classified d = (case d of ObjectDefinition n fs \<Rightarrow> True | EnumDefinition n vs \<Rightarrow> True
     | UnionDefinition n \<Rightarrow> True | _ \<Rightarrow> False)"

fun type_addrs :: "document_definition list \<Rightarrow> addr list" where
  "type_addrs [] = []"
| "type_addrs (TypeDefinition a # ds) = a # type_addrs ds"
| "type_addrs (d # ds) = type_addrs ds"

lemma type_addrs_append [simp]: "type_addrs (xs @ ys) = type_addrs xs @ type_addrs ys"
  by (induction xs rule: type_addrs.induct) auto

lemma type_addrs_map [simp]: "type_addrs (map TypeDefinition as) = as"
  by (induction as) auto

lemma classify_Types:
  "n \<noteq> '''' \<Longrightarrow> ap_Types (classify defs a ap) n =
     (if od_name (defs ! a) = Some n \<and> classified (defs ! a) then Some a else ap_Types ap n)"
  by (auto simp: classify_def classified_def split: type_definition.splits option.splits)

lemma classify_other [simp]:
  "ap_AllNamed (classify defs a ap) = ap_AllNamed ap"
  "ap_SchemaOperations (classify defs a ap) = ap_SchemaOperations ap"
  "ap_RootQuery (classify defs a ap) = ap_RootQuery ap"
  by (auto simp: classify_def split: type_definition.splits option.splits)

lemma add_definition_Types:
  "n \<noteq> '''' \<Longrightarrow> ap_Types (add_definition defs d ap) n =
     (case d of TypeDefinition a \<Rightarrow>
        if od_name (defs ! a) = Some n \<and> classified (defs ! a) then Some a else ap_Types ap n
      | _ \<Rightarrow> ap_Types ap n)"
  by (cases d) (auto simp: Let_def classify_Types split: option.splits)

lemma parts_Types:
  assumes "n \<noteq> ''''"
  shows "ap_Types (fold (add_definition defs) doc new_parts) n =
     find (\<lambda>a. od_name (defs ! a) = Some n \<and> classified (defs ! a)) (rev (type_addrs doc))"
proof (induction doc rule: rev_induct)
  case (snoc d doc)
  then show ?case
    using assms by (cases d) (simp_all add: add_definition_Types del: add_definition.simps)
qed (simp add: new_parts_def)

lemma DocumentToParts_Types:
  "DocumentToParts defs doc = Some ap \<Longrightarrow>
     ap_Types ap = ap_Types (fold (add_definition defs) doc new_parts) \<and>
     ap_AllNamed ap = ap_AllNamed (fold (add_definition defs) doc new_parts)"
  by (auto simp: DocumentToParts_def Let_def split: option.splits if_splits)

text \<open>
  C24: the lookup of a name after \<open>DocumentToParts\<close>, through any list and non-null wrappers,
  finds the last object, enum or union definition of the document with that name, and
  nothing when there is none: scalars, interfaces and input objects never resolve.
\<close>

theorem document_lookup:
  assumes "DocumentToParts defs doc = Some ap" and "UnwrapASTType t = Named (Some n)"
    and "n \<noteq> ''''"
  shows "LookupType ap t =
     find (\<lambda>a. od_name (defs ! a) = Some n \<and> classified (defs ! a)) (rev (type_addrs doc))"
proof -
  have "LookupType ap t = LookupType ap (Named (Some n))"
    using parts.lookup_unwrap [of ap t] assms(2) by simp
  then show ?thesis
    using assms(3) DocumentToParts_Types [OF assms(1)] by (simp add: parts_Types)
qed

subsection \<open>Introspection\<close>

lemma apply_entry_simps [simp]:
  "ap_AllNamed (apply_entry defs name typ ap) = (ap_AllNamed ap)(name \<mapsto> typ)"
  "ap_Types (apply_entry defs name typ ap) =
     (case typ of TypeNode a \<Rightarrow> (ap_Types ap)(name \<mapsto> a) | OtherNode \<Rightarrow> ap_Types ap)"
  "ap_RootQuery (apply_entry defs name typ ap) = ap_RootQuery ap"
  by (auto simp: apply_entry_def Let_def split: ast_node.splits type_definition.splits)

lemma Apply_lookup:
  "ap_AllNamed (Apply defs order other ap) n =
     (if n \<in> set order \<and> ap_AllNamed other n \<noteq> None then ap_AllNamed other n else ap_AllNamed ap n)"
  "ap_Types (Apply defs order other ap) n =
     (case ap_AllNamed other n of
        Some (TypeNode a) \<Rightarrow> if n \<in> set order then Some a else ap_Types ap n
      | _ \<Rightarrow> ap_Types ap n)"
  "ap_RootQuery (Apply defs order other ap) = ap_RootQuery ap"
  unfolding Apply_def
  by (induction order arbitrary: ap) (auto split: option.splits ast_node.splits)

text \<open>The names of the introspection types and the addresses that initialisation gives them.\<close>

lemma length_primitive_names [simp]: "length primitive_names = 5"
  by (simp add: primitive_names_def)

lemma package_definitions_eval:
  "package_definitions = map ScalarDefinition primitive_names @ introspection_types"
  by (simp add: package_definitions_def primitive_names_def GraphQLPrimitivesAST_def
      GraphQLPrimitivesKinds_def)

lemma nth_package_definitions:
  "5 \<le> a \<Longrightarrow> a < 13 \<Longrightarrow> package_definitions ! a = introspection_types ! (a - 5)"
  by (simp add: package_definitions_eval nth_append)

lemma length_introspection_types: "length introspection_types = 8"
  by (simp add: introspection_types_def)

lemma primitive_addr_at: "i < 5 \<Longrightarrow> primitive_addr (primitive_names ! i) = Some i"
  using map_of_zip_nth [of primitive_names "[0 ..< 5]" i]
  by (simp add: primitive_addr_def primitive_names_def nth_upt del: upt_rec_numeral)

definition introspection_names :: "string list" where
  "introspection_names = [''__Directive'', ''__DirectiveLocation'', ''__EnumValue'', ''__Field'',
     ''__InputValue'', ''__Schema'', ''__Type'', ''__TypeKind'']"

lemma introspection_parts:
  "DocumentToParts package_definitions introspection_document = Some introspectionAst"
  "ap_AllNamed introspectionAst = map_of (zip introspection_names (map TypeNode [5 ..< 13]))"
  by (simp_all add: introspectionAst_def DocumentToParts_def introspection_document_def
      upt_rec package_definitions_eval primitive_names_def introspection_types_def Let_def
      classify_def new_parts_def introspection_names_def fun_eq_iff)

lemma introspection_names_props:
  "length introspection_names = 8" "distinct introspection_names"
  by (simp_all add: introspection_names_def)

lemma introspection_lookup:
  assumes "i < 8"
  shows "ap_AllNamed introspectionAst (introspection_names ! i) = Some (TypeNode (i + 5))"
  using assms map_of_zip_nth [of introspection_names "map TypeNode [5 ..< 13]" i]
  by (simp add: introspection_parts introspection_names_props nth_upt del: upt_rec_numeral)

lemma introspection_dom: "dom (ap_AllNamed introspectionAst) = set introspection_names"
  by (simp add: introspection_parts introspection_names_props)

lemma introspection_name_at:
  "i < 8 \<Longrightarrow> od_name (package_definitions ! (i + 5)) = Some (introspection_names ! i)"
  by (simp add: nth_package_definitions introspection_names_def introspection_types_def
      nth_Cons' )

lemma add_primitives_lookup:
  "ap_Types (add_primitives porder ap) n =
     (if n \<in> set porder \<and> primitive_addr n \<noteq> None then primitive_addr n else ap_Types ap n)"
  "ap_RootQuery (add_primitives porder ap) = ap_RootQuery ap"
  unfolding add_primitives_def
  by (induction porder arbitrary: ap) (auto split: option.splits)

lemma ApplyIntrospection_root:
  assumes "ap_RootQuery ap = Some r"
  shows "ApplyIntrospection porder order (defs, ap) =
    (case find_field ''__schema'' (od_fields (defs ! r)) of
       None \<Rightarrow> None
     | Some found \<Rightarrow>
         let defs' = (if found = None then upd_at r (append_field schema_field) defs else defs)
         in Some (defs', if ap_AllNamed ap ''__Schema'' \<noteq> None then ap
              else Apply defs' order introspectionAst (add_primitives porder ap)))"
  using assms by (simp add: ApplyIntrospection_def Let_def split: option.split)

lemma append_field_simps [simp]:
  "od_name (append_field f d) = od_name d" "is_object (append_field f d) = is_object d"
  "is_object d \<Longrightarrow> od_fields (append_field f d) = od_fields d @ [f]"
  by (cases d; simp add: append_field_def)+

lemma root_gets_schema_field:
  assumes "ApplyIntrospection porder order (defs, ap) = Some (defs', ap')"
    and "ap_RootQuery ap = Some r" and "r < length defs" and "is_object (defs ! r)"
  shows "\<exists>f. find_field ''__schema'' (od_fields (defs' ! r)) = Some (Some f)"
proof -
  obtain found where found: "find_field ''__schema'' (od_fields (defs ! r)) = Some found"
    using assms(1) by (auto simp: ApplyIntrospection_root [OF assms(2)] split: option.splits)
  have defs': "defs' = (if found = None then upd_at r (append_field schema_field) defs else defs)"
    using assms(1) found by (auto simp: ApplyIntrospection_root [OF assms(2)] Let_def)
  show ?thesis
  proof (cases found)
    case None
    have "od_fields (defs' ! r) = od_fields (defs ! r) @ [schema_field]"
      using assms(3,4) None by (simp add: defs')
    then show ?thesis using found None by (simp add: find_field_append schema_field_def)
  next
    case (Some f)
    then show ?thesis using found by (simp add: defs')
  qed
qed

text \<open>
  applying introspection is idempotent: a second application, in whatever order its
  ranges run, leaves the definitions and every map as they are.
\<close>

theorem introspection_idempotent:
  assumes "ApplyIntrospection porder order (defs, ap) = Some (defs', ap')"
    and "\<And>r. ap_RootQuery ap = Some r \<Longrightarrow> r < length defs \<and> is_object (defs ! r)"
    and "set order = dom (ap_AllNamed introspectionAst)"
  shows "ApplyIntrospection porder' order' (defs', ap') = Some (defs', ap')"
proof (cases "ap_RootQuery ap")
  case None
  then show ?thesis using assms(1) by (auto simp: ApplyIntrospection_def)
next
  case (Some r)
  obtain found where found: "find_field ''__schema'' (od_fields (defs ! r)) = Some found"
    using assms(1) by (auto simp: ApplyIntrospection_root [OF Some] split: option.splits)
  have defs': "defs' = (if found = None then upd_at r (append_field schema_field) defs else defs)"
    and ap': "ap' = (if ap_AllNamed ap ''__Schema'' \<noteq> None then ap
              else Apply defs' order introspectionAst (add_primitives porder ap))"
    using assms(1) found by (auto simp: ApplyIntrospection_root [OF Some] Let_def)
  have root: "ap_RootQuery ap' = Some r"
    using Some by (simp add: ap' Apply_lookup add_primitives_lookup)
  have "''__Schema'' \<in> dom (ap_AllNamed introspectionAst)"
    by (simp only: introspection_dom) (simp add: introspection_names_def)
  then have named: "ap_AllNamed ap' ''__Schema'' \<noteq> None"
    using assms(3) by (simp add: ap' Apply_lookup domIff)
  obtain f where "find_field ''__schema'' (od_fields (defs' ! r)) = Some (Some f)"
    using root_gets_schema_field [OF assms(1) Some] assms(2) Some by blast
  then show ?thesis
    using named by (simp add: ApplyIntrospection_root [OF root])
qed

text \<open>
  C25: once introspection has been applied to a document that does not define \<open>__Schema\<close>
  itself, the introspection types are closed: each of their fields, through its list and
  non-null wrappers, resolves to a definition with the name that the field's type has. The
  root query object, reached through any of the maps, has a \<open>__schema\<close> field.
\<close>

theorem introspection_closed:
  assumes "ApplyIntrospection porder order (defs, ap) = Some (defs', ap')"
    and "ap_RootQuery ap = Some r" and "r < length defs" and "is_object (defs ! r)"
    and "defs = package_definitions @ rest"
    and "ap_AllNamed ap ''__Schema'' = None"
    and "set porder = set primitive_names" and "set order = dom (ap_AllNamed introspectionAst)"
  shows "(\<forall>d \<in> set introspection_types. \<forall>f \<in> set (od_fields d).
      \<exists>a. LookupType ap' (fd_type f) = Some a \<and>
          UnwrapASTType (fd_type f) = Named (od_name (defs' ! a))) \<and>
     (\<exists>f. find_field ''__schema'' (od_fields (defs' ! r)) = Some (Some f))"
proof -
  have ap': "ap' = Apply defs' order introspectionAst (add_primitives porder ap)"
    and same: "od_name (defs' ! a) = od_name (defs ! a)" for a
    using assms(1,6)
    by (auto simp: ApplyIntrospection_root [OF assms(2)] Let_def nth_upd_at_field
        split: option.splits)
  have names: "\<exists>n. UnwrapASTType (fd_type f) = Named (Some n) \<and>
       n \<in> set introspection_names \<union> set primitive_names"
    if "d \<in> set introspection_types" and "f \<in> set (od_fields d)" for d f
    using that unfolding introspection_types_def introspection_names_def primitive_names_def
    by auto
  have "\<exists>a. LookupType ap' t = Some a \<and> od_name (defs' ! a) = Some n"
    if t: "UnwrapASTType t = Named (Some n)"
      and n: "n \<in> set introspection_names \<union> set primitive_names" for t n
  proof -
    have "n \<noteq> ''''" using n by (auto simp: introspection_names_def primitive_names_def)
    then have l: "LookupType ap' t = ap_Types ap' n"
      using parts.lookup_unwrap [of ap' t] t by simp
    show ?thesis
    proof (cases "n \<in> set introspection_names")
      case True
      then obtain i where i: "i < 8" "n = introspection_names ! i"
        by (auto simp: in_set_conv_nth introspection_names_props)
      then have "ap_Types ap' n = Some (i + 5)"
        using True assms(8) by (simp add: ap' Apply_lookup introspection_lookup introspection_dom)
      moreover have "od_name (defs ! (i + 5)) = Some n"
        using i introspection_name_at [of i]
        by (simp add: assms(5) nth_append package_definitions_eval length_introspection_types)
      ultimately show ?thesis using l same by simp
    next
      case False
      then have p: "n \<in> set primitive_names" using n by simp
      then obtain i where i: "primitive_addr n = Some i" "i < 5" "n = primitive_names ! i"
        using primitive_addr_at by (metis in_set_conv_nth length_primitive_names)
      have "ap_AllNamed introspectionAst n = None"
        using False introspection_dom by (metis domIff)
      then have "ap_Types ap' n = Some i"
        using p i assms(7) by (simp add: ap' Apply_lookup add_primitives_lookup)
      moreover have "od_name (defs ! i) = Some n"
        using i by (simp add: assms(5) nth_append package_definitions_eval)
      ultimately show ?thesis using l same by simp
    qed
  qed
  then show ?thesis
    using names root_gets_schema_field [OF assms(1-4)] by metis
qed


subsection \<open>Witnesses\<close>

definition sample_defs :: definitions where
  "sample_defs = package_definitions @
     [ObjectDefinition (Some ''Query'') [FieldDefinition (Some ''name'') [] (named ''String'')]]"

definition sample_document :: "document_definition list" where
  "sample_document = [SchemaDefinition [(''query'', named ''Query'')], TypeDefinition 13]"

definition sample_parts :: ASTParts where
  "sample_parts = the (DocumentToParts sample_defs sample_document)"

lemma sample_parts_eval:
  "DocumentToParts sample_defs sample_document = Some sample_parts"
proof -
  have "Option.is_none (DocumentToParts sample_defs sample_document) = False" by code_simp
  then show ?thesis by (cases "DocumentToParts sample_defs sample_document") (auto simp: sample_parts_def)
qed

lemma sample_parts_facts:
  "ap_RootQuery sample_parts = Some 13" "ap_AllNamed sample_parts ''__Schema'' = None"
  "length sample_defs = 14" "is_object (sample_defs ! 13)"
  by code_simp+

definition sample_applied :: "definitions \<times> ASTParts" where
  "sample_applied = the (ApplyIntrospection primitive_names introspection_names (sample_defs, sample_parts))"

lemma sample_applied_eval:
  "ApplyIntrospection primitive_names introspection_names (sample_defs, sample_parts) =
     Some (fst sample_applied, snd sample_applied)"
proof -
  have "find_field ''__schema'' (od_fields (sample_defs ! 13)) = Some None" by code_simp
  then show ?thesis
    by (simp add: sample_applied_def ApplyIntrospection_root [OF sample_parts_facts(1)] Let_def
        split del: if_split)
qed

lemma document_lookup_witness:
  "LookupType sample_parts (NonNull (List (named ''Query''))) = Some 13"
proof -
  have "find (\<lambda>a. od_name (sample_defs ! a) = Some ''Query'' \<and> classified (sample_defs ! a))
      (rev (type_addrs sample_document)) = Some 13" by code_simp
  then show ?thesis
    using document_lookup [OF sample_parts_eval(1), of "NonNull (List (named ''Query''))" "''Query''"]
    by simp
qed

lemma introspection_idempotent_witness:
  "ApplyIntrospection [] [] (fst sample_applied, snd sample_applied) =
     Some (fst sample_applied, snd sample_applied)"
proof (rule introspection_idempotent [OF sample_applied_eval])
  show "r < length sample_defs \<and> is_object (sample_defs ! r)" if "ap_RootQuery sample_parts = Some r" for r
    using that sample_parts_facts by simp
  show "set introspection_names = dom (ap_AllNamed introspectionAst)" by (simp add: introspection_dom)
qed

lemma introspection_field_index: "6 < (8::nat)" "3 < length (od_fields (introspection_types ! 6))"
  by (simp_all add: introspection_types_def)

lemma introspection_closed_witness:
  "\<exists>a. LookupType (snd sample_applied) (List (NonNull (named ''__Field''))) = Some a \<and>
     od_name (fst sample_applied ! a) = Some ''__Field''"
proof -
  let ?f = "od_fields (introspection_types ! 6) ! 3"
  have "(\<forall>d \<in> set introspection_types. \<forall>f \<in> set (od_fields d).
      \<exists>a. LookupType (snd sample_applied) (fd_type f) = Some a \<and>
          UnwrapASTType (fd_type f) = Named (od_name (fst sample_applied ! a))) \<and>
     (\<exists>f. find_field ''__schema'' (od_fields (fst sample_applied ! 13)) = Some (Some f))"
  proof (rule introspection_closed [OF sample_applied_eval sample_parts_facts(1)])
    show "13 < length sample_defs" using sample_parts_facts by simp
    show "is_object (sample_defs ! 13)" by (rule sample_parts_facts)
    show "sample_defs = package_definitions @
       [ObjectDefinition (Some ''Query'') [FieldDefinition (Some ''name'') [] (named ''String'')]]"
      by (rule sample_defs_def)
    show "ap_AllNamed sample_parts ''__Schema'' = None" by (rule sample_parts_facts)
    show "set introspection_names = dom (ap_AllNamed introspectionAst)" by (simp add: introspection_dom)
  qed simp
  then obtain a where 1: "LookupType (snd sample_applied) (fd_type ?f) = Some a"
    and 2: "UnwrapASTType (fd_type ?f) = Named (od_name (fst sample_applied ! a))"
    by (metis length_introspection_types nth_mem introspection_field_index)
  have t: "fd_type ?f = List (NonNull (named ''__Field''))" by (simp add: introspection_types_def)
  have "od_name (fst sample_applied ! a) = Some ''__Field''" using 2 unfolding t by simp
  then show ?thesis using 1 unfolding t by blast
qed

end
