(* ===== verification/VarStore.thy ===== *)
theory VarStore
  imports Types
begin

text \<open>
  \<open>varstore/varstore.go\<close>: the store of variables shared by the server's and the client's
  query tree. Variables and reference handles are objects with identity (a handle keeps
  its variable alive after the store has forgotten it), so both live in address-indexed
  stores inside the state. The Go map \<open>variables\<close> is a finite map from ids to addresses;
  an operation that ranges over it takes the order of the range as the argument \<open>order\<close>,
  because Go leaves that order open. The store handler is what the operations return: the
  variable passed to \<open>HandleVariableAdded\<close>, the variables passed to
  \<open>HandleVariableRemoved\<close>. Every operation holds the store's mutex throughout, so each is
  one atomic step.
\<close>

subsection \<open>State\<close>

record Variable =
  var_ast :: ASTVariable
  referenceCtr :: u32
  references :: "(u32 \<times> addr) list"

record VariableReference =
  refID :: u32
  ref_vb :: addr
  ref_done :: bool

record VariableStore =
  nextID :: u32
  variables :: "u32 \<rightharpoonup> addr"
  vs_vars :: "Variable list"
  vs_refs :: "VariableReference list"

definition NewVariableStore :: VariableStore where
  "NewVariableStore = \<lparr>nextID = 1, variables = Map.empty, vs_vars = [], vs_refs = []\<rparr>"

definition NewVariable :: "ASTVariable \<Rightarrow> Variable" where
  "NewVariable varb = \<lparr>var_ast = varb, referenceCtr = 0, references = []\<rparr>"

subsection \<open>Operations\<close>

definition HasReferences :: "Variable \<Rightarrow> bool" where
  "HasReferences v = (references v \<noteq> [])"

definition AddReference :: "addr \<Rightarrow> VariableStore \<Rightarrow> VariableStore \<times> addr" where
  "AddReference a vs =
     (let id = referenceCtr (vs_vars vs ! a) + 1;
          r = length (vs_refs vs)
      in (vs\<lparr>vs_vars := upd_at a (\<lambda>v. v\<lparr>referenceCtr := id,
                references := AList.update id r (references v)\<rparr>) (vs_vars vs),
             vs_refs := vs_refs vs @ [\<lparr>refID = id, ref_vb = a, ref_done = False\<rparr>]\<rparr>, r))"

definition GetValue :: "VariableStore \<Rightarrow> addr \<Rightarrow> RGQLPrimitive option" where
  "GetValue vs r = av_value (var_ast (vs_vars vs ! ref_vb (vs_refs vs ! r)))"

definition GetVarID :: "VariableStore \<Rightarrow> addr \<Rightarrow> u32" where
  "GetVarID vs r = av_id (var_ast (vs_vars vs ! ref_vb (vs_refs vs ! r)))"

definition Unsubscribe :: "addr \<Rightarrow> VariableStore \<Rightarrow> VariableStore" where
  "Unsubscribe r vs =
     (if ref_done (vs_refs vs ! r) then vs
      else vs\<lparr>vs_refs := upd_at r (\<lambda>x. x\<lparr>ref_done := True\<rparr>) (vs_refs vs),
              vs_vars := upd_at (ref_vb (vs_refs vs ! r))
                (\<lambda>v. v\<lparr>references := AList.delete (refID (vs_refs vs ! r)) (references v)\<rparr>)
                (vs_vars vs)\<rparr>)"

definition VariableStore_insert :: "ASTVariable \<Rightarrow> u32 \<Rightarrow> VariableStore \<Rightarrow> VariableStore" where
  "VariableStore_insert varb i vs =
     vs\<lparr>vs_vars := vs_vars vs @ [NewVariable varb],
        variables := (variables vs)(i \<mapsto> length (vs_vars vs))\<rparr>"

definition VariableStore_Put ::
  "ASTVariable \<Rightarrow> VariableStore \<Rightarrow> VariableStore \<times> ASTVariable option" where
  "VariableStore_Put varb vs =
     (let (vs', added) =
        (case variables vs (av_id varb) of
           None \<Rightarrow> (VariableStore_insert varb (av_id varb) vs, Some varb)
         | Some _ \<Rightarrow> (vs, None))
      in (if nextID vs' < av_id varb then vs'\<lparr>nextID := av_id varb + 1\<rparr> else vs', added))"

definition VariableStore_Get :: "u32 \<Rightarrow> VariableStore \<Rightarrow> VariableStore \<times> addr option" where
  "VariableStore_Get i vs =
     (case variables vs i of
        Some a \<Rightarrow> (case AddReference a vs of (vs', r) \<Rightarrow> (vs', Some r))
      | None \<Rightarrow> (vs, None))"

fun find_equiv ::
  "u32 list \<Rightarrow> (u32 \<Rightarrow> bool) \<Rightarrow> RGQLPrimitive option \<Rightarrow> VariableStore \<Rightarrow> addr option" where
  "find_equiv [] same val vs = None"
| "find_equiv (i # is) same val vs =
     (case variables vs i of
        None \<Rightarrow> find_equiv is same val vs
      | Some a \<Rightarrow>
          if IsPrimEquiv (same i) val (av_value (var_ast (vs_vars vs ! a))) then Some a
          else find_equiv is same val vs)"

definition VariableStore_GetOrPutWithValue ::
  "u32 list \<Rightarrow> (u32 \<Rightarrow> bool) \<Rightarrow> RGQLPrimitive option \<Rightarrow> VariableStore \<Rightarrow>
     VariableStore \<times> addr \<times> ASTVariable option" where
  "VariableStore_GetOrPutWithValue order same val vs =
     (case find_equiv order same val vs of
        Some a \<Rightarrow> (case AddReference a vs of (vs', r) \<Rightarrow> (vs', r, None))
      | None \<Rightarrow>
          let nid = nextID vs;
              varb = \<lparr>av_id = nid, av_value = val, av_unknown = []\<rparr>;
              a = length (vs_vars vs);
              vs1 = VariableStore_insert varb nid (vs\<lparr>nextID := nid + 1\<rparr>)
          in (case AddReference a vs1 of (vs', r) \<Rightarrow> (vs', r, Some varb)))"

fun VariableStore_GarbageCollect ::
  "u32 list \<Rightarrow> VariableStore \<Rightarrow> VariableStore \<times> Variable list" where
  "VariableStore_GarbageCollect [] vs = (vs, [])"
| "VariableStore_GarbageCollect (i # is) vs =
     (case variables vs i of
        None \<Rightarrow> VariableStore_GarbageCollect is vs
      | Some a \<Rightarrow>
          if \<not> HasReferences (vs_vars vs ! a) then
            (case VariableStore_GarbageCollect is (vs\<lparr>variables := (variables vs)(i := None)\<rparr>) of
               (vs', removed) \<Rightarrow> (vs', vs_vars vs ! a # removed))
          else VariableStore_GarbageCollect is vs)"

text \<open>A range over the map visits every key once, in some order.\<close>

definition range_order :: "u32 list \<Rightarrow> VariableStore \<Rightarrow> bool" where
  "range_order order vs \<longleftrightarrow> distinct order \<and> set order = dom (variables vs)"

subsection \<open>Invariant\<close>

text \<open>
  The store's invariant: an id leads to a variable with that id; a variable's reference
  table holds exactly its handles that are not unsubscribed, each under its own id, none
  beyond the counter. \<open>n\<close> counts how many further references the 32-bit counters can take
  before they wrap.
\<close>

definition var_ok :: "VariableReference list \<Rightarrow> nat \<Rightarrow> addr \<Rightarrow> Variable \<Rightarrow> bool" where
  "var_ok refs n a v \<longleftrightarrow>
     distinct (map fst (references v)) \<and>
     unat (referenceCtr v) + n < 2 ^ 32 \<and>
     (\<forall>(k, r) \<in> set (references v).
        k \<le> referenceCtr v \<and> r < length refs \<and> refs ! r = \<lparr>refID = k, ref_vb = a, ref_done = False\<rparr>)"

definition vs_inv :: "nat \<Rightarrow> VariableStore \<Rightarrow> bool" where
  "vs_inv n vs \<longleftrightarrow> n < 2 ^ 32 \<and>
     (\<forall>i a. variables vs i = Some a \<longrightarrow>
        a < length (vs_vars vs) \<and> av_id (var_ast (vs_vars vs ! a)) = i) \<and>
     (\<forall>a < length (vs_vars vs). var_ok (vs_refs vs) n a (vs_vars vs ! a)) \<and>
     (\<forall>r < length (vs_refs vs).
        ref_vb (vs_refs vs ! r) < length (vs_vars vs) \<and>
        (\<not> ref_done (vs_refs vs ! r) \<longrightarrow>
           (refID (vs_refs vs ! r), r) \<in> set (references (vs_vars vs ! ref_vb (vs_refs vs ! r)))))"

text \<open>A handle that has not been unsubscribed.\<close>

definition live_ref :: "VariableStore \<Rightarrow> addr \<Rightarrow> bool" where
  "live_ref vs r \<longleftrightarrow> r < length (vs_refs vs) \<and> \<not> ref_done (vs_refs vs ! r)"

text \<open>A handle whose variable the store still lists under its id.\<close>

definition stored_ref :: "VariableStore \<Rightarrow> addr \<Rightarrow> bool" where
  "stored_ref vs r \<longleftrightarrow>
     r < length (vs_refs vs) \<and> variables vs (GetVarID vs r) = Some (ref_vb (vs_refs vs ! r))"

lemma var_okD:
  "var_ok refs n a v \<Longrightarrow> (k, q) \<in> set (references v) \<Longrightarrow>
     k \<le> referenceCtr v \<and> q < length refs \<and>
     refs ! q = \<lparr>refID = k, ref_vb = a, ref_done = False\<rparr>"
  by (auto simp: var_ok_def)

lemma vs_inv_variable:
  "vs_inv n vs \<Longrightarrow> variables vs i = Some a \<Longrightarrow>
     a < length (vs_vars vs) \<and> av_id (var_ast (vs_vars vs ! a)) = i"
  by (simp add: vs_inv_def)

lemma vs_inv_var: "vs_inv n vs \<Longrightarrow> a < length (vs_vars vs) \<Longrightarrow> var_ok (vs_refs vs) n a (vs_vars vs ! a)"
  by (simp add: vs_inv_def)

lemma vs_inv_ref:
  "vs_inv n vs \<Longrightarrow> r < length (vs_refs vs) \<Longrightarrow> ref_vb (vs_refs vs ! r) < length (vs_vars vs)"
  by (simp add: vs_inv_def)

lemma vs_inv_live:
  "vs_inv n vs \<Longrightarrow> live_ref vs r \<Longrightarrow>
     (refID (vs_refs vs ! r), r) \<in> set (references (vs_vars vs ! ref_vb (vs_refs vs ! r)))"
  by (simp add: vs_inv_def live_ref_def)

lemma vs_inv_mono: "vs_inv n vs \<Longrightarrow> m \<le> n \<Longrightarrow> vs_inv m vs"
  unfolding vs_inv_def var_ok_def by (intro conjI; force)

lemma vs_inv_new: "n < 2 ^ 32 \<Longrightarrow> vs_inv n NewVariableStore"
  by (simp add: vs_inv_def NewVariableStore_def)

subsection \<open>Preservation\<close>

lemma nth_snoc_cases: "r < Suc (length xs) \<Longrightarrow> (xs @ [x]) ! r = (if r < length xs then xs ! r else x)"
  by (auto simp: nth_append less_Suc_eq)

lemma var_ok_extend_refs:
  "var_ok refs n a v \<Longrightarrow> var_ok (refs @ [x]) n a v"
  unfolding var_ok_def by (auto simp: nth_append)

lemma var_ok_add:
  assumes ok: "var_ok refs (Suc n) a v"
  defines "k \<equiv> referenceCtr v + 1"
  shows "var_ok (refs @ [\<lparr>refID = k, ref_vb = a, ref_done = False\<rparr>]) n a
     (v\<lparr>referenceCtr := k, references := AList.update k (length refs) (references v)\<rparr>)"
proof -
  have "referenceCtr v \<noteq> - 1"
    using ok by (intro u32_not_max) (simp add: var_ok_def)
  then have u: "unat k = unat (referenceCtr v) + 1" by (simp add: k_def unat_inc_u32)
  have fresh: "k \<notin> fst ` set (references v)"
  proof
    assume "k \<in> fst ` set (references v)"
    then have "k \<le> referenceCtr v" using ok by (auto simp: var_ok_def)
    then show False using u by (simp add: word_le_nat_alt)
  qed
  have le: "referenceCtr v \<le> k" using u by (simp add: word_le_nat_alt)
  have upd: "AList.update k (length refs) (references v) = references v @ [(k, length refs)]"
    using fresh by (rule alist_update_fresh)
  show ?thesis
    using ok u le fresh unfolding var_ok_def by (auto simp: upd nth_append intro: order_trans)
qed


text \<open>
  What every operation leaves alone: the variable of a handle, its id and its value.
\<close>

definition vs_frame :: "VariableStore \<Rightarrow> VariableStore \<Rightarrow> bool" where
  "vs_frame vs vs' \<longleftrightarrow>
     length (vs_vars vs) \<le> length (vs_vars vs') \<and> length (vs_refs vs) \<le> length (vs_refs vs') \<and>
     (\<forall>a < length (vs_vars vs). var_ast (vs_vars vs' ! a) = var_ast (vs_vars vs ! a)) \<and>
     (\<forall>r < length (vs_refs vs). refID (vs_refs vs' ! r) = refID (vs_refs vs ! r) \<and>
        ref_vb (vs_refs vs' ! r) = ref_vb (vs_refs vs ! r))"

lemma vs_frame_refl [simp]: "vs_frame vs vs"
  by (simp add: vs_frame_def)

lemma vs_frame_trans: "vs_frame a b \<Longrightarrow> vs_frame b c \<Longrightarrow> vs_frame a c"
  unfolding vs_frame_def by (metis order_trans order_less_le_trans)

lemma vs_frame_value:
  assumes "vs_inv n vs" and "vs_frame vs vs'" and "r < length (vs_refs vs)"
  shows "GetValue vs' r = GetValue vs r" and "GetVarID vs' r = GetVarID vs r"
  using assms vs_inv_ref [OF assms(1,3)] by (auto simp: vs_frame_def GetValue_def GetVarID_def)

lemma AddReference_refs:
  assumes "AddReference a vs = (vs', r)"
  shows "r = length (vs_refs vs)"
    and "vs_refs vs' = vs_refs vs @
      [\<lparr>refID = referenceCtr (vs_vars vs ! a) + 1, ref_vb = a, ref_done = False\<rparr>]"
    and "variables vs' = variables vs" and "nextID vs' = nextID vs"
    and "length (vs_vars vs') = length (vs_vars vs)"
    and "vs_frame vs vs'"
  using assms
  by (auto simp: AddReference_def Let_def vs_frame_def nth_append nth_upd_at_field)

lemma AddReference_inv:
  assumes inv: "vs_inv (Suc n) vs" and a: "a < length (vs_vars vs)"
    and add: "AddReference a vs = (vs', r)"
  shows "vs_inv n vs'" and "live_ref vs' r" and "ref_vb (vs_refs vs' ! r) = a"
proof -
  let ?k = "referenceCtr (vs_vars vs ! a) + 1"
  let ?f = "\<lambda>v. v\<lparr>referenceCtr := ?k,
                references := AList.update ?k (length (vs_refs vs)) (references v)\<rparr>"
  have refs: "vs_refs vs' = vs_refs vs @ [\<lparr>refID = ?k, ref_vb = a, ref_done = False\<rparr>]"
    and vars: "vs_vars vs' = upd_at a ?f (vs_vars vs)"
    and r: "r = length (vs_refs vs)" and m: "variables vs' = variables vs"
    using add by (auto simp: AddReference_def Let_def)
  have fresh: "var_ok (vs_refs vs) n b v" if "var_ok (vs_refs vs) (Suc n) b v" for b v
    using that by (auto simp: var_ok_def)
  have ok: "var_ok (vs_refs vs') n b (vs_vars vs' ! b)" if b: "b < length (vs_vars vs)" for b
  proof (cases "b = a")
    case True
    then show ?thesis
      using var_ok_add [OF vs_inv_var [OF inv a]] a by (simp add: vars refs)
  next
    case False
    then show ?thesis
      using vs_inv_var [OF inv b] by (simp add: vars refs fresh var_ok_extend_refs)
  qed
  have keep: "(k, q) \<in> set (references (vs_vars vs' ! b))"
    if kq: "(k, q) \<in> set (references (vs_vars vs ! b))" and b: "b < length (vs_vars vs)" for k q b
  proof (cases "b = a")
    case True
    have "?k \<notin> fst ` set (references (vs_vars vs ! a))"
    proof
      assume "?k \<in> fst ` set (references (vs_vars vs ! a))"
      then have le: "?k \<le> referenceCtr (vs_vars vs ! a)"
        using vs_inv_var [OF inv a] by (auto simp: var_ok_def)
      have "referenceCtr (vs_vars vs ! a) \<noteq> - 1"
        using vs_inv_var [OF inv a] by (intro u32_not_max) (simp add: var_ok_def)
      then show False using le by (simp add: word_le_nat_alt unat_inc_u32)
    qed
    then show ?thesis
      using True kq a by (simp add: vars alist_update_fresh)
  next
    case False
    then show ?thesis using kq by (simp add: vars)
  qed
  have new: "(?k, r) \<in> set (references (vs_vars vs' ! a))"
    using a by (simp add: vars r) (metis map_of_SomeD AList.update_conv' fun_upd_same)
  show "vs_inv n vs'"
    unfolding vs_inv_def
  proof (intro conjI allI impI)
    show "n < 2 ^ 32" using inv by (simp add: vs_inv_def)
  next
    fix i b assume "variables vs' i = Some b"
    then show "b < length (vs_vars vs')"
      and "av_id (var_ast (vs_vars vs' ! b)) = i"
      using vs_inv_variable [OF inv, of i b] by (auto simp: m vars nth_upd_at_field)
  next
    fix b assume "b < length (vs_vars vs')"
    then show "var_ok (vs_refs vs') n b (vs_vars vs' ! b)" using ok by (simp add: vars)
  next
    fix q assume q: "q < length (vs_refs vs')"
    then show "ref_vb (vs_refs vs' ! q) < length (vs_vars vs')"
      using vs_inv_ref [OF inv, of q] a by (auto simp: refs vars nth_append)
    assume "\<not> ref_done (vs_refs vs' ! q)"
    then show "(refID (vs_refs vs' ! q), q) \<in>
        set (references (vs_vars vs' ! ref_vb (vs_refs vs' ! q)))"
      using q new vs_inv_live [OF inv, of q] vs_inv_ref [OF inv, of q]
      by (cases "q < length (vs_refs vs)")
         (auto simp: refs r live_ref_def nth_append less_Suc_eq intro!: keep)
  qed
  show "live_ref vs' r" and "ref_vb (vs_refs vs' ! r) = a"
    by (auto simp: live_ref_def refs r)
qed

lemma AddReference_live:
  assumes "AddReference a vs = (vs', r)"
  shows "live_ref vs q \<Longrightarrow> live_ref vs' q"
  using AddReference_refs(2) [OF assms] by (auto simp: live_ref_def nth_append)

lemma Unsubscribe_simps [simp]:
  "variables (Unsubscribe r vs) = variables vs" "nextID (Unsubscribe r vs) = nextID vs"
  "length (vs_vars (Unsubscribe r vs)) = length (vs_vars vs)"
  "length (vs_refs (Unsubscribe r vs)) = length (vs_refs vs)"
  by (auto simp: Unsubscribe_def)

lemma Unsubscribe_frame [simp]: "vs_frame vs (Unsubscribe r vs)"
  by (auto simp: Unsubscribe_def vs_frame_def nth_upd_at_field)

lemma Unsubscribe_dead: "\<not> live_ref (Unsubscribe r vs) r"
  by (auto simp: Unsubscribe_def live_ref_def)

lemma Unsubscribe_live: "q \<noteq> r \<Longrightarrow> live_ref (Unsubscribe r vs) q = live_ref vs q"
  by (simp add: live_ref_def Unsubscribe_def)

lemma Unsubscribe_idem:
  "r < length (vs_refs vs) \<Longrightarrow> Unsubscribe r (Unsubscribe r vs) = Unsubscribe r vs"
  by (auto simp: Unsubscribe_def)

lemma Unsubscribe_inv:
  assumes inv: "vs_inv n vs" and r: "r < length (vs_refs vs)"
  shows "vs_inv n (Unsubscribe r vs)"
proof (cases "ref_done (vs_refs vs ! r)")
  case True
  then show ?thesis using inv by (simp add: Unsubscribe_def)
next
  case False
  let ?vs' = "Unsubscribe r vs"
  let ?b = "ref_vb (vs_refs vs ! r)" and ?k = "refID (vs_refs vs ! r)"
  have b: "?b < length (vs_vars vs)" using inv r by (rule vs_inv_ref)
  have refs: "vs_refs ?vs' = upd_at r (\<lambda>x. x\<lparr>ref_done := True\<rparr>) (vs_refs vs)"
    and vars: "vs_vars ?vs' = upd_at ?b (\<lambda>v. v\<lparr>references := AList.delete ?k (references v)\<rparr>)
       (vs_vars vs)"
    using False by (simp_all add: Unsubscribe_def)
  have self: "vs_refs vs ! r = \<lparr>refID = ?k, ref_vb = ?b, ref_done = False\<rparr>"
    using False by simp
  have tab: "(k, q) \<in> set (references (vs_vars ?vs' ! c)) \<longleftrightarrow>
       (k, q) \<in> set (references (vs_vars vs ! c)) \<and> q \<noteq> r"
    if c: "c < length (vs_vars vs)" for c k q
  proof -
    have ok: "var_ok (vs_refs vs) n c (vs_vars vs ! c)" using inv c by (rule vs_inv_var)
    have *: "q = r \<longleftrightarrow> k = ?k" if "(k, q) \<in> set (references (vs_vars vs ! c))" and "c = ?b"
    proof
      assume "q = r"
      then show "k = ?k" using var_okD [OF ok that(1)] self by simp
    next
      assume "k = ?k"
      moreover have "(?k, r) \<in> set (references (vs_vars vs ! ?b))"
        using vs_inv_live [OF inv] False r by (simp add: live_ref_def)
      ultimately show "q = r"
        using ok that by (auto simp: var_ok_def dest: alist_key_unique)
    qed
    have **: "q \<noteq> r" if "(k, q) \<in> set (references (vs_vars vs ! c))" and "c \<noteq> ?b"
      using ok that self by (auto simp: var_ok_def)
    show ?thesis
      using * ** b by (cases "c = ?b") (auto simp: vars set_alist_delete)
  qed
  have keys: "distinct (map fst (references (vs_vars ?vs' ! c))) \<and>
      referenceCtr (vs_vars ?vs' ! c) = referenceCtr (vs_vars vs ! c)"
    if c: "c < length (vs_vars vs)" for c
    using vs_inv_var [OF inv c] c
    by (cases "c = ?b") (auto simp: vars var_ok_def distinct_delete)
  have old: "vs_refs ?vs' ! q = vs_refs vs ! q" if "q \<noteq> r" for q
    using that by (simp add: refs)
  show ?thesis
    unfolding vs_inv_def
  proof (intro conjI allI impI)
    show "n < 2 ^ 32" using inv by (simp add: vs_inv_def)
  next
    fix i c assume "variables ?vs' i = Some c"
    then show "c < length (vs_vars ?vs')"
      and "av_id (var_ast (vs_vars ?vs' ! c)) = i"
      using vs_inv_variable [OF inv, of i c] by (auto simp: vars nth_upd_at_field)
  next
    fix c assume "c < length (vs_vars ?vs')"
    then have c: "c < length (vs_vars vs)" by simp
    show "var_ok (vs_refs ?vs') n c (vs_vars ?vs' ! c)"
      using vs_inv_var [OF inv c] keys [OF c] tab [OF c]
      unfolding var_ok_def by (auto simp: old)
  next
    fix q assume q: "q < length (vs_refs ?vs')"
    have vb: "ref_vb (vs_refs ?vs' ! q) = ref_vb (vs_refs vs ! q)"
      by (auto simp: refs nth_upd_at_field)
    then show "ref_vb (vs_refs ?vs' ! q) < length (vs_vars ?vs')"
      using vs_inv_ref [OF inv, of q] q by simp
    assume nd: "\<not> ref_done (vs_refs ?vs' ! q)"
    then have "q \<noteq> r" using q by (auto simp: refs)
    then show "(refID (vs_refs ?vs' ! q), q) \<in>
        set (references (vs_vars ?vs' ! ref_vb (vs_refs ?vs' ! q)))"
      using q nd vs_inv_live [OF inv, of q] vs_inv_ref [OF inv, of q]
      by (auto simp: old tab live_ref_def)
  qed
qed


subsection \<open>Put, Get, GetOrPutWithValue\<close>

lemma insert_inv:
  assumes inv: "vs_inv n vs" and i: "av_id varb = i"
  shows "vs_inv n (VariableStore_insert varb i vs)"
proof -
  have "var_ok (vs_refs vs) n a (NewVariable varb)" for a
    using inv by (simp add: var_ok_def NewVariable_def vs_inv_def)
  then show ?thesis
    using inv i unfolding vs_inv_def VariableStore_insert_def
    by (auto simp: nth_append NewVariable_def less_Suc_eq)
qed

lemma insert_frame: "vs_frame vs (VariableStore_insert varb i vs)"
  by (simp add: vs_frame_def VariableStore_insert_def nth_append)

lemma insert_live [simp]: "live_ref (VariableStore_insert varb i vs) r = live_ref vs r"
  by (simp add: live_ref_def VariableStore_insert_def)

lemma vs_inv_nextID [simp]: "vs_inv n (vs\<lparr>nextID := k\<rparr>) = vs_inv n vs"
  by (simp add: vs_inv_def)

lemma vs_frame_nextID [simp]:
  "vs_frame vs (vs'\<lparr>nextID := k\<rparr>) = vs_frame vs vs'" "vs_frame (vs\<lparr>nextID := k\<rparr>) vs' = vs_frame vs vs'"
  by (simp_all add: vs_frame_def)

lemma live_ref_nextID [simp]: "live_ref (vs\<lparr>nextID := k\<rparr>) r = live_ref vs r"
  by (simp add: live_ref_def)

lemma Put_cases:
  obtains (old) "variables vs (av_id v) \<noteq> None"
      "\<exists>k. VariableStore_Put v vs = (vs\<lparr>nextID := k\<rparr>, None)"
    | (new) "variables vs (av_id v) = None"
      "\<exists>k. VariableStore_Put v vs = (VariableStore_insert v (av_id v) vs\<lparr>nextID := k\<rparr>, Some v)"
proof (cases "variables vs (av_id v)")
  case None
  have "\<exists>k. VariableStore_Put v vs = (VariableStore_insert v (av_id v) vs\<lparr>nextID := k\<rparr>, Some v)"
    by (cases "nextID vs < av_id v")
       (auto simp: VariableStore_Put_def None VariableStore_insert_def
         intro: exI [of _ "nextID vs"])
  with None show ?thesis by (rule new)
next
  case (Some a)
  have "\<exists>k. VariableStore_Put v vs = (vs\<lparr>nextID := k\<rparr>, None)"
    by (cases "nextID vs < av_id v")
       (auto simp: VariableStore_Put_def Some intro: exI [of _ "nextID vs"])
  with Some show ?thesis by (intro old) auto
qed

lemma Put_inv: "vs_inv n vs \<Longrightarrow> vs_inv n (fst (VariableStore_Put v vs))"
  by (cases rule: Put_cases [of vs v]) (auto dest: insert_inv [OF _ refl])

lemma Put_frame: "vs_frame vs (fst (VariableStore_Put v vs))"
  by (cases rule: Put_cases [of vs v]) (auto simp: insert_frame)

lemma Put_live [simp]: "live_ref (fst (VariableStore_Put v vs)) r = live_ref vs r"
  by (cases rule: Put_cases [of vs v]) auto

lemma Put_variables:
  "variables (fst (VariableStore_Put v vs)) =
     (if variables vs (av_id v) = None then (variables vs)(av_id v \<mapsto> length (vs_vars vs))
      else variables vs)"
  by (cases rule: Put_cases [of vs v]) (auto simp: VariableStore_insert_def)

lemma Get_None: "VariableStore_Get i vs = (vs', None) \<longleftrightarrow> variables vs i = None \<and> vs' = vs"
  by (auto simp: VariableStore_Get_def split: option.splits prod.splits)

lemma Get_Some:
  assumes inv: "vs_inv (Suc n) vs" and get: "VariableStore_Get i vs = (vs', Some r)"
  shows "vs_inv n vs'" and "live_ref vs' r" and "\<not> live_ref vs r" and "stored_ref vs' r"
    and "GetVarID vs' r = i" and "vs_frame vs vs'" and "variables vs' = variables vs"
    and "live_ref vs q \<Longrightarrow> live_ref vs' q"
proof -
  from get obtain a where a: "variables vs i = Some a" and add: "AddReference a vs = (vs', r)"
    by (auto simp: VariableStore_Get_def split: option.splits prod.splits)
  have al: "a < length (vs_vars vs)" and id: "av_id (var_ast (vs_vars vs ! a)) = i"
    using vs_inv_variable [OF inv a] by auto
  note refs = AddReference_refs [OF add] and ainv = AddReference_inv [OF inv al add]
  show "vs_inv n vs'" "live_ref vs' r" "vs_frame vs vs'" "variables vs' = variables vs"
    using ainv refs by auto
  show "\<not> live_ref vs r" using refs(1) by (simp add: live_ref_def)
  have "var_ast (vs_vars vs' ! a) = var_ast (vs_vars vs ! a)"
    using refs(6) al by (simp add: vs_frame_def)
  then show id': "GetVarID vs' r = i" using ainv(3) id by (simp add: GetVarID_def)
  show "stored_ref vs' r"
    unfolding stored_ref_def using ainv(2,3) a id' refs(3) by (simp add: live_ref_def)
  show "live_ref vs q \<Longrightarrow> live_ref vs' q" using AddReference_live [OF add] .
qed

lemma find_equiv_Some:
  "find_equiv order same val vs = Some a \<Longrightarrow>
     \<exists>i \<in> set order. variables vs i = Some a \<and>
       IsPrimEquiv (same i) val (av_value (var_ast (vs_vars vs ! a)))"
  by (induction order) (auto split: option.splits if_splits)

lemma find_equiv_None:
  "find_equiv order same val vs = None \<Longrightarrow> i \<in> set order \<Longrightarrow> variables vs i = Some a \<Longrightarrow>
     \<not> IsPrimEquiv (same i) val (av_value (var_ast (vs_vars vs ! a)))"
  by (induction order) (auto split: option.splits if_splits)

lemma GetOrPut_cases:
  obtains (found) i a where "i \<in> set order" "variables vs i = Some a"
      "IsPrimEquiv (same i) val (av_value (var_ast (vs_vars vs ! a)))"
      "VariableStore_GetOrPutWithValue order same val vs =
         (case AddReference a vs of (vs', r) \<Rightarrow> (vs', r, None))"
    | (fresh) varb where "find_equiv order same val vs = None"
      "varb = \<lparr>av_id = nextID vs, av_value = val, av_unknown = []\<rparr>"
      "VariableStore_GetOrPutWithValue order same val vs =
         (case AddReference (length (vs_vars vs))
             (VariableStore_insert varb (nextID vs) (vs\<lparr>nextID := nextID vs + 1\<rparr>)) of
           (vs', r) \<Rightarrow> (vs', r, Some varb))"
proof (cases "find_equiv order same val vs")
  case None
  then show ?thesis by (intro fresh) (auto simp: VariableStore_GetOrPutWithValue_def Let_def)
next
  case (Some a)
  then show ?thesis
    using find_equiv_Some [OF Some] found by (auto simp: VariableStore_GetOrPutWithValue_def)
qed

text \<open>
  What a call of \<open>GetOrPutWithValue\<close> promises: a live, listed handle whose value is the
  requested one or equivalent to it, and the handles of before untouched. When it adds a
  variable, that variable takes \<open>nextID\<close>.
\<close>

definition got_or_put ::
  "nat \<Rightarrow> (u32 \<Rightarrow> bool) \<Rightarrow> RGQLPrimitive option \<Rightarrow> VariableStore \<Rightarrow>
     VariableStore \<Rightarrow> addr \<Rightarrow> ASTVariable option \<Rightarrow> bool" where
  "got_or_put n same val vs vs' r added \<longleftrightarrow>
     vs_inv n vs' \<and> live_ref vs' r \<and> stored_ref vs' r \<and> vs_frame vs vs' \<and>
     (\<forall>q. live_ref vs q \<longrightarrow> live_ref vs' q) \<and>
     (case added of
        None \<Rightarrow> variables vs' = variables vs \<and> nextID vs' = nextID vs \<and>
          (\<exists>i. IsPrimEquiv (same i) val (GetValue vs' r))
      | Some v \<Rightarrow> v = \<lparr>av_id = nextID vs, av_value = val, av_unknown = []\<rparr> \<and>
          variables vs' = (variables vs)(nextID vs \<mapsto> length (vs_vars vs)) \<and>
          nextID vs' = nextID vs + 1 \<and> GetVarID vs' r = nextID vs \<and> GetValue vs' r = val)"

lemma GetOrPut_result:
  assumes inv: "vs_inv (Suc n) vs"
    and call: "VariableStore_GetOrPutWithValue order same val vs = (vs', r, added)"
  shows "got_or_put n same val vs vs' r added"
proof (cases rule: GetOrPut_cases [of order vs same val])
  case (found i a)
  then have add: "AddReference a vs = (vs', r)" and ad: "added = None"
    using call by (auto split: prod.splits)
  have al: "a < length (vs_vars vs)" and id: "av_id (var_ast (vs_vars vs ! a)) = i"
    using vs_inv_variable [OF inv found(2)] by auto
  note refs = AddReference_refs [OF add] and ainv = AddReference_inv [OF inv al add]
  have ast: "var_ast (vs_vars vs' ! a) = var_ast (vs_vars vs ! a)"
    using refs(6) al by (simp add: vs_frame_def)
  then have "GetVarID vs' r = i" and "IsPrimEquiv (same i) val (GetValue vs' r)"
    using ainv(3) id found(3) by (simp_all add: GetVarID_def GetValue_def)
  then show ?thesis
    using ainv refs(3,4,6) AddReference_live [OF add] found(2) ad
    by (auto simp: got_or_put_def stored_ref_def live_ref_def)
next
  case (fresh varb)
  let ?vs1 = "VariableStore_insert varb (nextID vs) (vs\<lparr>nextID := nextID vs + 1\<rparr>)"
  let ?a = "length (vs_vars vs)"
  have add: "AddReference ?a ?vs1 = (vs', r)" and ad: "added = Some varb"
    using call fresh by (auto split: prod.splits)
  have inv1: "vs_inv (Suc n) ?vs1"
    using inv fresh(2) by (intro insert_inv) auto
  have al: "?a < length (vs_vars ?vs1)" by (simp add: VariableStore_insert_def)
  note refs = AddReference_refs [OF add] and ainv = AddReference_inv [OF inv1 al add]
  have fr: "vs_frame vs ?vs1" using insert_frame [of "vs\<lparr>nextID := nextID vs + 1\<rparr>"] by simp
  have "var_ast (vs_vars vs' ! ?a) = varb"
    using refs(6) al
    by (simp add: vs_frame_def VariableStore_insert_def NewVariable_def)
  then have "GetVarID vs' r = nextID vs" and "GetValue vs' r = val"
    using ainv(3) fresh(2) by (simp_all add: GetVarID_def GetValue_def)
  then show ?thesis
    using ainv refs(3,4) vs_frame_trans [OF fr refs(6)] AddReference_live [OF add] fresh(2) ad
    by (auto simp: got_or_put_def stored_ref_def live_ref_def VariableStore_insert_def)
qed

subsection \<open>Garbage collection\<close>

lemma GarbageCollect_fields:
  "VariableStore_GarbageCollect order vs = (vs', removed) \<Longrightarrow>
     vs_vars vs' = vs_vars vs \<and> vs_refs vs' = vs_refs vs \<and> nextID vs' = nextID vs"
  by (induction order arbitrary: vs vs' removed) (auto split: option.splits if_splits prod.splits)

lemma GarbageCollect_variables:
  "VariableStore_GarbageCollect order vs = (vs', removed) \<Longrightarrow>
     variables vs' i = (if i \<in> set order \<and> (\<exists>a. variables vs i = Some a \<and>
       \<not> HasReferences (vs_vars vs ! a)) then None else variables vs i)"
proof (induction order arbitrary: vs vs' removed)
  case (Cons j js)
  then show ?case
    by (cases "variables vs j"; cases "HasReferences (vs_vars vs ! the (variables vs j))")
       (fastforce split: prod.splits if_splits)+
qed simp

lemma GarbageCollect_eq:
  assumes "set order = dom (variables vs)"
  shows "fst (VariableStore_GarbageCollect order vs) = vs\<lparr>variables :=
     (\<lambda>i. case variables vs i of None \<Rightarrow> None
        | Some a \<Rightarrow> if HasReferences (vs_vars vs ! a) then Some a else None)\<rparr>"
proof -
  obtain vs' removed where gc: "VariableStore_GarbageCollect order vs = (vs', removed)"
    by fastforce
  have "variables vs' = (\<lambda>i. case variables vs i of None \<Rightarrow> None
        | Some a \<Rightarrow> if HasReferences (vs_vars vs ! a) then Some a else None)"
    using GarbageCollect_variables [OF gc] assms by (auto simp: fun_eq_iff split: option.splits)
  then show ?thesis using GarbageCollect_fields [OF gc] gc by simp
qed

lemma GarbageCollect_inv:
  assumes "vs_inv n vs"
  shows "vs_inv n (fst (VariableStore_GarbageCollect order vs))"
proof -
  obtain vs' removed where gc: "VariableStore_GarbageCollect order vs = (vs', removed)"
    by fastforce
  have "variables vs' i = Some a \<Longrightarrow> variables vs i = Some a" for i a
    using GarbageCollect_variables [OF gc, of i] by (auto split: if_splits)
  then show ?thesis
    using assms GarbageCollect_fields [OF gc] unfolding gc vs_inv_def by auto
qed

lemma GarbageCollect_live [simp]:
  "live_ref (fst (VariableStore_GarbageCollect order vs)) r = live_ref vs r"
  by (cases "VariableStore_GarbageCollect order vs")
     (auto simp: live_ref_def dest: GarbageCollect_fields)


subsection \<open>The handle interface\<close>

text \<open>
  What the query trees rely on: a store of shared values behind reference handles. \<open>inv n\<close>
  is the provider's invariant with room for \<open>n\<close> further handles; \<open>contents\<close> is what a client
  can read through a handle, \<open>key\<close> the part of it that names the value.
\<close>

definition ref_contents :: "VariableStore \<Rightarrow> addr \<Rightarrow> u32 \<times> RGQLPrimitive option" where
  "ref_contents vs r = (GetVarID vs r, GetValue vs r)"

locale handle_store =
  fixes inv :: "nat \<Rightarrow> 's \<Rightarrow> bool"
    and live :: "'s \<Rightarrow> 'r \<Rightarrow> bool"
    and contents :: "'s \<Rightarrow> 'r \<Rightarrow> 'v"
    and key :: "'v \<Rightarrow> 'k"
    and get :: "'k \<Rightarrow> 's \<Rightarrow> 's \<times> 'r option"
    and release :: "'r \<Rightarrow> 's \<Rightarrow> 's"
  assumes inv_mono: "inv n s \<Longrightarrow> m \<le> n \<Longrightarrow> inv m s"
    and get_miss: "get k s = (s', None) \<Longrightarrow> s' = s"
    and get_inv: "inv (Suc n) s \<Longrightarrow> get k s = (s', Some r) \<Longrightarrow> inv n s'"
    and get_fresh: "inv (Suc n) s \<Longrightarrow> get k s = (s', Some r) \<Longrightarrow> live s' r \<and> \<not> live s r"
    and get_key: "inv (Suc n) s \<Longrightarrow> get k s = (s', Some r) \<Longrightarrow> key (contents s' r) = k"
    and get_keeps: "inv (Suc n) s \<Longrightarrow> get k s = (s', Some r) \<Longrightarrow> live s q \<Longrightarrow>
        live s' q \<and> contents s' q = contents s q"
    and release_inv: "inv n s \<Longrightarrow> live s r \<Longrightarrow> inv n (release r s)"
    and release_dead: "\<not> live (release r s) r"
    and release_keeps: "inv n s \<Longrightarrow> q \<noteq> r \<Longrightarrow> live s q \<Longrightarrow>
        live (release r s) q \<and> contents (release r s) q = contents s q"
    and release_revives: "live (release r s) q \<Longrightarrow> live s q"
begin

text \<open>Releasing a list of distinct live handles ends exactly those.\<close>

lemma release_all:
  assumes "inv n s" and "distinct rs" and "\<forall>r \<in> set rs. live s r"
  shows "inv n (fold release rs s) \<and>
     (\<forall>q. live (fold release rs s) q \<longleftrightarrow> live s q \<and> q \<notin> set rs) \<and>
     (\<forall>q. live s q \<longrightarrow> q \<notin> set rs \<longrightarrow> contents (fold release rs s) q = contents s q)"
  using assms
proof (induction rs arbitrary: s)
  case (Cons r rs)
  let ?s = "release r s"
  have inv: "inv n ?s" using Cons.prems release_inv by simp
  have live: "live ?s q \<longleftrightarrow> live s q \<and> q \<noteq> r" for q
    using release_keeps [OF Cons.prems(1)] release_dead release_revives by blast
  have "contents ?s q = contents s q" if "live s q" and "q \<noteq> r" for q
    using release_keeps [OF Cons.prems(1)] that by blast
  moreover have "\<forall>q \<in> set rs. live ?s q" using Cons.prems live by auto
  ultimately show ?case
    using Cons.IH [OF inv] Cons.prems(2) live by auto
qed simp

end

interpretation var_handles: handle_store vs_inv live_ref ref_contents fst VariableStore_Get Unsubscribe
proof unfold_locales
  fix n m vs assume "vs_inv n vs" and "m \<le> n"
  then show "vs_inv m vs" by (rule vs_inv_mono)
next
  fix k vs vs' assume "VariableStore_Get k vs = (vs', None)"
  then show "vs' = vs" by (simp add: Get_None)
next
  fix n vs k vs' r q
  assume h: "vs_inv (Suc n) vs" "VariableStore_Get k vs = (vs', Some r)"
  note get = Get_Some [OF h]
  show "vs_inv n vs'" by (rule get(1))
  show "live_ref vs' r \<and> \<not> live_ref vs r" using get(2,3) by simp
  show "fst (ref_contents vs' r) = k" using get by (simp add: ref_contents_def)
  assume "live_ref vs q"
  then show "live_ref vs' q \<and> ref_contents vs' q = ref_contents vs q"
    using get(6,8) vs_frame_value [OF h(1) get(6)] by (simp add: live_ref_def ref_contents_def)
next
  fix n vs r assume "vs_inv n vs" and "live_ref vs r"
  then show "vs_inv n (Unsubscribe r vs)" by (simp add: Unsubscribe_inv live_ref_def)
next
  fix r vs show "\<not> live_ref (Unsubscribe r vs) r" by (rule Unsubscribe_dead)
next
  fix n vs q r assume h: "vs_inv n vs" and "q \<noteq> r" and l: "live_ref vs q"
  then have "live_ref (Unsubscribe r vs) q" by (simp add: Unsubscribe_live)
  moreover have "q < length (vs_refs vs)" using l by (simp add: live_ref_def)
  ultimately show "live_ref (Unsubscribe r vs) q \<and>
      ref_contents (Unsubscribe r vs) q = ref_contents vs q"
    using vs_frame_value [OF h Unsubscribe_frame] by (simp add: ref_contents_def)
next
  fix r vs q assume "live_ref (Unsubscribe r vs) q"
  then show "live_ref vs q" using Unsubscribe_live Unsubscribe_dead by metis
qed

subsection \<open>Properties\<close>

lemma live_has_references:
  assumes "vs_inv n vs" and "live_ref vs r"
  shows "HasReferences (vs_vars vs ! ref_vb (vs_refs vs ! r))"
  using vs_inv_live [OF assms] by (auto simp: HasReferences_def)

text \<open>
  C14: a variable that some handle still references survives a garbage collection: whatever
  the order in which \<open>GarbageCollect\<close> visits the map, the handle stays live, the store still
  lists its variable under the same id, and \<open>GetValue\<close> returns the same value.
\<close>

theorem gc_keeps_referenced_variables:
  assumes "vs_inv n vs" and "live_ref vs r" and "stored_ref vs r"
    and "VariableStore_GarbageCollect order vs = (vs', removed)"
  shows "live_ref vs' r \<and> stored_ref vs' r \<and> GetValue vs' r = GetValue vs r \<and>
     GetVarID vs' r = GetVarID vs r"
proof -
  note gc = assms(4)
  note same = GarbageCollect_fields [OF gc]
  have "variables vs' (GetVarID vs r) = variables vs (GetVarID vs r)"
    using GarbageCollect_variables [OF gc, of "GetVarID vs r"] live_has_references [OF assms(1,2)]
      assms(3) by (auto simp: stored_ref_def)
  then show ?thesis
    using assms(2,3) same by (auto simp: live_ref_def stored_ref_def GetValue_def GetVarID_def)
qed

text \<open>
  C22: garbage collection removes exactly the variables without references, so the store it
  leaves does not depend on the unspecified order of the range over the map.
\<close>

theorem gc_is_exact:
  assumes "range_order order vs" and "range_order order' vs"
  shows "fst (VariableStore_GarbageCollect order vs) = fst (VariableStore_GarbageCollect order' vs)
    \<and> (\<forall>i a. variables (fst (VariableStore_GarbageCollect order vs)) i = Some a \<longleftrightarrow>
          variables vs i = Some a \<and> HasReferences (vs_vars vs ! a))"
  using assms by (auto simp: range_order_def GarbageCollect_eq split: option.splits)

text \<open>All ids in use are below \<open>nextID\<close>; no two listed variables have equivalent values.\<close>

definition ids_below :: "VariableStore \<Rightarrow> bool" where
  "ids_below vs \<longleftrightarrow> (\<forall>i \<in> dom (variables vs). i < nextID vs)"

definition value_of_id :: "VariableStore \<Rightarrow> u32 \<Rightarrow> RGQLPrimitive option" where
  "value_of_id vs i = (case variables vs i of None \<Rightarrow> None
     | Some a \<Rightarrow> av_value (var_ast (vs_vars vs ! a)))"

definition deduplicated :: "VariableStore \<Rightarrow> bool" where
  "deduplicated vs \<longleftrightarrow> (\<forall>i \<in> dom (variables vs). \<forall>j \<in> dom (variables vs).
     IsPrimEquiv False (value_of_id vs i) (value_of_id vs j) \<longrightarrow> i = j)"

lemma IsPrimEquiv_same_mono: "IsPrimEquiv False a b \<Longrightarrow> IsPrimEquiv same a b"
  by (simp add: IsPrimEquiv_def split: if_splits)

lemma value_of_id_frame:
  "vs_inv n vs \<Longrightarrow> vs_frame vs vs' \<Longrightarrow> variables vs' i = variables vs i \<Longrightarrow>
     value_of_id vs' i = value_of_id vs i"
  by (auto simp: value_of_id_def vs_frame_def dest: vs_inv_variable split: option.splits)

text \<open>
  C23: as long as every id in use is below \<open>nextID\<close>, \<open>GetOrPutWithValue\<close> de-duplicates: it
  returns a live handle on a value equivalent to the argument, leaves every listed variable
  under its id with its value, keeps the listed values pairwise inequivalent, and keeps the
  ids in use below \<open>nextID\<close> until that counter reaches its top.
\<close>

theorem get_or_put_deduplicates:
  assumes "vs_inv (Suc n) vs" and "range_order order vs" and "ids_below vs" and "deduplicated vs"
    and "nextID vs \<noteq> - 1"
    and "VariableStore_GetOrPutWithValue order same val vs = (vs', r, added)"
  shows "live_ref vs' r \<and> vs_inv n vs' \<and> deduplicated vs' \<and> ids_below vs' \<and>
     (GetValue vs' r = val \<or> (\<exists>i. IsPrimEquiv (same i) val (GetValue vs' r))) \<and>
     (\<forall>i \<in> dom (variables vs). variables vs' i = variables vs i \<and>
        value_of_id vs' i = value_of_id vs i)"
proof (cases added)
  case None
  have got: "got_or_put n same val vs vs' r None"
    using GetOrPut_result [OF assms(1,6)] None by simp
  then have v: "variables vs' = variables vs" by (simp add: got_or_put_def)
  have "value_of_id vs' i = value_of_id vs i" for i
    using got v by (intro value_of_id_frame [OF assms(1)]) (auto simp: got_or_put_def)
  then show ?thesis
    using got v assms(3,4) by (auto simp: got_or_put_def deduplicated_def ids_below_def)
next
  case (Some v)
  have got: "got_or_put n same val vs vs' r (Some v)"
    using GetOrPut_result [OF assms(1,6)] Some by simp
  then have vars: "variables vs' = (variables vs)(nextID vs \<mapsto> length (vs_vars vs))"
    and nid: "nextID vs' = nextID vs + 1" and ref: "GetVarID vs' r = nextID vs" "GetValue vs' r = val"
    and st: "stored_ref vs' r" and fr: "vs_frame vs vs'"
    by (auto simp: got_or_put_def)
  have miss: "find_equiv order same val vs = None"
    using assms(6) Some
    by (auto simp: VariableStore_GetOrPutWithValue_def split: option.splits prod.splits)
  have new: "nextID vs \<notin> dom (variables vs)" using assms(3) by (auto simp: ids_below_def)
  then have keep: "i \<in> dom (variables vs) \<Longrightarrow> variables vs' i = variables vs i" for i
    by (auto simp: vars)
  then have val: "i \<in> dom (variables vs) \<Longrightarrow> value_of_id vs' i = value_of_id vs i" for i
    by (intro value_of_id_frame [OF assms(1) fr]) auto
  have top: "value_of_id vs' (nextID vs) = val"
    using st ref by (simp add: stored_ref_def value_of_id_def GetValue_def)
  have diff: "\<not> IsPrimEquiv False val (value_of_id vs i)" if i: "i \<in> dom (variables vs)" for i
  proof -
    obtain a where "variables vs i = Some a" using i by auto
    then show ?thesis
      using find_equiv_None [OF miss, of i a] assms(2) i IsPrimEquiv_same_mono
      by (auto simp: range_order_def value_of_id_def)
  qed
  have "i \<le> nextID vs" if "i \<in> dom (variables vs')" for i
    using that assms(3) unfolding vars ids_below_def by (auto intro: less_imp_le domI)
  then have "i < nextID vs + 1" if "i \<in> dom (variables vs')" for i
    using that u32_less_inc [OF assms(5)] by blast
  then have "ids_below vs'" by (simp add: ids_below_def nid)
  moreover have "deduplicated vs'"
    using assms(4) top val diff IsPrimEquiv_sym [of False]
    unfolding deduplicated_def vars by (auto simp: dom_fun_upd) blast+
  ultimately show ?thesis using got keep val by (auto simp: got_or_put_def)
qed

text \<open>
  \<open>Put\<close> moves \<open>nextID\<close> only when the id it stores is strictly above it. A variable
  put under the id \<open>nextID\<close> is therefore lost to the next value that \<open>GetOrPutWithValue\<close>
  allocates: the allocation takes the same id, and the store then lists the new value
  under it.
\<close>

theorem put_at_next_id_is_overwritten:
  assumes "vs_inv (Suc n) vs" and "variables vs (nextID vs) = None" and "av_id v = nextID vs"
    and "find_equiv order same val (fst (VariableStore_Put v vs)) = None"
    and "VariableStore_GetOrPutWithValue order same val (fst (VariableStore_Put v vs)) = (vs', r, added)"
  shows "value_of_id (fst (VariableStore_Put v vs)) (av_id v) = av_value v \<and>
     GetVarID vs' r = av_id v \<and> value_of_id vs' (av_id v) = val"
proof -
  let ?vs1 = "fst (VariableStore_Put v vs)"
  have put: "?vs1 = VariableStore_insert v (nextID vs) vs"
    using assms(2,3) by (auto simp: VariableStore_Put_def VariableStore_insert_def)
  have nid: "nextID ?vs1 = nextID vs" by (simp add: put VariableStore_insert_def)
  have inv: "vs_inv (Suc n) ?vs1" using assms(1) by (rule Put_inv)
  obtain w where "added = Some w"
    using assms(4,5)
    by (auto simp: VariableStore_GetOrPutWithValue_def Let_def split: prod.splits)
  then have "got_or_put n same val ?vs1 vs' r (Some w)"
    using GetOrPut_result [OF inv assms(5)] by simp
  then have "GetVarID vs' r = nextID vs" and "GetValue vs' r = val" and "stored_ref vs' r"
    by (auto simp: got_or_put_def nid)
  then show ?thesis
    using assms(3)
    by (simp add: value_of_id_def stored_ref_def GetValue_def put VariableStore_insert_def NewVariable_def)
qed

subsection \<open>Witnesses\<close>

definition sample_var :: "u32 \<Rightarrow> ASTVariable" where
  "sample_var i = \<lparr>av_id = i, av_value = Some (zero_primitive\<lparr>Kind := PRIMITIVE_KIND_INT, IntValue := i\<rparr>),
     av_unknown = []\<rparr>"

text \<open>Variables 3 and 5, of which 3 is referenced.\<close>

definition sample_put :: VariableStore where
  "sample_put = fst (VariableStore_Put (sample_var 5) (fst (VariableStore_Put (sample_var 3) NewVariableStore)))"

definition sample_store :: VariableStore where
  "sample_store = fst (VariableStore_Get 3 sample_put)"

lemma sample_get: "VariableStore_Get 3 sample_put = (sample_store, Some 0)"
  by code_simp

lemma sample_put_inv: "vs_inv (Suc (Suc 0)) sample_put"
  unfolding sample_put_def by (intro Put_inv vs_inv_new) simp

lemma sample_store_inv: "vs_inv (Suc 0) sample_store" "live_ref sample_store 0" "stored_ref sample_store 0"
  using Get_Some [OF sample_put_inv sample_get] by blast+

lemma dom_sample_put: "dom (variables sample_put) = {3, 5}"
proof -
  have "variables sample_put = [3 \<mapsto> 0, 5 \<mapsto> 1]"
    by (simp add: sample_put_def VariableStore_Put_def VariableStore_insert_def
        NewVariableStore_def sample_var_def Let_def)
  then show ?thesis by auto
qed

lemma dom_sample_store: "dom (variables sample_store) = {3, 5}"
  using Get_Some(7) [OF sample_put_inv sample_get] dom_sample_put by simp

lemma gc_keeps_referenced_variables_witness:
  "live_ref (fst (VariableStore_GarbageCollect [5, 3] sample_store)) 0 \<and>
     GetVarID (fst (VariableStore_GarbageCollect [5, 3] sample_store)) 0 = 3"
proof -
  have "GetVarID sample_store 0 = 3" by code_simp
  then show ?thesis
    using gc_keeps_referenced_variables [OF sample_store_inv prod.collapse [symmetric], of "[5, 3]"]
    by simp
qed

lemma gc_is_exact_witness:
  "fst (VariableStore_GarbageCollect [5, 3] sample_store) =
     fst (VariableStore_GarbageCollect [3, 5] sample_store) \<and>
   variables (fst (VariableStore_GarbageCollect [5, 3] sample_store)) 5 = None"
proof -
  have o: "range_order [5, 3] sample_store" "range_order [3, 5] sample_store"
    by (auto simp: range_order_def dom_sample_store)
  have "\<not> HasReferences (vs_vars sample_store ! 1)" and "variables sample_store 5 = Some 1"
    by code_simp+
  then show ?thesis
    using gc_is_exact [OF o] by (cases "variables (fst (VariableStore_GarbageCollect [5, 3] sample_store)) 5")
      auto
qed

lemma get_or_put_deduplicates_witness:
  "\<exists>vs' r. VariableStore_GetOrPutWithValue [3, 5] (\<lambda>_. False) (av_value (sample_var 9)) sample_put =
     (vs', r, Some (sample_var 6\<lparr>av_value := av_value (sample_var 9)\<rparr>)) \<and> deduplicated vs' \<and> ids_below vs'"
proof -
  have nid: "nextID sample_put = 6" by code_simp
  have v: "value_of_id sample_put 3 = av_value (sample_var 3)"
    "value_of_id sample_put 5 = av_value (sample_var 5)" by code_simp+
  have i: "ids_below sample_put"
    by (auto simp: ids_below_def dom_sample_put nid)
  have ne: "\<not> IsPrimEquiv False (av_value (sample_var 3)) (av_value (sample_var 5))"
    "\<not> IsPrimEquiv False (av_value (sample_var 5)) (av_value (sample_var 3))" by code_simp+
  have d: "deduplicated sample_put"
    using ne by (auto simp: deduplicated_def dom_sample_put v)
  have o: "range_order [3, 5] sample_put" by (auto simp: range_order_def dom_sample_put)
  obtain vs' r where g: "VariableStore_GetOrPutWithValue [3, 5] (\<lambda>_. False) (av_value (sample_var 9)) sample_put
      = (vs', r, Some (sample_var 6\<lparr>av_value := av_value (sample_var 9)\<rparr>))"
  proof -
    have "snd (snd (VariableStore_GetOrPutWithValue [3, 5] (\<lambda>_. False) (av_value (sample_var 9)) sample_put))
      = Some (sample_var 6\<lparr>av_value := av_value (sample_var 9)\<rparr>)" by code_simp
    then show ?thesis using that by (metis prod.collapse)
  qed
  show ?thesis
    using get_or_put_deduplicates [OF sample_put_inv o i d _ g] g nid by auto
qed

lemma put_at_next_id_is_overwritten_witness:
  "\<exists>vs' r added. VariableStore_GetOrPutWithValue [1] (\<lambda>_. False) (av_value (sample_var 9))
      (fst (VariableStore_Put (sample_var 1) NewVariableStore)) = (vs', r, added) \<and>
     value_of_id vs' 1 = av_value (sample_var 9)"
proof -
  let ?vs = "fst (VariableStore_Put (sample_var 1) NewVariableStore)"
  have 1: "vs_inv (Suc 0) NewVariableStore" by (rule vs_inv_new) simp
  have 2: "variables NewVariableStore (nextID NewVariableStore) = None"
    "av_id (sample_var 1) = nextID NewVariableStore" by code_simp+
  have 3: "find_equiv [1] (\<lambda>_. False) (av_value (sample_var 9)) ?vs = None" by code_simp
  obtain vs' r added where g: "VariableStore_GetOrPutWithValue [1] (\<lambda>_. False) (av_value (sample_var 9)) ?vs =
      (vs', r, added)" by (metis prod.collapse)
  show ?thesis
    using put_at_next_id_is_overwritten [OF 1 2 3 g] g by (auto simp: sample_var_def)
qed

end
