(* ===== verification/QTree.thy ===== *)
theory QTree
  imports Schema VarStore
begin

text \<open>
  \<open>qtree/qtree.go\<close>, \<open>qtree/qtree_sub.go\<close>: the server's query tree. A node is an object in
  the list \<open>qt_nodes\<close>, the root at address 0; subscriptions and their channels are objects
  of their own. \<open>Root\<close>, \<open>SchemaResolver\<close> and \<open>VariableStore\<close> are the same for every node
  of a tree, so the store is part of the tree and the resolver (with the definitions that it
  leads to) an argument of the operations. Only the root has a \<open>RootNodeMap\<close>; the field of
  any other node is the nil map. What the tree sends to \<open>errCh\<close> is logged in order, a node
  id with its error; a full channel would block the sender.

  An operation returns \<open>None\<close> where the code panics: on a nil pointer in a mutation or a
  field without a name. The fuel of \<open>Dispose\<close> bounds the depth of the tree.
\<close>

subsection \<open>State\<close>

datatype qt_error =
    InvalidNodeID u32
  | NotSelectable u32
  | InvalidField string string
  | UnresolvedNamed string
  | UnresolvedType ast_type
  | VariableNotFound u32 string

datatype QTNodeOperation =
  Operation_AddChild | Operation_DelChild | Operation_Delete | Operation_Error

record QTNodeUpdate =
  upd_Operation :: QTNodeOperation
  upd_Child :: "addr option"

record qtNodeSubscription =
  sub_id :: u32
  sub_node :: addr
  sub_chChans :: "addr list"

record QueryTreeNode =
  tn_Id :: u32
  tn_Parent :: "addr option"
  tn_Children :: "addr list"
  tn_FieldName :: string
  tn_AST :: "addr option"
  tn_IsPrimitive :: bool
  tn_PrimitiveName :: string
  tn_Arguments :: "(string \<times> addr) list"
  tn_subCtr :: u32
  tn_subscribers :: "(u32 \<times> addr) list"
  tn_err :: "qt_error option"
  tn_disposed :: bool

record QTree =
  qt_nodes :: "QueryTreeNode list"
  qt_RootNodeMap :: "u32 \<rightharpoonup> addr"
  qt_VariableStore :: VariableStore
  qt_subs :: "qtNodeSubscription list"
  qt_chans :: "QTNodeUpdate list list"
  qt_errCh :: "(u32 \<times> qt_error) list"

definition new_node :: "u32 \<Rightarrow> addr option \<Rightarrow> string \<Rightarrow> addr option \<Rightarrow> QueryTreeNode" where
  "new_node i parent fname ast =
     \<lparr>tn_Id = i, tn_Parent = parent, tn_Children = [], tn_FieldName = fname, tn_AST = ast,
      tn_IsPrimitive = False, tn_PrimitiveName = '''', tn_Arguments = [], tn_subCtr = 0,
      tn_subscribers = [], tn_err = None, tn_disposed = False\<rparr>"

definition NewQueryTree :: "addr \<Rightarrow> QTree" where
  "NewQueryTree rootQuery =
     \<lparr>qt_nodes = [new_node 0 None '''' (Some rootQuery)], qt_RootNodeMap = [0 \<mapsto> 0],
      qt_VariableStore = NewVariableStore, qt_subs = [], qt_chans = [], qt_errCh = []\<rparr>"

datatype build_error = SchemaNotParsed | RootQueryNotFound

definition BuildQueryTree :: "Schema option \<Rightarrow> build_error + QTree" where
  "BuildQueryTree s =
     (case s of
        None \<Rightarrow> Inl SchemaNotParsed
      | Some s \<Rightarrow> (case ap_RootQuery (Definitions s) of
                     None \<Rightarrow> Inl RootQueryNotFound
                   | Some r \<Rightarrow> Inr (NewQueryTree r)))"

definition upd_node :: "addr \<Rightarrow> (QueryTreeNode \<Rightarrow> QueryTreeNode) \<Rightarrow> QTree \<Rightarrow> QTree" where
  "upd_node a f t = t\<lparr>qt_nodes := upd_at a f (qt_nodes t)\<rparr>"

abbreviation node :: "QTree \<Rightarrow> addr \<Rightarrow> QueryTreeNode" where
  "node t a \<equiv> qt_nodes t ! a"

subsection \<open>Subscriptions\<close>

definition send :: "QTNodeUpdate \<Rightarrow> addr \<Rightarrow> QTNodeUpdate list list \<Rightarrow> QTNodeUpdate list list" where
  "send upd ch chans =
     (if length (chans ! ch) < 50 then upd_at ch (\<lambda>buf. buf @ [upd]) chans else chans)"

definition nextChange :: "QTNodeUpdate \<Rightarrow> addr \<Rightarrow> QTree \<Rightarrow> QTree" where
  "nextChange upd s t =
     t\<lparr>qt_chans := fold (send upd) (sub_chChans (qt_subs t ! s)) (qt_chans t)\<rparr>"

definition nextUpdate :: "addr \<Rightarrow> QTNodeUpdate \<Rightarrow> QTree \<Rightarrow> QTree" where
  "nextUpdate a upd t = fold (nextChange upd) (map snd (tn_subscribers (node t a))) t"

definition SubscribeChanges :: "addr \<Rightarrow> QTree \<Rightarrow> QTree \<times> addr" where
  "SubscribeChanges a t =
     (let s = length (qt_subs t); i = tn_subCtr (node t a)
      in (upd_node a (\<lambda>n. n\<lparr>tn_subCtr := i + 1,
             tn_subscribers := AList.update i s (tn_subscribers n)\<rparr>)
            (t\<lparr>qt_subs := qt_subs t @ [\<lparr>sub_id = i, sub_node = a, sub_chChans = []\<rparr>]\<rparr>), s))"

definition Changes :: "addr \<Rightarrow> QTree \<Rightarrow> QTree \<times> addr" where
  "Changes s t =
     (let ch = length (qt_chans t)
      in (t\<lparr>qt_chans := qt_chans t @ [[]],
           qt_subs := upd_at s (\<lambda>x. x\<lparr>sub_chChans := sub_chChans x @ [ch]\<rparr>) (qt_subs t)\<rparr>, ch))"

definition removeSubscription :: "addr \<Rightarrow> u32 \<Rightarrow> QTree \<Rightarrow> QTree" where
  "removeSubscription a i t =
     upd_node a (\<lambda>n. n\<lparr>tn_subscribers := AList.delete i (tn_subscribers n)\<rparr>) t"

definition sub_Unsubscribe :: "addr \<Rightarrow> QTree \<Rightarrow> QTree" where
  "sub_Unsubscribe s t = removeSubscription (sub_node (qt_subs t ! s)) (sub_id (qt_subs t ! s)) t"

text \<open>A receive by the holder of the channel, when the buffer is not empty.\<close>

definition receive :: "addr \<Rightarrow> QTree \<Rightarrow> QTree \<times> QTNodeUpdate option" where
  "receive ch t =
     (case qt_chans t ! ch of
        [] \<Rightarrow> (t, None)
      | u # us \<Rightarrow> (t\<lparr>qt_chans := (qt_chans t)[ch := us]\<rparr>, Some u))"

subsection \<open>Errors\<close>

definition SetError :: "addr \<Rightarrow> qt_error \<Rightarrow> QTree \<Rightarrow> QTree" where
  "SetError a e t =
     (if tn_err (node t a) = Some e then t
      else nextUpdate a \<lparr>upd_Operation = Operation_Error, upd_Child = None\<rparr>
        ((upd_node a (\<lambda>n. n\<lparr>tn_err := Some e\<rparr>) t)
           \<lparr>qt_errCh := qt_errCh t @ [(tn_Id (node t a), e)]\<rparr>))"

subsection \<open>Adding nodes\<close>

definition typeNameDef :: field_definition where
  "typeNameDef = FieldDefinition (Some ''__typename'') [] (Named (Some ''String''))"

definition strip_List :: "ast_type \<Rightarrow> ast_type" where
  "strip_List t = (case t of List u \<Rightarrow> u | _ \<Rightarrow> t)"

definition strip_NonNull :: "ast_type \<Rightarrow> ast_type" where
  "strip_NonNull t = (case t of NonNull u \<Rightarrow> u | _ \<Rightarrow> t)"

text \<open>
  What a selected field's type means for the node: the type definition, whether it is a
  primitive, the primitive's name.
\<close>

definition resolve_type ::
  "(ast_type \<Rightarrow> addr option) \<Rightarrow> ast_type \<Rightarrow> (qt_error + (addr option \<times> bool \<times> string)) option" where
  "resolve_type lookup t =
     (let t = strip_NonNull (strip_List t)
      in (case t of
            Named None \<Rightarrow> None
          | Named (Some n) \<Rightarrow>
              if IsPrimitive n then Some (Inr (None, True, n))
              else (case lookup t of
                      None \<Rightarrow> Some (Inl (UnresolvedNamed n))
                    | Some d \<Rightarrow> Some (Inr (Some d, False, '''')))
          | _ \<Rightarrow> (case lookup t of
                    None \<Rightarrow> Some (Inl (UnresolvedType t))
                  | Some d \<Rightarrow> Some (Inr (Some d, False, '''')))))"

definition resolve_selection ::
  "definitions \<Rightarrow> (ast_type \<Rightarrow> addr option) \<Rightarrow> addr option \<Rightarrow> u32 \<Rightarrow> string \<Rightarrow>
     (qt_error + (addr option \<times> bool \<times> string)) option" where
  "resolve_selection defs lookup ast i fname =
     (case ast of
        None \<Rightarrow> Some (Inl (NotSelectable i))
      | Some od \<Rightarrow>
          if \<not> is_object (defs ! od) then Some (Inl (NotSelectable i))
          else
            (case (if fname = ''__typename'' then Some (Some typeNameDef)
                   else find_field fname (od_fields (defs ! od))) of
               None \<Rightarrow> None
             | Some None \<Rightarrow>
                 (case od_name (defs ! od) of
                    None \<Rightarrow> None
                  | Some n \<Rightarrow> Some (Inl (InvalidField fname n)))
             | Some (Some f) \<Rightarrow> resolve_type lookup (fd_type f)))"

text \<open>
  The loop over \<open>data.Args\<close>. It needs two operations of the variable store, the ones that
  the interface \<open>handle_store\<close> describes: \<open>get\<close> takes a handle, \<open>release\<close> gives it back.
\<close>

fun bind_args ::
  "('k \<Rightarrow> 's \<Rightarrow> 's \<times> 'r option) \<Rightarrow> ('r \<Rightarrow> 's \<Rightarrow> 's) \<Rightarrow> (string \<times> 'k) list \<Rightarrow>
     (string \<times> 'r) list \<Rightarrow> 's \<Rightarrow> 's \<times> ((string \<times> 'k) + (string \<times> 'r) list)" where
  "bind_args get release [] argMap s = (s, Inr argMap)"
| "bind_args get release ((name, k) # args) argMap s =
     (case get k s of
        (s', None) \<Rightarrow> (fold release (map snd argMap) s', Inl (name, k))
      | (s', Some r) \<Rightarrow> bind_args get release args (AList.update name r argMap) s')"

abbreviation bind_variables where
  "bind_variables \<equiv> bind_args VariableStore_Get Unsubscribe"

definition arg_list :: "FieldArgument list \<Rightarrow> (string \<times> u32) list" where
  "arg_list args = map (\<lambda>a. (fa_name a, fa_variable_id a)) args"

text \<open>The new node, in \<open>RootNodeMap\<close> and at the end of \<open>Children\<close>.\<close>

definition mint_node :: "addr \<Rightarrow> u32 \<Rightarrow> string \<Rightarrow> QTree \<Rightarrow> QTree" where
  "mint_node qt i fname t =
     t\<lparr>qt_nodes := upd_at qt (\<lambda>n. n\<lparr>tn_Children := tn_Children n @ [length (qt_nodes t)]\<rparr>)
          (qt_nodes t) @ [new_node i (Some qt) fname None],
       qt_RootNodeMap := (qt_RootNodeMap t)(i \<mapsto> length (qt_nodes t))\<rparr>"

fun AddChild ::
  "definitions \<Rightarrow> (ast_type \<Rightarrow> addr option) \<Rightarrow> addr \<Rightarrow> RGQLQueryTreeNode \<Rightarrow> QTree \<Rightarrow>
     (QTree \<times> qt_error option) option"
and AddChildren ::
  "definitions \<Rightarrow> (ast_type \<Rightarrow> addr option) \<Rightarrow> addr \<Rightarrow> RGQLQueryTreeNode list \<Rightarrow> QTree \<Rightarrow>
     QTree option" where
  "AddChild defs lookup qt (RGQLQueryTreeNode i fname args dirs children u) t =
     (if qt = 0 \<and> qt_RootNodeMap t i \<noteq> None then Some (t, Some (InvalidNodeID i))
      else
        let nnod = length (qt_nodes t);
            t1 = mint_node qt i fname t
        in (case resolve_selection defs lookup (tn_AST (node t qt)) i fname of
              None \<Rightarrow> None
            | Some (Inl e) \<Rightarrow> Some (SetError nnod e t1, Some e)
            | Some (Inr (ast, isPrim, prim)) \<Rightarrow>
                (case bind_variables (arg_list args) [] (qt_VariableStore t1) of
                   (vs, Inl (name, k)) \<Rightarrow>
                     let e = VariableNotFound k name
                     in Some (SetError nnod e (t1\<lparr>qt_VariableStore := vs\<rparr>), Some e)
                 | (vs, Inr argMap) \<Rightarrow>
                     let t2 = upd_node nnod (\<lambda>n. n\<lparr>tn_AST := ast, tn_IsPrimitive := isPrim,
                                tn_PrimitiveName := prim, tn_Arguments := argMap\<rparr>)
                              (t1\<lparr>qt_VariableStore := vs\<rparr>)
                     in (case AddChildren defs lookup nnod children t2 of
                           None \<Rightarrow> None
                         | Some t3 \<Rightarrow>
                             Some (nextUpdate qt \<lparr>upd_Operation = Operation_AddChild,
                                     upd_Child = Some nnod\<rparr> t3, None)))))"
| "AddChildren defs lookup qt [] t = Some t"
| "AddChildren defs lookup qt (d # ds) t =
     (case AddChild defs lookup qt d t of
        None \<Rightarrow> None
      | Some (t', e) \<Rightarrow> AddChildren defs lookup qt ds t')"

subsection \<open>Removing nodes\<close>

definition removeChild :: "addr \<Rightarrow> addr \<Rightarrow> QTree \<Rightarrow> QTree" where
  "removeChild qt nod t =
     (if nod \<in> set (tn_Children (node t qt)) then
        nextUpdate qt \<lparr>upd_Operation = Operation_DelChild, upd_Child = Some nod\<rparr>
          (upd_node qt (\<lambda>n. n\<lparr>tn_Children := remove1 nod (tn_Children n)\<rparr>) t)
      else t)"

text \<open>
  The range over \<open>qt.Children\<close> in \<open>Dispose\<close>: its length is fixed at the start, but each
  element is read from the array when its turn comes, and a child that disposes of itself
  shifts the array under the range. Beyond the current length the array holds nil, on which
  \<open>Dispose\<close> returns at once.
\<close>

fun dispose_each ::
  "(addr \<Rightarrow> QTree \<Rightarrow> QTree option) \<Rightarrow> addr \<Rightarrow> nat list \<Rightarrow> QTree \<Rightarrow> QTree option" where
  "dispose_each d qt [] t = Some t"
| "dispose_each d qt (i # is) t =
     (if i < length (tn_Children (node t qt)) then
        (case d (tn_Children (node t qt) ! i) t of
           None \<Rightarrow> None
         | Some t' \<Rightarrow> dispose_each d qt is t')
      else dispose_each d qt is t)"

text \<open>What \<open>Dispose\<close> does once the children have been visited.\<close>

definition finish_dispose :: "addr \<Rightarrow> QTree \<Rightarrow> QTree" where
  "finish_dispose qt t =
     (let t1 = upd_node qt (\<lambda>n. n\<lparr>tn_Children := []\<rparr>) t;
          t2 = t1\<lparr>qt_RootNodeMap := (qt_RootNodeMap t1)(tn_Id (node t1 qt) := None)\<rparr>;
          t3 = (case tn_Parent (node t2 qt) of None \<Rightarrow> t2 | Some p \<Rightarrow> removeChild p qt t2)
      in upd_node qt (\<lambda>n. n\<lparr>tn_Arguments := []\<rparr>)
           (t3\<lparr>qt_VariableStore :=
              fold Unsubscribe (map snd (tn_Arguments (node t3 qt))) (qt_VariableStore t3)\<rparr>))"

primrec Dispose :: "nat \<Rightarrow> addr \<Rightarrow> QTree \<Rightarrow> QTree option" where
  "Dispose 0 qt t = None"
| "Dispose (Suc fuel) qt t =
     (if tn_disposed (node t qt) then Some t
      else
        let t1 = nextUpdate qt \<lparr>upd_Operation = Operation_Delete, upd_Child = None\<rparr>
                   (upd_node qt (\<lambda>n. n\<lparr>tn_disposed := True\<rparr>) t)
        in map_option (finish_dispose qt)
             (dispose_each (Dispose fuel) qt [0 ..< length (tn_Children (node t1 qt))] t1))"

subsection \<open>Mutations\<close>

fun apply_nodes ::
  "definitions \<Rightarrow> (ast_type \<Rightarrow> addr option) \<Rightarrow> RGQLQueryTreeMutation_NodeMutation list \<Rightarrow> QTree \<Rightarrow>
     (QTree \<times> qt_error option) option" where
  "apply_nodes defs lookup [] t = Some (t, None)"
| "apply_nodes defs lookup (aqn # aqns) t =
     (case qt_RootNodeMap t (nm_node_id aqn) of
        None \<Rightarrow> apply_nodes defs lookup aqns t
      | Some nod \<Rightarrow>
          if nm_operation aqn = SUBTREE_ADD_CHILD then
            (case nm_node aqn of
               None \<Rightarrow> None
             | Some data \<Rightarrow>
                 (case AddChild defs lookup nod data t of
                    None \<Rightarrow> None
                  | Some (t', Some e) \<Rightarrow> Some (t', Some e)
                  | Some (t', None) \<Rightarrow> apply_nodes defs lookup aqns t'))
          else if nm_operation aqn = SUBTREE_DELETE then
            if nm_node_id aqn \<noteq> 0 \<and> nod \<noteq> 0 then
              (case Dispose (length (qt_nodes t)) nod t of
                 None \<Rightarrow> None
               | Some t' \<Rightarrow> apply_nodes defs lookup aqns t')
            else apply_nodes defs lookup aqns t
          else apply_nodes defs lookup aqns t)"

text \<open>\<open>ord\<close> is the order in which \<open>GarbageCollect\<close> ranges over the variables of a store.\<close>

definition ApplyTreeMutation ::
  "definitions \<Rightarrow> (ast_type \<Rightarrow> addr option) \<Rightarrow> (VariableStore \<Rightarrow> u32 list) \<Rightarrow>
     RGQLQueryTreeMutation \<Rightarrow> QTree \<Rightarrow> (QTree \<times> qt_error option) option" where
  "ApplyTreeMutation defs lookup ord mutation t =
     (let t1 = t\<lparr>qt_VariableStore :=
            fold (\<lambda>v vs. fst (VariableStore_Put v vs)) (tm_variables mutation) (qt_VariableStore t)\<rparr>
      in (case apply_nodes defs lookup (tm_node_mutation mutation) t1 of
            None \<Rightarrow> None
          | Some (t2, Some e) \<Rightarrow> Some (t2, Some e)
          | Some (t2, None) \<Rightarrow>
              Some (t2\<lparr>qt_VariableStore := fst (VariableStore_GarbageCollect
                        (ord (qt_VariableStore t2)) (qt_VariableStore t2))\<rparr>, None)))"

subsection \<open>Reading the tree\<close>

lemma nextUpdate_simps [simp]:
  "qt_nodes (nextUpdate a u t) = qt_nodes t"
  "qt_RootNodeMap (nextUpdate a u t) = qt_RootNodeMap t"
  "qt_VariableStore (nextUpdate a u t) = qt_VariableStore t"
  "qt_subs (nextUpdate a u t) = qt_subs t" "qt_errCh (nextUpdate a u t) = qt_errCh t"
proof -
  have "qt_nodes (fold (nextChange u) xs t) = qt_nodes t \<and>
      qt_RootNodeMap (fold (nextChange u) xs t) = qt_RootNodeMap t \<and>
      qt_VariableStore (fold (nextChange u) xs t) = qt_VariableStore t \<and>
      qt_subs (fold (nextChange u) xs t) = qt_subs t \<and>
      qt_errCh (fold (nextChange u) xs t) = qt_errCh t" for xs
    by (induction xs arbitrary: t) (auto simp: nextChange_def)
  then show "qt_nodes (nextUpdate a u t) = qt_nodes t"
    "qt_RootNodeMap (nextUpdate a u t) = qt_RootNodeMap t"
    "qt_VariableStore (nextUpdate a u t) = qt_VariableStore t"
    "qt_subs (nextUpdate a u t) = qt_subs t" "qt_errCh (nextUpdate a u t) = qt_errCh t"
    by (auto simp: nextUpdate_def)
qed

lemma upd_node_simps [simp]:
  "qt_RootNodeMap (upd_node a f t) = qt_RootNodeMap t"
  "qt_VariableStore (upd_node a f t) = qt_VariableStore t"
  "length (qt_nodes (upd_node a f t)) = length (qt_nodes t)"
  "qt_errCh (upd_node a f t) = qt_errCh t"
  by (simp_all add: upd_node_def)

lemma node_upd_node:
  "b < length (qt_nodes t) \<Longrightarrow> node (upd_node a f t) b = (if b = a then f (node t a) else node t b)"
  by (simp add: upd_node_def nth_upd_at)

lemma node_upd_field: "(\<And>x. g (f x) = g x) \<Longrightarrow> g (node (upd_node a f t) b) = g (node t b)"
  by (simp add: upd_node_def nth_upd_at_field)

text \<open>The parts of a node that nothing changes once the node is in place.\<close>

definition core :: "QueryTreeNode \<Rightarrow>
    u32 \<times> addr option \<times> string \<times> addr option \<times> bool \<times> string \<times> qt_error option" where
  "core n = (tn_Id n, tn_Parent n, tn_FieldName n, tn_AST n, tn_IsPrimitive n,
     tn_PrimitiveName n, tn_err n)"

subsection \<open>Shape\<close>

text \<open>
  The tree is a tree: a node's parent was allocated before it, \<open>Children\<close> lists distinct
  nodes whose parent the node is, \<open>RootNodeMap\<close> leads to nodes with the id that it maps.
\<close>

definition shape :: "QTree \<Rightarrow> bool" where
  "shape t \<longleftrightarrow>
     qt_nodes t \<noteq> [] \<and> tn_Parent (node t 0) = None \<and>
     (\<forall>a < length (qt_nodes t). a \<noteq> 0 \<longrightarrow> (\<exists>p < a. tn_Parent (node t a) = Some p)) \<and>
     (\<forall>a < length (qt_nodes t). distinct (tn_Children (node t a)) \<and>
        (\<forall>c \<in> set (tn_Children (node t a)).
           c < length (qt_nodes t) \<and> tn_Parent (node t c) = Some a)) \<and>
     (\<forall>i a. qt_RootNodeMap t i = Some a \<longrightarrow>
        a < length (qt_nodes t) \<and> tn_Id (node t a) = i)"

lemma shape_parent:
  "shape t \<Longrightarrow> a < length (qt_nodes t) \<Longrightarrow> tn_Parent (node t a) = Some p \<Longrightarrow> p < a"
  unfolding shape_def by (metis option.distinct(1) option.inject)

lemma shape_child:
  "shape t \<Longrightarrow> a < length (qt_nodes t) \<Longrightarrow> c \<in> set (tn_Children (node t a)) \<Longrightarrow>
     c < length (qt_nodes t) \<and> tn_Parent (node t c) = Some a \<and> a < c"
  using shape_parent unfolding shape_def by blast

lemma shape_map:
  "shape t \<Longrightarrow> qt_RootNodeMap t i = Some a \<Longrightarrow> a < length (qt_nodes t) \<and> tn_Id (node t a) = i"
  by (simp add: shape_def)

lemma shape_distinct:
  "shape t \<Longrightarrow> a < length (qt_nodes t) \<Longrightarrow> distinct (tn_Children (node t a))"
  by (simp add: shape_def)

text \<open>
  The handles that the nodes hold, and the part of the invariant about them: each is held
  once, each is live.
\<close>

definition handles :: "QueryTreeNode \<Rightarrow> addr list" where
  "handles n = map snd (tn_Arguments n)"

definition owned :: "QTree \<Rightarrow> addr list" where
  "owned t = concat (map handles (qt_nodes t))"

definition args_ok :: "nat \<Rightarrow> QTree \<Rightarrow> bool" where
  "args_ok n t \<longleftrightarrow> vs_inv n (qt_VariableStore t) \<and> distinct (owned t) \<and>
     (\<forall>r \<in> set (owned t). live_ref (qt_VariableStore t) r)"

lemma handles_owned: "a < length (qt_nodes t) \<Longrightarrow> set (handles (node t a)) \<subseteq> set (owned t)"
  by (auto simp: owned_def intro!: bexI [of _ "node t a"])

lemma owned_cong: "map tn_Arguments (qt_nodes t') = map tn_Arguments (qt_nodes t) \<Longrightarrow> owned t' = owned t"
proof -
  assume "map tn_Arguments (qt_nodes t') = map tn_Arguments (qt_nodes t)"
  then have "map (map snd) (map tn_Arguments (qt_nodes t')) =
      map (map snd) (map tn_Arguments (qt_nodes t))" by simp
  then have "map handles (qt_nodes t') = map handles (qt_nodes t)"
    by (simp add: handles_def [abs_def] comp_def)
  then show ?thesis by (simp add: owned_def)
qed

lemma owned_upd_node [simp]:
  "(\<And>x. tn_Arguments (f x) = tn_Arguments x) \<Longrightarrow> owned (upd_node a f t) = owned t"
  by (intro owned_cong) (simp add: upd_node_def map_upd_at_id)

lemma owned_nodes: "qt_nodes t' = qt_nodes t \<Longrightarrow> owned t' = owned t"
  by (simp add: owned_def)

lemma mset_concat_clear:
  assumes "a < length xs"
  shows "mset (concat (map g xs)) = mset (g (xs ! a)) + mset (concat (map g (xs[a := y]))) - mset (g y)"
    and "mset (concat (map g (xs[a := y]))) \<supseteq># mset (g y)"
proof -
  have "xs = take a xs @ xs ! a # drop (Suc a) xs" using assms by (rule id_take_nth_drop)
  then have 1: "concat (map g xs) = concat (map g (take a xs)) @ g (xs ! a) @ concat (map g (drop (Suc a) xs))"
    by (metis concat.simps(2) concat_append list.simps(9) map_append)
  have 2: "concat (map g (xs[a := y])) = concat (map g (take a xs)) @ g y @ concat (map g (drop (Suc a) xs))"
    using assms by (simp add: upd_conv_take_nth_drop)
  show "mset (concat (map g xs)) = mset (g (xs ! a)) + mset (concat (map g (xs[a := y]))) - mset (g y)"
    and "mset (concat (map g (xs[a := y]))) \<supseteq># mset (g y)"
    by (simp_all add: 1 2)
qed

text \<open>Emptying a node's arguments takes its handles out of the owned ones.\<close>

lemma owned_clear:
  assumes "a < length (qt_nodes t)"
  shows "mset (owned t) = mset (handles (node t a)) +
     mset (owned (upd_node a (\<lambda>n. n\<lparr>tn_Arguments := []\<rparr>) t))"
  using mset_concat_clear(1) [OF assms, of handles "(node t a)\<lparr>tn_Arguments := []\<rparr>"]
  by (simp add: owned_def upd_node_def upd_at_def handles_def)

lemma owned_clear_distinct:
  assumes "a < length (qt_nodes t)" and "distinct (owned t)"
  shows "distinct (handles (node t a))"
    and "distinct (owned (upd_node a (\<lambda>n. n\<lparr>tn_Arguments := []\<rparr>) t))"
    and "set (owned (upd_node a (\<lambda>n. n\<lparr>tn_Arguments := []\<rparr>) t)) =
       set (owned t) - set (handles (node t a))"
proof -
  let ?t = "upd_node a (\<lambda>n. n\<lparr>tn_Arguments := []\<rparr>) t"
  have m: "mset (owned t) = mset (handles (node t a) @ owned ?t)"
    using owned_clear [OF assms(1)] by simp
  then have d: "distinct (handles (node t a) @ owned ?t)"
    using assms(2) mset_eq_imp_distinct_iff by blast
  then show "distinct (handles (node t a))" and "distinct (owned ?t)" by auto
  have "set (owned t) = set (handles (node t a) @ owned ?t)" using m by (metis mset_eq_setD)
  then show "set (owned ?t) = set (owned t) - set (handles (node t a))" using d by auto
qed

subsection \<open>Binding arguments\<close>

context handle_store
begin

text \<open>
  The argument loop against the interface: on success it holds one fresh live handle for
  each name, on the value that the argument's id names; on failure it has given back every
  handle that it took. Handles that others hold are not affected in either case.
\<close>

lemma bind_args_result:
  assumes "inv (n + length args) s" and "distinct (map snd m)" and "\<forall>r \<in> snd ` set m. live s r"
    and "bind_args get release args m s = (s', res)"
  shows "inv n s' \<and>
     (\<forall>q. live s q \<longrightarrow> q \<notin> snd ` set m \<longrightarrow> live s' q \<and> contents s' q = contents s q) \<and>
     (\<forall>m'. res = Inr m' \<longrightarrow>
        distinct (map snd m') \<and>
        (\<forall>r \<in> snd ` set m'. live s' r \<and> (r \<in> snd ` set m \<or> \<not> live s r)) \<and>
        (\<forall>r \<in> snd ` set m. live s' r \<and> contents s' r = contents s r) \<and>
        fst ` set m' = fst ` set m \<union> fst ` set args \<and>
        (\<forall>(x, r) \<in> set m'. (x, r) \<in> set m \<or> (x, key (contents s' r)) \<in> set args))"
  using assms
proof (induction args arbitrary: m s)
  case Nil
  then show ?case by auto
next
  case (Cons arg args)
  obtain name k where arg: "arg = (name, k)" by fastforce
  have inv: "inv (Suc (n + length args)) s" using Cons.prems(1) by simp
  obtain s1 r' where get: "get k s = (s1, r')" by fastforce
  show ?case
  proof (cases r')
    case None
    have s1: "s1 = s" using get None get_miss by simp
    have "inv n s" using inv by (rule inv_mono) simp
    moreover have "s' = fold release (map snd m) s" and "res = Inl (name, k)"
      using Cons.prems(4) get None s1 arg by auto
    ultimately show ?thesis
      using release_all [of n s "map snd m"] Cons.prems(2,3) by auto
  next
    case (Some r)
    note get = get [unfolded Some]
    have fresh: "live s1 r" "r \<notin> snd ` set m"
      using get_fresh [OF inv get] Cons.prems(3) by auto
    let ?m = "AList.update name r m"
    have m: "distinct (map snd ?m)" "snd ` set ?m \<subseteq> insert r (snd ` set m)"
      using snd_alist_update [OF Cons.prems(2) fresh(2)] by auto
    have keep: "live s q \<Longrightarrow> live s1 q \<and> contents s1 q = contents s q" for q
      using get_keeps [OF inv get] by blast
    have live: "\<forall>q \<in> snd ` set ?m. live s1 q"
      using m(2) fresh(1) keep Cons.prems(3) by blast
    have bind: "bind_args get release args ?m s1 = (s', res)"
      using Cons.prems(4) get arg by simp
    have inv1: "inv (n + length args) s1" using get_inv [OF inv get] .
    note ih = Cons.IH [OF inv1 m(1) live bind]
    note i1 = ih [THEN conjunct1]
    have i2: "\<And>q. live s1 q \<Longrightarrow> q \<notin> snd ` set ?m \<Longrightarrow> live s' q \<and> contents s' q = contents s1 q"
      using ih [THEN conjunct2, THEN conjunct1] by simp
    note i3 = ih [THEN conjunct2, THEN conjunct2, THEN spec, THEN mp]
    have frame: "live s' q \<and> contents s' q = contents s q"
      if "live s q" and "q \<notin> snd ` set m" for q
    proof -
      have "q \<noteq> r" using get_fresh [OF inv get] that(1) by blast
      then have "q \<notin> snd ` set ?m" using m(2) that(2) by blast
      then show ?thesis using i2 keep [OF that(1)] by simp
    qed
    have "distinct (map snd m') \<and>
        (\<forall>q \<in> snd ` set m'. live s' q \<and> (q \<in> snd ` set m \<or> \<not> live s q)) \<and>
        (\<forall>q \<in> snd ` set m. live s' q \<and> contents s' q = contents s q) \<and>
        fst ` set m' = fst ` set m \<union> fst ` set (arg # args) \<and>
        (\<forall>(x, q) \<in> set m'. (x, q) \<in> set m \<or> (x, key (contents s' q)) \<in> set (arg # args))"
      if res: "res = Inr m'" for m'
    proof -
      note j = i3 [OF res]
      note j1 = j [THEN conjunct1] and j2 = bspec [OF j [THEN conjunct2, THEN conjunct1]]
        and j3 = bspec [OF j [THEN conjunct2, THEN conjunct2, THEN conjunct1]]
        and j4 = j [THEN conjunct2, THEN conjunct2, THEN conjunct2, THEN conjunct1]
        and j5 = bspec [OF j [THEN conjunct2, THEN conjunct2, THEN conjunct2, THEN conjunct2]]
      show ?thesis
    proof (intro conjI ballI)
      show "distinct (map snd m')" by (rule j1)
      show "fst ` set m' = fst ` set m \<union> fst ` set (arg # args)"
        using j4 arg by (simp add: fst_alist_update)
    next
      fix q assume q: "q \<in> snd ` set m'"
      then show "live s' q" using j2 by simp
      have "q \<in> snd ` set ?m \<or> \<not> live s1 q" using j2 [OF q] by simp
      then show "q \<in> snd ` set m \<or> \<not> live s q"
        using m(2) get_fresh [OF inv get] keep by blast
    next
      fix q assume q: "q \<in> snd ` set m"
      then have l: "live s q" using Cons.prems(3) by blast
      have "live s' q \<and> contents s' q = contents s1 q"
      proof (cases "q \<in> snd ` set ?m")
        case True
        then show ?thesis by (rule j3)
      next
        case False
        then show ?thesis using i2 keep [OF l] by simp
      qed
      then show "live s' q" and "contents s' q = contents s q" using keep [OF l] by auto
    next
      fix xq assume xq: "xq \<in> set m'"
      obtain x q where [simp]: "xq = (x, q)" by fastforce
      have "(x, q) \<in> set ?m \<or> (x, key (contents s' q)) \<in> set args" using j5 [OF xq] by simp
      moreover have "(x, q) \<in> set m \<or> (x, key (contents s' q)) = (name, k)"
        if x: "(x, q) \<in> set ?m"
      proof (cases "(x, q) \<in> set m")
        case False
        then have "x = name" and "q = r" using x set_alist_update by fast+
        moreover have "contents s' r = contents s1 r"
          using j3 [of r] x \<open>q = r\<close> by (force simp: image_iff)
        ultimately show ?thesis using get_key [OF inv get] by simp
      qed simp
      ultimately show "case xq of (x, q) \<Rightarrow> (x, q) \<in> set m \<or>
          (x, key (contents s' q)) \<in> set (arg # args)"
        using arg by auto
    qed
    qed
    then show ?thesis using i1 frame by simp
  qed
qed

end

subsection \<open>The invariant\<close>

text \<open>
  The tree conforms to the schema: a node without an error has exactly the type that its
  field has in its parent's object, a node with an error has none and holds no handles.
\<close>

definition conforms ::
  "definitions \<Rightarrow> (ast_type \<Rightarrow> addr option) \<Rightarrow> addr option \<Rightarrow> QueryTreeNode \<Rightarrow> bool" where
  "conforms defs lookup parent_ast n =
     (case tn_err n of
        None \<Rightarrow> resolve_selection defs lookup parent_ast (tn_Id n) (tn_FieldName n) =
                  Some (Inr (tn_AST n, tn_IsPrimitive n, tn_PrimitiveName n))
      | Some e \<Rightarrow> tn_AST n = None \<and> tn_Arguments n = [])"

definition typed :: "definitions \<Rightarrow> (ast_type \<Rightarrow> addr option) \<Rightarrow> QTree \<Rightarrow> bool" where
  "typed defs lookup t \<longleftrightarrow> (\<forall>a < length (qt_nodes t). \<forall>p. tn_Parent (node t a) = Some p \<longrightarrow>
     conforms defs lookup (tn_AST (node t p)) (node t a))"

lemma conforms_cong:
  "core n' = core n \<Longrightarrow> tn_Arguments n' = tn_Arguments n \<Longrightarrow>
     conforms defs lookup ast n' = conforms defs lookup ast n"
  by (simp add: conforms_def core_def split: option.split)

lemma conforms_cleared:
  "core n' = core n \<Longrightarrow> tn_Arguments n' = [] \<Longrightarrow> conforms defs lookup ast n \<Longrightarrow>
     conforms defs lookup ast n'"
  by (auto simp: conforms_def core_def split: option.splits)

definition qt_inv :: "definitions \<Rightarrow> (ast_type \<Rightarrow> addr option) \<Rightarrow> nat \<Rightarrow> QTree \<Rightarrow> bool" where
  "qt_inv defs lookup n t \<longleftrightarrow> shape t \<and> typed defs lookup t \<and> args_ok n t"

text \<open>The number of handles that adding a subtree can take.\<close>

primrec arg_count :: "RGQLQueryTreeNode \<Rightarrow> nat" where
  "arg_count (RGQLQueryTreeNode i fname args dirs children u) =
     length args + sum_list (map arg_count children)"

text \<open>
  What adding nodes leaves alone: the nodes that were there, apart from new children at the
  end of their lists, and every live handle with what it leads to.
\<close>

definition same_handles :: "VariableStore \<Rightarrow> VariableStore \<Rightarrow> bool" where
  "same_handles vs vs' \<longleftrightarrow> (\<forall>q. live_ref vs q \<longrightarrow>
     live_ref vs' q \<and> ref_contents vs' q = ref_contents vs q)"

definition same_node :: "QueryTreeNode \<Rightarrow> QueryTreeNode \<Rightarrow> bool" where
  "same_node n n' \<longleftrightarrow> core n' = core n \<and> tn_Arguments n' = tn_Arguments n \<and>
     tn_disposed n' = tn_disposed n"

definition grows :: "QTree \<Rightarrow> QTree \<Rightarrow> bool" where
  "grows t t' \<longleftrightarrow> length (qt_nodes t) \<le> length (qt_nodes t') \<and>
     (\<forall>a < length (qt_nodes t). same_node (node t a) (node t' a) \<and>
        (\<exists>cs. tn_Children (node t' a) = tn_Children (node t a) @ cs \<and>
           (\<forall>c \<in> set cs. length (qt_nodes t) \<le> c))) \<and>
     same_handles (qt_VariableStore t) (qt_VariableStore t')"

lemma same_handles_refl [simp]: "same_handles vs vs"
  by (simp add: same_handles_def)

lemma same_handles_trans: "same_handles a b \<Longrightarrow> same_handles b c \<Longrightarrow> same_handles a c"
  by (simp add: same_handles_def)

lemma same_node_refl [simp]: "same_node n n"
  by (simp add: same_node_def)

lemma same_node_trans: "same_node a b \<Longrightarrow> same_node b c \<Longrightarrow> same_node a c"
  by (simp add: same_node_def)

lemma grows_refl [simp]: "grows t t"
  by (simp add: grows_def)

lemma grows_trans:
  assumes "grows a b" and "grows b c"
  shows "grows a c"
  unfolding grows_def
proof (intro conjI allI impI)
  show "length (qt_nodes a) \<le> length (qt_nodes c)"
    using assms by (auto simp: grows_def)
  show "same_handles (qt_VariableStore a) (qt_VariableStore c)"
    using assms same_handles_trans by (auto simp: grows_def)
next
  fix x assume x: "x < length (qt_nodes a)"
  then have x': "x < length (qt_nodes b)" using assms(1) by (simp add: grows_def)
  show "same_node (node a x) (node c x)"
    using assms x x' same_node_trans unfolding grows_def by blast
  obtain cs where cs: "tn_Children (node b x) = tn_Children (node a x) @ cs"
    "\<forall>c \<in> set cs. length (qt_nodes a) \<le> c"
    using assms(1) x unfolding grows_def by blast
  obtain ds where ds: "tn_Children (node c x) = tn_Children (node b x) @ ds"
    "\<forall>c \<in> set ds. length (qt_nodes b) \<le> c"
    using assms(2) x' unfolding grows_def by blast
  show "\<exists>cs. tn_Children (node c x) = tn_Children (node a x) @ cs \<and>
      (\<forall>c \<in> set cs. length (qt_nodes a) \<le> c)"
    using cs ds assms(1) by (intro exI [of _ "cs @ ds"]) (auto simp: grows_def)
qed

lemma args_ok_mono: "args_ok n t \<Longrightarrow> m \<le> n \<Longrightarrow> args_ok m t"
  by (auto simp: args_ok_def intro: vs_inv_mono)

lemma qt_inv_mono: "qt_inv defs lookup n t \<Longrightarrow> m \<le> n \<Longrightarrow> qt_inv defs lookup m t"
  by (auto simp: qt_inv_def intro: args_ok_mono)

text \<open>The invariant and the frame only read the nodes, the map and the variable store.\<close>

lemma qt_inv_cong:
  assumes "qt_nodes t' = qt_nodes t" and "qt_RootNodeMap t' = qt_RootNodeMap t"
    and "qt_VariableStore t' = qt_VariableStore t"
  shows "qt_inv defs lookup n t' = qt_inv defs lookup n t" and "grows s t' = grows s t"
  unfolding qt_inv_def shape_def typed_def args_ok_def owned_def grows_def assms by (rule refl)+

subsection \<open>Adding a node\<close>

lemma node_mint:
  "a \<le> length (qt_nodes t) \<Longrightarrow> qt < length (qt_nodes t) \<Longrightarrow>
     node (mint_node qt i fname t) a =
       (if a = length (qt_nodes t) then new_node i (Some qt) fname None
        else if a = qt then (node t a)\<lparr>tn_Children := tn_Children (node t a) @ [length (qt_nodes t)]\<rparr>
        else node t a)"
  by (auto simp: mint_node_def nth_append nth_upd_at)

lemma mint_simps [simp]:
  "length (qt_nodes (mint_node qt i fname t)) = Suc (length (qt_nodes t))"
  "qt_VariableStore (mint_node qt i fname t) = qt_VariableStore t"
  "qt_RootNodeMap (mint_node qt i fname t) = (qt_RootNodeMap t)(i \<mapsto> length (qt_nodes t))"
  by (simp_all add: mint_node_def)

lemma mint_owned [simp]: "owned (mint_node qt i fname t) = owned t"
proof -
  have "map handles (upd_at qt (\<lambda>n. n\<lparr>tn_Children := tn_Children n @ [length (qt_nodes t)]\<rparr>)
      (qt_nodes t)) = map handles (qt_nodes t)"
    by (rule map_upd_at_id) (simp add: handles_def)
  then show ?thesis by (simp add: owned_def mint_node_def new_node_def handles_def)
qed

lemma mint_shape:
  assumes "shape t" and "qt < length (qt_nodes t)"
  shows "shape (mint_node qt i fname t)"
proof -
  let ?L = "length (qt_nodes t)" and ?t = "mint_node qt i fname t"
  have new: "?L \<notin> set (tn_Children (node t a))" if "a < ?L" for a
    using shape_child [OF assms(1) that] by blast
  have old: "tn_Parent (node ?t a) = tn_Parent (node t a) \<and> tn_Id (node ?t a) = tn_Id (node t a)"
    if "a < ?L" for a
    using that assms(2) by (simp add: node_mint)
  have last: "tn_Parent (node ?t ?L) = Some qt" "tn_Children (node ?t ?L) = []" "tn_Id (node ?t ?L) = i"
    using assms(2) by (simp_all add: node_mint new_node_def)
  have child: "distinct (tn_Children (node ?t a)) \<and>
      (\<forall>c \<in> set (tn_Children (node ?t a)). c < Suc ?L \<and> tn_Parent (node ?t c) = Some a)"
    if a: "a < ?L" for a
  proof -
    have "tn_Children (node ?t a) = tn_Children (node t a) @ (if a = qt then [?L] else [])"
      using a assms(2) by (simp add: node_mint)
    then show ?thesis
      using shape_distinct [OF assms(1) a] shape_child [OF assms(1) a] new [OF a] last(1) old
      by (auto intro: less_SucI)
  qed
  show ?thesis
    unfolding shape_def
  proof (intro conjI allI impI)
    show "qt_nodes ?t \<noteq> []" by (simp add: mint_node_def)
    have "0 < ?L" using assms(2) by auto
    then show "tn_Parent (node ?t 0) = None" using old assms(1) by (simp add: shape_def)
  next
    fix a assume "a < length (qt_nodes ?t)" and "a \<noteq> 0"
    then show "\<exists>p < a. tn_Parent (node ?t a) = Some p"
      using old last assms by (cases "a = ?L") (auto simp: shape_def less_Suc_eq)
  next
    fix a assume "a < length (qt_nodes ?t)"
    then show "distinct (tn_Children (node ?t a))"
      using child last by (cases "a = ?L") (auto simp: less_Suc_eq)
  next
    fix a assume "a < length (qt_nodes ?t)"
    then show "\<forall>c \<in> set (tn_Children (node ?t a)). c < length (qt_nodes ?t) \<and>
        tn_Parent (node ?t c) = Some a"
      using child last by (cases "a = ?L") (auto simp: less_Suc_eq)
  next
    fix j a assume j: "qt_RootNodeMap ?t j = Some a"
    then show "a < length (qt_nodes ?t)" and "tn_Id (node ?t a) = j"
      using last old shape_map [OF assms(1), of j a] by (auto split: if_splits)
  qed
qed

text \<open>The shape depends on ids, parents, children and the map alone.\<close>

lemma shape_cong:
  assumes "length (qt_nodes t') = length (qt_nodes t)" and "qt_RootNodeMap t' = qt_RootNodeMap t"
    and "\<And>a. tn_Id (node t' a) = tn_Id (node t a) \<and> tn_Parent (node t' a) = tn_Parent (node t a) \<and>
           tn_Children (node t' a) = tn_Children (node t a)"
  shows "shape t' = shape t"
  using assms(3) by (auto simp: shape_def assms(1,2) length_greater_0_conv [symmetric]
      simp del: length_greater_0_conv)

lemma mint_grows:
  assumes "qt < length (qt_nodes t)"
  shows "grows t (mint_node qt i fname t)"
  using assms by (auto simp: grows_def node_mint same_node_def core_def)

text \<open>Giving the new node its contents.\<close>

definition place :: "addr \<Rightarrow> u32 \<Rightarrow> string \<Rightarrow> VariableStore \<Rightarrow>
    (QueryTreeNode \<Rightarrow> QueryTreeNode) \<Rightarrow> QTree \<Rightarrow> QTree" where
  "place qt i fname vs f t =
     upd_node (length (qt_nodes t)) f ((mint_node qt i fname t)\<lparr>qt_VariableStore := vs\<rparr>)"

lemma place_inv:
  assumes "qt_inv defs lookup m t" and "qt < length (qt_nodes t)"
    and "vs_inv n vs" and "same_handles (qt_VariableStore t) vs"
    and "\<And>x. tn_Id (f x) = tn_Id x \<and> tn_Parent (f x) = tn_Parent x \<and>
           tn_Children (f x) = tn_Children x \<and> tn_FieldName (f x) = tn_FieldName x"
    and "distinct (handles (f (new_node i (Some qt) fname None)))"
    and "\<And>r. r \<in> set (handles (f (new_node i (Some qt) fname None))) \<Longrightarrow>
           live_ref vs r \<and> \<not> live_ref (qt_VariableStore t) r"
    and "conforms defs lookup (tn_AST (node t qt)) (f (new_node i (Some qt) fname None))"
  shows "qt_inv defs lookup n (place qt i fname vs f t) \<and> grows t (place qt i fname vs f t)"
proof -
  let ?L = "length (qt_nodes t)" and ?t1 = "mint_node qt i fname t"
  let ?t = "place qt i fname vs f t" and ?n = "f (new_node i (Some qt) fname None)"
  have inv: "shape t" "typed defs lookup t" "args_ok m t" using assms(1) by (auto simp: qt_inv_def)
  have new: "node ?t ?L = ?n"
    using assms(2) by (simp add: place_def node_upd_node node_mint)
  have old: "node ?t a = node ?t1 a" if "a < ?L" for a
    using that by (simp add: place_def node_upd_node)
  have same: "same_node (node t a) (node ?t a)" if "a < ?L" for a
    using that assms(2) by (simp add: old node_mint same_node_def core_def)
  have "shape ?t = shape ?t1"
    by (rule shape_cong) (simp_all add: place_def node_upd_field assms(5))
  then have sh: "shape ?t" using mint_shape [OF inv(1) assms(2)] by simp
  have "qt_nodes ?t = upd_at qt (\<lambda>n. n\<lparr>tn_Children := tn_Children n @ [?L]\<rparr>) (qt_nodes t) @ [?n]"
    using assms(2) by (simp add: place_def upd_node_def mint_node_def upd_at_def nth_append
        list_update_append)
  moreover have "map handles (upd_at qt (\<lambda>n. n\<lparr>tn_Children := tn_Children n @ [?L]\<rparr>) (qt_nodes t)) =
      map handles (qt_nodes t)"
    by (rule map_upd_at_id) (simp add: handles_def)
  ultimately have own: "owned ?t = owned t @ handles ?n" by (simp add: owned_def)
  have ok: "args_ok n ?t"
    using inv(3) assms(3,4,6,7) unfolding args_ok_def own
    by (auto simp: same_handles_def place_def)
  have "typed defs lookup ?t"
    unfolding typed_def
  proof (intro allI impI)
    fix a p assume a: "a < length (qt_nodes ?t)" and p: "tn_Parent (node ?t a) = Some p"
    have pl: "p < a" using shape_parent [OF sh a p] .
    have a': "a < Suc ?L" using a by (simp add: place_def)
    then have ps: "tn_AST (node ?t p) = tn_AST (node t p)"
      using same [of p] pl by (auto simp: same_node_def core_def)
    show "conforms defs lookup (tn_AST (node ?t p)) (node ?t a)"
    proof (cases "a = ?L")
      case True
      have "tn_Parent ?n = Some qt" using assms(5) by (simp add: new_node_def)
      then have "p = qt" using p by (simp add: True new)
      then show ?thesis unfolding True new using assms(8) ps by simp
    next
      case False
      then have al: "a < ?L" using a' by simp
      then have *: "core (node ?t a) = core (node t a)"
        "tn_Arguments (node ?t a) = tn_Arguments (node t a)"
        using same by (auto simp: same_node_def)
      then have "tn_Parent (node t a) = Some p" using p by (simp add: core_def)
      then have "conforms defs lookup (tn_AST (node t p)) (node t a)"
        using inv(2) al by (simp add: typed_def)
      then show ?thesis using conforms_cong [OF *] ps by simp
    qed
  qed
  moreover have "grows t ?t"
    unfolding grows_def
  proof (intro conjI allI impI)
    show "length (qt_nodes t) \<le> length (qt_nodes ?t)" by (simp add: place_def)
    show "same_handles (qt_VariableStore t) (qt_VariableStore ?t)"
      using assms(4) by (simp add: place_def)
  next
    fix a assume a: "a < ?L"
    then show "same_node (node t a) (node ?t a)" by (rule same)
    show "\<exists>cs. tn_Children (node ?t a) = tn_Children (node t a) @ cs \<and> (\<forall>c \<in> set cs. ?L \<le> c)"
      using mint_grows [OF assms(2), of i fname] a by (simp add: grows_def old)
  qed
  ultimately show ?thesis using sh ok by (simp add: qt_inv_def)
qed

subsection \<open>Adding a subtree\<close>

lemma SetError_fresh:
  "tn_err (node t a) = None \<Longrightarrow>
     qt_nodes (SetError a e t) = qt_nodes (upd_node a (\<lambda>n. n\<lparr>tn_err := Some e\<rparr>) t) \<and>
     qt_RootNodeMap (SetError a e t) = qt_RootNodeMap t \<and>
     qt_VariableStore (SetError a e t) = qt_VariableStore t \<and>
     qt_errCh (SetError a e t) = qt_errCh t @ [(tn_Id (node t a), e)]"
  by (simp add: SetError_def upd_node_def)

text \<open>The three ends of \<open>AddChild\<close> after the new node is minted.\<close>

lemma fail_inv:
  assumes "qt_inv defs lookup n t" and "qt < length (qt_nodes t)"
    and "vs_inv n vs" and "same_handles (qt_VariableStore t) vs"
    and "t' = SetError (length (qt_nodes t)) e ((mint_node qt i fname t)\<lparr>qt_VariableStore := vs\<rparr>)"
  shows "qt_inv defs lookup n t' \<and> grows t t'"
proof -
  let ?f = "\<lambda>n. n\<lparr>tn_err := Some e\<rparr>"
  have "qt_inv defs lookup n (place qt i fname vs ?f t) \<and> grows t (place qt i fname vs ?f t)"
    by (rule place_inv [OF assms(1-4)]) (simp_all add: new_node_def handles_def conforms_def)
  moreover have "tn_err (node ((mint_node qt i fname t)\<lparr>qt_VariableStore := vs\<rparr>)
      (length (qt_nodes t))) = None"
    using assms(2) by (simp add: node_mint new_node_def)
  ultimately show ?thesis
    using SetError_fresh [of "(mint_node qt i fname t)\<lparr>qt_VariableStore := vs\<rparr>"]
      qt_inv_cong [of t' "place qt i fname vs ?f t"] assms(5) by (simp add: place_def)
qed

lemma bind_variables_result:
  assumes "vs_inv (n + length args) vs" and "bind_variables args [] vs = (vs', res)"
  shows "vs_inv n vs'" and "same_handles vs vs'"
    and "res = Inr m \<Longrightarrow> distinct (map snd m) \<and> fst ` set m = fst ` set args \<and>
      (\<forall>(x, r) \<in> set m. live_ref vs' r \<and> \<not> live_ref vs r \<and> (x, GetVarID vs' r) \<in> set args)"
  using var_handles.bind_args_result [OF assms(1) _ _ assms(2)]
  by (auto simp: same_handles_def ref_contents_def)

lemma placed_inv:
  assumes "qt_inv defs lookup (n + length (arg_list args)) t" and "qt < length (qt_nodes t)"
    and "resolve_selection defs lookup (tn_AST (node t qt)) i fname = Some (Inr (ast, isPrim, prim))"
    and "bind_variables (arg_list args) [] (qt_VariableStore t) = (vs, Inr m)"
  shows "qt_inv defs lookup n (place qt i fname vs (\<lambda>n. n\<lparr>tn_AST := ast, tn_IsPrimitive := isPrim,
           tn_PrimitiveName := prim, tn_Arguments := m\<rparr>) t) \<and>
     grows t (place qt i fname vs (\<lambda>n. n\<lparr>tn_AST := ast, tn_IsPrimitive := isPrim,
           tn_PrimitiveName := prim, tn_Arguments := m\<rparr>) t)"
proof -
  have vs: "vs_inv (n + length (arg_list args)) (qt_VariableStore t)"
    using assms(1) by (simp add: qt_inv_def args_ok_def)
  note b = bind_variables_result [OF vs assms(4)]
  show ?thesis
    by (rule place_inv [OF assms(1,2) b(1,2)])
       (use b(3) [OF refl] assms(3) in \<open>auto simp: new_node_def handles_def conforms_def\<close>)
qed

lemma AddChild_inv:
  "AddChild defs lookup qt d t = Some (t', e) \<Longrightarrow>
     qt_inv defs lookup (n + arg_count d) t \<Longrightarrow> qt < length (qt_nodes t) \<Longrightarrow>
     qt_inv defs lookup n t' \<and> grows t t'"
  "AddChildren defs lookup qt ds t = Some t' \<Longrightarrow>
     qt_inv defs lookup (n + sum_list (map arg_count ds)) t \<Longrightarrow> qt < length (qt_nodes t) \<Longrightarrow>
     qt_inv defs lookup n t' \<and> grows t t'"
proof (induction defs lookup qt d t and defs lookup qt ds t arbitrary: t' e n and t' n
    rule: AddChild_AddChildren.induct)
  case (1 defs lookup qt i fname args dirs children u t)
  let ?d = "RGQLQueryTreeNode i fname args dirs children u" and ?L = "length (qt_nodes t)"
  let ?t1 = "mint_node qt i fname t"
  let ?m = "n + sum_list (map arg_count children)"
  have inv: "qt_inv defs lookup (?m + length (arg_list args)) t"
    using 1(3) by (simp add: arg_list_def ac_simps)
  then have inv0: "qt_inv defs lookup n t" by (rule qt_inv_mono) simp
  have vs: "vs_inv (?m + length (arg_list args)) (qt_VariableStore t)"
    using inv by (simp add: qt_inv_def args_ok_def)
  show ?case
  proof (cases "qt = 0 \<and> qt_RootNodeMap t i \<noteq> None")
    case True
    then show ?thesis using 1(2) inv0 by simp
  next
    case False
    note add = 1(2) [unfolded AddChild.simps if_not_P [OF False] Let_def]
    show ?thesis
    proof (cases "resolve_selection defs lookup (tn_AST (node t qt)) i fname")
      case None
      then show ?thesis using add by simp
    next
      case (Some res)
      note sel = Some
      obtain vs' b where bind: "bind_variables (arg_list args) [] (qt_VariableStore t) = (vs', b)"
        by fastforce
      note b = bind_variables_result [OF vs bind]
      show ?thesis
      proof (cases res)
        case (Inl e')
        then have "t' = SetError ?L e' (?t1\<lparr>qt_VariableStore := qt_VariableStore t\<rparr>)"
          using add sel by (simp add: mint_node_def)
        then show ?thesis
          using fail_inv [OF inv0 1(4), of "qt_VariableStore t"] inv0
          by (simp add: qt_inv_def args_ok_def)
      next
        case (Inr sel')
        obtain ast isPrim prim where sel': "sel' = (ast, isPrim, prim)" by (cases sel')
        show ?thesis
        proof (cases b)
          case (Inl nk)
          then have "t' = SetError ?L (VariableNotFound (snd nk) (fst nk)) (?t1\<lparr>qt_VariableStore := vs'\<rparr>)"
            using add sel \<open>res = Inr sel'\<close> sel' bind by (simp split: prod.splits)
          moreover have "vs_inv n vs'" using b(1) by (rule vs_inv_mono) simp
          ultimately show ?thesis using fail_inv [OF inv0 1(4) _ b(2)] by simp
        next
          case (Inr m)
          let ?f = "\<lambda>n. n\<lparr>tn_AST := ast, tn_IsPrimitive := isPrim,
                      tn_PrimitiveName := prim, tn_Arguments := m\<rparr>"
          let ?t2 = "place qt i fname vs' ?f t"
          have t2: "qt_inv defs lookup ?m ?t2 \<and> grows t ?t2"
            using placed_inv [OF inv 1(4) sel [unfolded \<open>res = Inr sel'\<close> sel']
                bind [unfolded Inr]] by simp
          obtain t3 where t3: "AddChildren defs lookup ?L children ?t2 = Some t3"
            and t': "t' = nextUpdate qt \<lparr>upd_Operation = Operation_AddChild, upd_Child = Some ?L\<rparr> t3"
            using add sel \<open>res = Inr sel'\<close> sel' bind Inr
            by (auto simp: place_def split: option.splits)
          have bind': "(vs', b) = bind_variables (arg_list args) [] (qt_VariableStore ?t1)"
            using bind by simp
          have "qt_inv defs lookup n t3 \<and> grows ?t2 t3"
            unfolding place_def
            by (rule 1(1) [OF False refl refl sel \<open>res = Inr sel'\<close> sel' [symmetric] refl bind' Inr refl
                  t3 [unfolded place_def] conjunct1 [OF t2, unfolded place_def]]) simp
          then show ?thesis
            using t2 grows_trans qt_inv_cong [of t' t3] by (auto simp: t')
        qed
      qed
    qed
  qed
next
  case (2 defs lookup qt t)
  then show ?case by simp
next
  case (3 defs lookup qt d ds t)
  obtain t1 e1 where add: "AddChild defs lookup qt d t = Some (t1, e1)"
    using 3(3) by (auto split: option.splits)
  have t1: "qt_inv defs lookup (n + sum_list (map arg_count ds)) t1 \<and> grows t t1"
    using 3(1) [OF add, of "n + sum_list (map arg_count ds)"] 3(4,5) by (simp add: ac_simps)
  then have "qt < length (qt_nodes t1)" using 3(5) by (simp add: grows_def)
  moreover have "AddChildren defs lookup qt ds t1 = Some t'" using 3(3) add by simp
  ultimately have "qt_inv defs lookup n t' \<and> grows t1 t'"
    using 3(2) [OF add refl] t1 by blast
  then show ?case using t1 grows_trans by blast
qed

subsection \<open>Disposing of a subtree\<close>

definition parent_of :: "QTree \<Rightarrow> addr \<Rightarrow> addr option" where
  "parent_of t c = (if c < length (qt_nodes t) then tn_Parent (node t c) else None)"

definition descends :: "QTree \<Rightarrow> addr \<Rightarrow> addr \<Rightarrow> bool" where
  "descends t a x \<longleftrightarrow> tree_anc (parent_of t) a x"

lemma shape_decreasing: "shape t \<Longrightarrow> decreasing (parent_of t)"
  using shape_parent [of t] by (simp add: decreasing_def parent_of_def)

lemma descends_refl [simp]: "descends t a a"
  by (simp add: descends_def)

lemma descends_step:
  "descends t a p \<Longrightarrow> c < length (qt_nodes t) \<Longrightarrow> tn_Parent (node t c) = Some p \<Longrightarrow> descends t a c"
  unfolding descends_def by (rule tree_anc_step) (simp_all add: parent_of_def)

lemma descends_trans: "descends t a b \<Longrightarrow> descends t b c \<Longrightarrow> descends t a c"
  unfolding descends_def by (rule tree_anc_trans)

lemma descends_le: "shape t \<Longrightarrow> descends t a x \<Longrightarrow> a \<le> x"
  unfolding descends_def by (rule tree_anc_le [OF shape_decreasing])

lemma sibling_not_descends:
  assumes "shape t" and "tn_Parent (node t c) = Some a" and "tn_Parent (node t x) = Some a"
    and "c < length (qt_nodes t)" and "x < length (qt_nodes t)" and "x \<noteq> c"
  shows "\<not> descends t c x"
  using tree_anc_siblings(2) [OF shape_decreasing [OF assms(1)], of c a x] assms
  by (simp add: descends_def parent_of_def)

text \<open>A node is as it was, or it is disposed and holds nothing any more.\<close>

definition kept_or_gone :: "QueryTreeNode \<Rightarrow> QueryTreeNode \<Rightarrow> bool" where
  "kept_or_gone n n' \<longleftrightarrow>
     same_node n n' \<or> core n' = core n \<and> tn_disposed n' \<and> tn_Arguments n' = []"

definition static :: "QTree \<Rightarrow> QTree \<Rightarrow> bool" where
  "static t t' \<longleftrightarrow> length (qt_nodes t') = length (qt_nodes t) \<and>
     (\<forall>a < length (qt_nodes t). kept_or_gone (node t a) (node t' a))"

definition handles_shrink :: "QTree \<Rightarrow> QTree \<Rightarrow> bool" where
  "handles_shrink t t' \<longleftrightarrow> (\<forall>n. args_ok n t \<longrightarrow> args_ok n t' \<and> set (owned t') \<subseteq> set (owned t) \<and>
     (\<forall>r \<in> set (owned t'). ref_contents (qt_VariableStore t') r = ref_contents (qt_VariableStore t) r))"

definition inner :: "addr \<Rightarrow> QTree \<Rightarrow> QTree \<Rightarrow> bool" where
  "inner a t t' \<longleftrightarrow> shape t' \<and> static t t' \<and> handles_shrink t t' \<and>
     (\<forall>x < length (qt_nodes t). \<not> descends t a x \<longrightarrow>
        same_node (node t x) (node t' x) \<and> tn_Children (node t' x) = tn_Children (node t x)) \<and>
     same_node (node t a) (node t' a)"

definition sweep :: "addr \<Rightarrow> QTree \<Rightarrow> QTree \<Rightarrow> bool" where
  "sweep a t t' \<longleftrightarrow> shape t' \<and> static t t' \<and> handles_shrink t t' \<and>
     (\<forall>x < length (qt_nodes t). \<not> descends t a x \<longrightarrow>
        same_node (node t x) (node t' x) \<and>
        tn_Children (node t' x) =
          (if tn_Parent (node t a) = Some x then remove1 a (tn_Children (node t x))
           else tn_Children (node t x))) \<and>
     tn_disposed (node t' a) \<and> tn_Arguments (node t' a) = [] \<and> tn_Children (node t' a) = [] \<and>
     qt_RootNodeMap t' (tn_Id (node t a)) = None \<and>
     (\<forall>n. args_ok n t \<longrightarrow> (\<forall>r \<in> set (handles (node t a)). \<not> live_ref (qt_VariableStore t') r))"

lemma kept_or_gone_refl [simp]: "kept_or_gone n n"
  by (simp add: kept_or_gone_def)

lemma kept_or_gone_trans: "kept_or_gone a b \<Longrightarrow> kept_or_gone b c \<Longrightarrow> kept_or_gone a c"
  by (auto simp: kept_or_gone_def same_node_def)

lemma static_refl [simp]: "static t t"
  by (simp add: static_def)

lemma static_trans:
  assumes "static a b" and "static b c"
  shows "static a c"
  unfolding static_def
proof (intro conjI allI impI)
  show "length (qt_nodes c) = length (qt_nodes a)" using assms by (simp add: static_def)
  fix x assume "x < length (qt_nodes a)"
  then show "kept_or_gone (node a x) (node c x)"
    using assms kept_or_gone_trans by (auto simp: static_def)
qed

lemma static_core:
  "static t t' \<Longrightarrow> a < length (qt_nodes t) \<Longrightarrow> core (node t' a) = core (node t a)"
  by (auto simp: static_def kept_or_gone_def same_node_def)

lemma static_parent:
  "static t t' \<Longrightarrow> a < length (qt_nodes t) \<Longrightarrow> tn_Parent (node t' a) = tn_Parent (node t a)"
  using static_core [of t t' a] by (simp add: core_def)

lemma static_length: "static t t' \<Longrightarrow> length (qt_nodes t') = length (qt_nodes t)"
  by (simp add: static_def)

lemma static_descends: "static t t' \<Longrightarrow> descends t' a x = descends t a x"
proof -
  assume s: "static t t'"
  have "parent_of t' = parent_of t"
    using static_parent [OF s] static_length [OF s] by (auto simp: parent_of_def)
  then show ?thesis by (simp add: descends_def)
qed

lemma static_typed:
  assumes "static t t'" and "shape t" and "typed defs lookup t"
  shows "typed defs lookup t'"
  unfolding typed_def
proof (intro allI impI)
  fix a p assume a: "a < length (qt_nodes t')" and p: "tn_Parent (node t' a) = Some p"
  then have al: "a < length (qt_nodes t)" and pt: "tn_Parent (node t a) = Some p"
    using static_length [OF assms(1)] static_parent [OF assms(1), of a] by auto
  then have "p < length (qt_nodes t)" using shape_parent [OF assms(2)] by fastforce
  then have ps: "tn_AST (node t' p) = tn_AST (node t p)"
    using static_core [OF assms(1)] by (simp add: core_def)
  have c: "conforms defs lookup (tn_AST (node t p)) (node t a)"
    using assms(3) al pt by (simp add: typed_def)
  have "kept_or_gone (node t a) (node t' a)" using assms(1) al by (simp add: static_def)
  then show "conforms defs lookup (tn_AST (node t' p)) (node t' a)"
    using c conforms_cong conforms_cleared unfolding ps kept_or_gone_def same_node_def by metis
qed

lemma handles_shrink_refl [simp]: "handles_shrink t t"
  by (simp add: handles_shrink_def)

lemma handles_shrink_trans: "handles_shrink a b \<Longrightarrow> handles_shrink b c \<Longrightarrow> handles_shrink a c"
  unfolding handles_shrink_def by (metis subset_iff)

lemma inner_refl: "shape t \<Longrightarrow> inner a t t"
  by (simp add: inner_def)

lemma inner_trans:
  assumes "inner a s t" and "inner a t u"
  shows "inner a s u"
proof -
  have st: "static s t" "static t u" using assms by (simp_all add: inner_def)
  show ?thesis
    using assms static_trans [OF st] handles_shrink_trans [of s t u] same_node_trans
      static_descends [OF st(1)] static_length [OF st(1)]
    unfolding inner_def by (metis (no_types, lifting))
qed

lemma sweep_inner:
  assumes "shape t" and "sweep c t t'" and "c < length (qt_nodes t)"
    and "tn_Parent (node t c) = Some a"
  shows "inner a t t'"
proof -
  have ac: "descends t a c" using descends_step [OF descends_refl assms(3,4)] .
  have al: "a < c" using shape_parent [OF assms(1,3,4)] .
  then have "\<not> descends t c a" using descends_le [OF assms(1), of c a] by auto
  moreover have "\<not> descends t c x" and "x \<noteq> a" if "\<not> descends t a x" for x
    using that ac descends_trans by auto
  ultimately show ?thesis
    using assms(2,3,4) al unfolding inner_def sweep_def by auto
qed

lemma shape_root: "shape t \<Longrightarrow> tn_Parent (node t 0) = None"
  by (simp add: shape_def)

lemma shape_has_parent:
  "shape t \<Longrightarrow> a < length (qt_nodes t) \<Longrightarrow> a \<noteq> 0 \<Longrightarrow> \<exists>p < a. tn_Parent (node t a) = Some p"
  by (simp add: shape_def)

lemma removeChild_simps [simp]:
  "qt_RootNodeMap (removeChild p a t) = qt_RootNodeMap t"
  "qt_VariableStore (removeChild p a t) = qt_VariableStore t"
  "qt_nodes (removeChild p a t) =
     qt_nodes (upd_node p (\<lambda>n. n\<lparr>tn_Children := remove1 a (tn_Children n)\<rparr>) t)"
proof -
  have "upd_at p (\<lambda>n. n\<lparr>tn_Children := remove1 a (tn_Children n)\<rparr>) (qt_nodes t) = qt_nodes t"
    if "a \<notin> set (tn_Children (node t p))"
    using that by (simp add: upd_at_def remove1_idem)
  then show "qt_RootNodeMap (removeChild p a t) = qt_RootNodeMap t"
    "qt_VariableStore (removeChild p a t) = qt_VariableStore t"
    "qt_nodes (removeChild p a t) =
       qt_nodes (upd_node p (\<lambda>n. n\<lparr>tn_Children := remove1 a (tn_Children n)\<rparr>) t)"
    by (auto simp: removeChild_def upd_node_def)
qed

lemma finish_nodes:
  assumes "shape t" and "a < length (qt_nodes t)" and "x < length (qt_nodes t)"
  shows "node (finish_dispose a t) x =
     (if x = a then (node t a)\<lparr>tn_Children := [], tn_Arguments := []\<rparr>
      else if tn_Parent (node t a) = Some x
      then (node t x)\<lparr>tn_Children := remove1 a (tn_Children (node t x))\<rparr>
      else node t x)"
proof -
  have "tn_Parent (node t a) \<noteq> Some a" using shape_parent [OF assms(1,2)] by blast
  then show ?thesis
    using assms(2,3)
    by (auto simp: finish_dispose_def Let_def upd_node_def nth_upd_at split: option.splits)
qed

lemma finish_simps:
  assumes "shape t" and "a < length (qt_nodes t)"
  shows "length (qt_nodes (finish_dispose a t)) = length (qt_nodes t)"
    and "qt_RootNodeMap (finish_dispose a t) = (qt_RootNodeMap t)(tn_Id (node t a) := None)"
    and "qt_VariableStore (finish_dispose a t) =
      fold Unsubscribe (handles (node t a)) (qt_VariableStore t)"
proof -
  have p: "tn_Parent (node t a) \<noteq> Some a" using shape_parent [OF assms(1,2)] by blast
  show "length (qt_nodes (finish_dispose a t)) = length (qt_nodes t)"
    by (simp add: finish_dispose_def Let_def upd_node_def split: option.split)
  show "qt_RootNodeMap (finish_dispose a t) = (qt_RootNodeMap t)(tn_Id (node t a) := None)"
    using assms(2) by (simp add: finish_dispose_def Let_def node_upd_node split: option.split)
  show "qt_VariableStore (finish_dispose a t) =
      fold Unsubscribe (handles (node t a)) (qt_VariableStore t)"
    using assms(2) p
    by (auto simp: finish_dispose_def Let_def upd_node_def nth_upd_at handles_def split: option.splits)
qed

lemma finish_handles:
  assumes "shape t" and "a < length (qt_nodes t)"
  shows "handles_shrink t (finish_dispose a t)"
  unfolding handles_shrink_def
proof (intro allI impI)
  fix n assume ok: "args_ok n t"
  let ?t' = "finish_dispose a t" and ?c = "upd_node a (\<lambda>n. n\<lparr>tn_Arguments := []\<rparr>) t"
  let ?vs = "qt_VariableStore t"
  have "map tn_Arguments (qt_nodes ?t') = map tn_Arguments (qt_nodes ?c)"
    using finish_nodes [OF assms] finish_simps(1) [OF assms] assms(2)
    by (intro nth_equalityI) (auto simp: node_upd_node)
  then have own: "owned ?t' = owned ?c" by (rule owned_cong)
  note c = owned_clear_distinct [OF assms(2)]
  have inv: "vs_inv n ?vs" and d: "distinct (owned t)" and l: "\<forall>r \<in> set (owned t). live_ref ?vs r"
    using ok by (auto simp: args_ok_def)
  have lh: "\<forall>r \<in> set (handles (node t a)). live_ref ?vs r"
    using l handles_owned [OF assms(2)] by auto
  note rel = var_handles.release_all [OF inv c(1) [OF d] lh]
  show "args_ok n ?t' \<and> set (owned ?t') \<subseteq> set (owned t) \<and>
     (\<forall>r \<in> set (owned ?t'). ref_contents (qt_VariableStore ?t') r = ref_contents ?vs r)"
    using rel c(2,3) [OF d] l unfolding args_ok_def own finish_simps(3) [OF assms] by auto
qed

text \<open>The handles of the node itself are given back.\<close>

lemma finish_releases:
  assumes "shape t" and "a < length (qt_nodes t)" and "args_ok n t"
    and "r \<in> set (handles (node t a))"
  shows "\<not> live_ref (qt_VariableStore (finish_dispose a t)) r"
proof -
  have "distinct (handles (node t a))" and "vs_inv n (qt_VariableStore t)"
    and "\<forall>r \<in> set (handles (node t a)). live_ref (qt_VariableStore t) r"
    using assms(3) owned_clear_distinct(1) [OF assms(2)] handles_owned [OF assms(2)]
    by (auto simp: args_ok_def)
  then show ?thesis
    using var_handles.release_all assms(4) unfolding finish_simps(3) [OF assms(1,2)] by blast
qed

lemma finish_shape:
  assumes "shape t" and "a < length (qt_nodes t)"
  shows "shape (finish_dispose a t)"
proof -
  let ?t' = "finish_dispose a t"
  note n = finish_nodes [OF assms] and len = finish_simps(1) [OF assms]
  have same: "tn_Parent (node ?t' x) = tn_Parent (node t x) \<and> tn_Id (node ?t' x) = tn_Id (node t x)"
    if "x < length (qt_nodes t)" for x
    unfolding n [OF that] by simp
  have child: "set (tn_Children (node ?t' x)) \<subseteq> set (tn_Children (node t x)) \<and>
      distinct (tn_Children (node ?t' x))" if "x < length (qt_nodes t)" for x
    unfolding n [OF that] using shape_distinct [OF assms(1) that]
    by (auto dest: notin_set_remove1)
  have parent: "\<exists>p < x. tn_Parent (node ?t' x) = Some p"
    if "x < length (qt_nodes t)" and "x \<noteq> 0" for x
    using same [OF that(1)] shape_has_parent [OF assms(1) that] by simp
  have inside: "\<forall>c \<in> set (tn_Children (node ?t' x)). c < length (qt_nodes t) \<and>
      tn_Parent (node ?t' c) = Some x" if x: "x < length (qt_nodes t)" for x
  proof
    fix c assume "c \<in> set (tn_Children (node ?t' x))"
    then have "c \<in> set (tn_Children (node t x))" using child [OF x] by blast
    from shape_child [OF assms(1) x this]
    show "c < length (qt_nodes t) \<and> tn_Parent (node ?t' c) = Some x" using same [of c] by simp
  qed
  have map: "b < length (qt_nodes t) \<and> tn_Id (node ?t' b) = i"
    if "qt_RootNodeMap ?t' i = Some b" for i b
  proof -
    have "qt_RootNodeMap t i = Some b"
      using that finish_simps(2) [OF assms] by (simp split: if_splits)
    from shape_map [OF assms(1) this] show ?thesis using same [of b] by simp
  qed
  have "0 < length (qt_nodes t)" using assms(2) by linarith
  then have "qt_nodes ?t' \<noteq> []" and "tn_Parent (node ?t' 0) = None"
    using len same [of 0] shape_root [OF assms(1)] by (simp_all flip: length_greater_0_conv)
  then show ?thesis
    using parent child inside map unfolding shape_def len by blast
qed

lemma mark_shape: "shape (upd_node a (\<lambda>n. n\<lparr>tn_disposed := True\<rparr>) t) = shape t"
  by (rule shape_cong) (simp_all add: node_upd_field)

lemma mark_handles: "handles_shrink t (upd_node a (\<lambda>n. n\<lparr>tn_disposed := True\<rparr>) t)"
  by (simp add: handles_shrink_def args_ok_def)

lemma finish_sweep:
  assumes "shape t" and "a < length (qt_nodes t)"
    and "inner a (upd_node a (\<lambda>n. n\<lparr>tn_disposed := True\<rparr>) t) t2"
  shows "sweep a t (finish_dispose a t2)"
proof -
  let ?t1 = "upd_node a (\<lambda>n. n\<lparr>tn_disposed := True\<rparr>) t" and ?t' = "finish_dispose a t2"
  have sh: "shape t2" and st: "static ?t1 t2" and hs: "handles_shrink ?t1 t2"
    and out: "\<And>x. x < length (qt_nodes t) \<Longrightarrow> \<not> descends ?t1 a x \<Longrightarrow>
        same_node (node ?t1 x) (node t2 x) \<and> tn_Children (node t2 x) = tn_Children (node ?t1 x)"
    and self: "same_node (node ?t1 a) (node t2 a)"
    using assms(3) by (simp_all add: inner_def)
  have len: "length (qt_nodes t2) = length (qt_nodes t)" using static_length [OF st] by simp
  then have al: "a < length (qt_nodes t2)" using assms(2) by simp
  have t1a: "node ?t1 a = (node t a)\<lparr>tn_disposed := True\<rparr>" using assms(2) by (simp add: node_upd_node)
  have t1x: "x \<noteq> a \<Longrightarrow> node ?t1 x = node t x" for x by (simp add: upd_node_def)
  have desc: "descends ?t1 a x = descends t a x" for x
  proof -
    have "parent_of ?t1 = parent_of t" by (auto simp: parent_of_def node_upd_field)
    then show ?thesis by (simp add: descends_def)
  qed
  have pa: "tn_Parent (node t2 a) = tn_Parent (node t a)" and ida: "tn_Id (node t2 a) = tn_Id (node t a)"
    using self by (simp_all add: same_node_def core_def t1a)
  have t'a: "node ?t' a = (node t2 a)\<lparr>tn_Children := [], tn_Arguments := []\<rparr>"
    using finish_nodes [OF sh al al] by simp
  have t'x: "node ?t' x = (if tn_Parent (node t a) = Some x
      then (node t2 x)\<lparr>tn_Children := remove1 a (tn_Children (node t2 x))\<rparr> else node t2 x)"
    if "x \<noteq> a" and "x < length (qt_nodes t)" for x
    using finish_nodes [OF sh al, of x] that len pa by simp
  have same': "same_node (node t2 x) (node ?t' x)" if "x \<noteq> a" and "x < length (qt_nodes t)" for x
    unfolding t'x [OF that] by (simp add: same_node_def core_def)
  have gone: "kept_or_gone (node t x) (node ?t' x)" if x: "x < length (qt_nodes t)" for x
  proof (cases "x = a")
    case True
    then show ?thesis
      using self by (simp add: t'a kept_or_gone_def same_node_def core_def t1a)
  next
    case False
    have "kept_or_gone (node t x) (node t2 x)" using st x unfolding static_def by (metis t1x [OF False] upd_node_simps(3))
    moreover have "kept_or_gone (node t2 x) (node ?t' x)"
      using same' [OF False x] by (simp add: kept_or_gone_def)
    ultimately show ?thesis by (rule kept_or_gone_trans)
  qed
  have "static t ?t'" using gone finish_simps(1) [OF sh al] len by (simp add: static_def)
  moreover have "handles_shrink t ?t'"
    using handles_shrink_trans [OF handles_shrink_trans [OF mark_handles hs] finish_handles [OF sh al]] .
  moreover have "same_node (node t x) (node ?t' x) \<and> tn_Children (node ?t' x) =
      (if tn_Parent (node t a) = Some x then remove1 a (tn_Children (node t x))
       else tn_Children (node t x))"
    if x: "x < length (qt_nodes t)" and nd: "\<not> descends t a x" for x
  proof -
    have xa: "x \<noteq> a" using nd by auto
    have o: "same_node (node t x) (node t2 x)" "tn_Children (node t2 x) = tn_Children (node t x)"
      using out [OF x] nd desc t1x [OF xa] by auto
    show ?thesis
      using same_node_trans [OF o(1) same' [OF xa x]] unfolding t'x [OF xa x] by (simp add: o(2))
  qed
  moreover have "tn_disposed (node ?t' a)" using self by (simp add: t'a same_node_def t1a)
  moreover have "\<not> live_ref (qt_VariableStore ?t') r"
    if ok: "args_ok n t" and r: "r \<in> set (handles (node t a))" for n r
  proof -
    have "args_ok n t2"
      using handles_shrink_trans [OF mark_handles hs] ok by (simp add: handles_shrink_def)
    moreover have "handles (node t2 a) = handles (node t a)"
      using self by (simp add: same_node_def handles_def t1a)
    ultimately show ?thesis using finish_releases [OF sh al] r by simp
  qed
  ultimately show ?thesis
    using finish_shape [OF sh al] finish_simps(2) [OF sh al] ida
    unfolding sweep_def by (simp add: t'a)
qed

text \<open>The frame reads nothing but the nodes and the variable store of the tree before.\<close>

lemma inner_cong:
  assumes "qt_nodes s' = qt_nodes s" and "qt_VariableStore s' = qt_VariableStore s"
  shows "inner a s' t = inner a s t"
  unfolding inner_def static_def handles_shrink_def args_ok_def owned_def descends_def parent_of_def [abs_def]
    assms ..

text \<open>A disposed node is left alone, any other is swept; the fuel is the room above it.\<close>

definition disposes :: "nat \<Rightarrow> (addr \<Rightarrow> QTree \<Rightarrow> QTree option) \<Rightarrow> addr \<Rightarrow> bool" where
  "disposes L d a \<longleftrightarrow> (\<forall>t. shape t \<longrightarrow> length (qt_nodes t) = L \<longrightarrow>
     (\<exists>t'. d a t = Some t' \<and> (if tn_disposed (node t a) then t' = t else sweep a t t')))"

lemma dispose_each_inner:
  assumes "\<And>c. a < c \<Longrightarrow> c < L \<Longrightarrow> disposes L d c" and "a < L"
    and "shape t" and "length (qt_nodes t) = L"
  shows "\<exists>t'. dispose_each d a is t = Some t' \<and> inner a t t'"
  using assms(3,4)
proof (induction "is" arbitrary: t)
  case Nil
  then show ?case by (simp add: inner_refl)
next
  case (Cons i "is")
  show ?case
  proof (cases "i < length (tn_Children (node t a))")
    case True
    let ?c = "tn_Children (node t a) ! i"
    have c: "?c < L" "tn_Parent (node t ?c) = Some a" "a < ?c"
      using shape_child [OF Cons.prems(1), of a ?c] assms(2) True Cons.prems(2) by auto
    obtain t1 where t1: "d ?c t = Some t1"
      and sw: "if tn_disposed (node t ?c) then t1 = t else sweep ?c t t1"
      using assms(1) [OF c(3,1)] Cons.prems unfolding disposes_def by blast
    have in1: "inner a t t1"
      using sw sweep_inner [OF Cons.prems(1), of ?c t1 a] c Cons.prems inner_refl
      by (auto split: if_splits)
    then have "shape t1" "length (qt_nodes t1) = L"
      using Cons.prems(2) by (auto simp: inner_def static_def)
    then obtain t' where "dispose_each d a is t1 = Some t'" "inner a t1 t'"
      using Cons.IH by blast
    then show ?thesis using True t1 inner_trans [OF in1] by auto
  qed (use Cons in simp)
qed

lemma Dispose_disposes:
  "a < L \<Longrightarrow> L - a \<le> fuel \<Longrightarrow> disposes L (Dispose fuel) a"
proof (induction fuel arbitrary: a)
  case (Suc fuel)
  show ?case
    unfolding disposes_def
  proof (intro allI impI)
    fix t assume t: "shape t" "length (qt_nodes t) = L"
    let ?t1 = "nextUpdate a \<lparr>upd_Operation = Operation_Delete, upd_Child = None\<rparr>
                (upd_node a (\<lambda>n. n\<lparr>tn_disposed := True\<rparr>) t)"
    show "\<exists>t'. Dispose (Suc fuel) a t = Some t' \<and>
        (if tn_disposed (node t a) then t' = t else sweep a t t')"
    proof (cases "tn_disposed (node t a)")
      case False
      have "shape ?t1" "length (qt_nodes ?t1) = L"
        using t mark_shape [of a t] shape_cong [of ?t1 "upd_node a (\<lambda>n. n\<lparr>tn_disposed := True\<rparr>) t"]
        by auto
      moreover have "disposes L (Dispose fuel) c" if "a < c" "c < L" for c
        using Suc that by simp
      ultimately obtain t2 where t2: "dispose_each (Dispose fuel) a
          [0 ..< length (tn_Children (node ?t1 a))] ?t1 = Some t2" "inner a ?t1 t2"
        using dispose_each_inner [of a L "Dispose fuel" ?t1] Suc.prems(1) by blast
      then have "inner a (upd_node a (\<lambda>n. n\<lparr>tn_disposed := True\<rparr>) t) t2"
        by (simp add: inner_cong [of ?t1 "upd_node a (\<lambda>n. n\<lparr>tn_disposed := True\<rparr>) t"])
      then show ?thesis
        using finish_sweep [OF t(1)] Suc.prems(1) t(2) t2(1) False by (auto simp: Let_def)
    qed simp
  qed
qed simp

subsection \<open>Mutations\<close>

definition mutation_args :: "RGQLQueryTreeMutation_NodeMutation list \<Rightarrow> nat" where
  "mutation_args aqns =
     sum_list (map (\<lambda>m. case nm_node m of None \<Rightarrow> 0 | Some d \<Rightarrow> arg_count d) aqns)"

text \<open>
  What a mutation may do to the nodes that were there: each keeps its schema type, its
  parent, its arguments and the values that they lead to, or it is disposed and holds no
  argument any more.
\<close>

definition evolves :: "QTree \<Rightarrow> QTree \<Rightarrow> bool" where
  "evolves t t' \<longleftrightarrow> length (qt_nodes t) \<le> length (qt_nodes t') \<and>
     (\<forall>a < length (qt_nodes t).
        same_node (node t a) (node t' a) \<and> (\<forall>r \<in> set (handles (node t a)).
           ref_contents (qt_VariableStore t') r = ref_contents (qt_VariableStore t) r) \<or>
        core (node t' a) = core (node t a) \<and> tn_disposed (node t' a) \<and>
        tn_Arguments (node t' a) = [])"

lemma evolves_refl [simp]: "evolves t t"
  by (simp add: evolves_def)

lemma evolves_trans:
  assumes "evolves s t" and "evolves t u"
  shows "evolves s u"
  unfolding evolves_def
proof (intro conjI allI impI)
  show "length (qt_nodes s) \<le> length (qt_nodes u)" using assms by (simp add: evolves_def)
  fix a assume a: "a < length (qt_nodes s)"
  then have a': "a < length (qt_nodes t)" using assms(1) by (simp add: evolves_def)
  note 1 = assms(1) [unfolded evolves_def, THEN conjunct2, rule_format, OF a]
    and 2 = assms(2) [unfolded evolves_def, THEN conjunct2, rule_format, OF a']
  show "same_node (node s a) (node u a) \<and> (\<forall>r \<in> set (handles (node s a)).
           ref_contents (qt_VariableStore u) r = ref_contents (qt_VariableStore s) r) \<or>
        core (node u a) = core (node s a) \<and> tn_disposed (node u a) \<and> tn_Arguments (node u a) = []"
    using 1 2 by (elim disjE conjE) (simp_all add: same_node_def handles_def)
qed

lemma grows_evolves:
  assumes "grows t t'" and "args_ok n t"
  shows "evolves t t'"
  using assms handles_owned [of _ t]
  unfolding evolves_def grows_def same_handles_def args_ok_def by blast

lemma sweep_evolves:
  assumes "sweep a t t'" and "args_ok n t"
  shows "evolves t t'"
proof -
  have st: "static t t'" and hs: "handles_shrink t t'" using assms(1) by (simp_all add: sweep_def)
  show ?thesis
    unfolding evolves_def
  proof (intro conjI allI impI)
    show "length (qt_nodes t) \<le> length (qt_nodes t')" using st by (simp add: static_def)
    fix x assume x: "x < length (qt_nodes t)"
    have k: "kept_or_gone (node t x) (node t' x)" using st x by (simp add: static_def)
    have "\<forall>r \<in> set (handles (node t x)). ref_contents (qt_VariableStore t') r =
        ref_contents (qt_VariableStore t) r" if "same_node (node t x) (node t' x)"
    proof -
      have "handles (node t' x) = handles (node t x)"
        using that by (simp add: same_node_def handles_def)
      then have "set (handles (node t x)) \<subseteq> set (owned t')"
        using handles_owned [of x t'] x st by (simp add: static_def)
      then show ?thesis using hs assms(2) unfolding handles_shrink_def by blast
    qed
    then show "same_node (node t x) (node t' x) \<and> (\<forall>r \<in> set (handles (node t x)).
           ref_contents (qt_VariableStore t') r = ref_contents (qt_VariableStore t) r) \<or>
        core (node t' x) = core (node t x) \<and> tn_disposed (node t' x) \<and> tn_Arguments (node t' x) = []"
      using k unfolding kept_or_gone_def by blast
  qed
qed

lemma sweep_inv:
  assumes "sweep a t t'" and "qt_inv defs lookup n t"
  shows "qt_inv defs lookup n t'"
  using assms static_typed [of t t'] unfolding sweep_def qt_inv_def handles_shrink_def by blast

lemma Dispose_inv:
  assumes "qt_inv defs lookup n t" and "a < length (qt_nodes t)"
  shows "\<exists>t'. Dispose (length (qt_nodes t)) a t = Some t' \<and> qt_inv defs lookup n t' \<and> evolves t t'"
proof -
  have "disposes (length (qt_nodes t)) (Dispose (length (qt_nodes t))) a"
    using assms(2) by (intro Dispose_disposes) auto
  then obtain t' where t': "Dispose (length (qt_nodes t)) a t = Some t'"
    "if tn_disposed (node t a) then t' = t else sweep a t t'"
    using assms(1) unfolding disposes_def qt_inv_def by blast
  then show ?thesis
    using assms(1) sweep_inv [of a t t' defs lookup n] sweep_evolves [of a t t' n]
    by (cases "tn_disposed (node t a)") (auto simp: qt_inv_def)
qed

lemma apply_nodes_inv:
  "apply_nodes defs lookup aqns t = Some (t', e) \<Longrightarrow>
     qt_inv defs lookup (n + mutation_args aqns) t \<Longrightarrow> qt_inv defs lookup n t' \<and> evolves t t'"
proof (induction aqns arbitrary: t)
  case Nil
  then show ?case by (simp add: mutation_args_def)
next
  case (Cons aqn aqns)
  have inv: "qt_inv defs lookup (n + mutation_args aqns) t"
    by (rule qt_inv_mono [OF Cons.prems(2)]) (simp add: mutation_args_def)
  have on: "qt_inv defs lookup n t' \<and> evolves t t'"
    if "apply_nodes defs lookup aqns s = Some (t', e)"
      and "qt_inv defs lookup (n + mutation_args aqns) s" and "evolves t s" for s
    using Cons.IH [OF that(1,2)] evolves_trans [OF that(3)] by blast
  show ?case
  proof (cases "qt_RootNodeMap t (nm_node_id aqn)")
    case None
    then show ?thesis using Cons.prems(1) on [of t] inv by simp
  next
    case (Some nod)
    have nod: "nod < length (qt_nodes t)"
      using shape_map [OF _ Some] inv by (simp add: qt_inv_def)
    consider (add) "nm_operation aqn = SUBTREE_ADD_CHILD"
      | (del) "nm_operation aqn = SUBTREE_DELETE" "nm_node_id aqn \<noteq> 0" "nod \<noteq> 0"
      | (skip) "apply_nodes defs lookup aqns t = Some (t', e)"
      using Cons.prems(1) Some by (auto split: if_splits)
    then show ?thesis
    proof cases
      case add
      then obtain data t1 e1 where d: "nm_node aqn = Some data"
        and ac: "AddChild defs lookup nod data t = Some (t1, e1)"
        using Cons.prems(1) Some by (auto split: option.splits)
      have "qt_inv defs lookup (n + mutation_args aqns + arg_count data) t"
        using Cons.prems(2) d by (simp add: mutation_args_def ac_simps)
      then have t1: "qt_inv defs lookup (n + mutation_args aqns) t1" "grows t t1"
        using AddChild_inv(1) [OF ac] nod by blast+
      have ev: "evolves t t1" using grows_evolves [OF t1(2)] inv by (auto simp: qt_inv_def)
      show ?thesis
      proof (cases e1)
        case None
        then show ?thesis using Cons.prems(1) Some add d ac on [OF _ t1(1) ev] by simp
      next
        case (Some e')
        then have "t' = t1"
          using Cons.prems(1) \<open>qt_RootNodeMap t (nm_node_id aqn) = Some nod\<close> add d ac by simp
        then show ?thesis using qt_inv_mono [OF t1(1)] ev by simp
      qed
    next
      case del
      obtain t1 where "Dispose (length (qt_nodes t)) nod t = Some t1"
        "qt_inv defs lookup (n + mutation_args aqns) t1" "evolves t t1"
        using Dispose_inv [OF inv nod] by blast
      then show ?thesis using Cons.prems(1) Some del on [of t1] by simp
    next
      case skip
      then show ?thesis using on [of t] inv by simp
    qed
  qed
qed

lemma put_all:
  assumes "vs_inv n vs"
  shows "vs_inv n (fold (\<lambda>v vs. fst (VariableStore_Put v vs)) vbs vs) \<and>
     same_handles vs (fold (\<lambda>v vs. fst (VariableStore_Put v vs)) vbs vs)"
  using assms
proof (induction vbs arbitrary: vs)
  case (Cons v vbs)
  let ?vs = "fst (VariableStore_Put v vs)"
  have "same_handles vs ?vs"
    using vs_frame_value [OF Cons.prems Put_frame]
    by (auto simp: same_handles_def ref_contents_def live_ref_def [of vs])
  then show ?case using Cons.IH [OF Put_inv [OF Cons.prems]] same_handles_trans by auto
qed simp

text \<open>Replacing the variable store by one that keeps the handles keeps the invariant.\<close>

lemma store_inv:
  assumes "qt_inv defs lookup m t" and "vs_inv n vs" and "same_handles (qt_VariableStore t) vs"
  shows "qt_inv defs lookup n (t\<lparr>qt_VariableStore := vs\<rparr>)" and "evolves t (t\<lparr>qt_VariableStore := vs\<rparr>)"
proof -
  have "owned (t\<lparr>qt_VariableStore := vs\<rparr>) = owned t" by (simp add: owned_def)
  then show "qt_inv defs lookup n (t\<lparr>qt_VariableStore := vs\<rparr>)"
    using assms by (simp add: qt_inv_def shape_def typed_def args_ok_def same_handles_def)
  show "evolves t (t\<lparr>qt_VariableStore := vs\<rparr>)"
    using assms(1,3) handles_owned [of _ t]
    by (auto simp: evolves_def qt_inv_def args_ok_def same_handles_def)
qed

lemma gc_handles:
  assumes "vs_inv n vs"
  shows "same_handles vs (fst (VariableStore_GarbageCollect order vs))"
proof -
  obtain vs' removed where gc: "VariableStore_GarbageCollect order vs = (vs', removed)" by fastforce
  show ?thesis
    using GarbageCollect_fields [OF gc] gc
    by (auto simp: same_handles_def live_ref_def ref_contents_def GetVarID_def GetValue_def)
qed

lemma mutation_inv:
  assumes "qt_inv defs lookup (n + mutation_args (tm_node_mutation m)) t"
    and "ApplyTreeMutation defs lookup ord m t = Some (t', e)"
  shows "qt_inv defs lookup n t' \<and> evolves t t'"
proof -
  let ?vs = "fold (\<lambda>v vs. fst (VariableStore_Put v vs)) (tm_variables m) (qt_VariableStore t)"
  let ?t1 = "t\<lparr>qt_VariableStore := ?vs\<rparr>"
  have put: "vs_inv (n + mutation_args (tm_node_mutation m)) ?vs" "same_handles (qt_VariableStore t) ?vs"
    using put_all assms(1) by (auto simp: qt_inv_def args_ok_def)
  note t1 = store_inv [OF assms(1) put]
  obtain t2 where t2: "apply_nodes defs lookup (tm_node_mutation m) ?t1 = Some (t2, e)"
    and t': "t' = (if e = None then t2\<lparr>qt_VariableStore := fst (VariableStore_GarbageCollect
                        (ord (qt_VariableStore t2)) (qt_VariableStore t2))\<rparr> else t2)"
    using assms(2) by (auto simp: ApplyTreeMutation_def Let_def split: option.splits)
  have inv2: "qt_inv defs lookup n t2" and ev2: "evolves t t2"
    using apply_nodes_inv [OF t2 t1(1)] evolves_trans [OF t1(2)] by auto
  have "vs_inv n (qt_VariableStore t2)" using inv2 by (simp add: qt_inv_def args_ok_def)
  then show ?thesis
    using store_inv [OF inv2 GarbageCollect_inv gc_handles] inv2 ev2 evolves_trans
    by (auto simp: t')
qed


text \<open>
  The range in \<open>Dispose\<close> and the children that leave the slice while it runs: after \<open>i\<close>
  steps the slice holds the \<open>i\<close> children that were skipped, then the rest from position
  \<open>2 * i\<close> on.
\<close>

lemma remove1_after: "x \<notin> set xs \<Longrightarrow> remove1 x (xs @ x # ys) = xs @ ys"
  by (simp add: remove1_append)

lemma dispose_each_alternates:
  assumes "\<And>c. a < c \<Longrightarrow> c < L \<Longrightarrow> disposes L d c" and "a < L"
    and "shape t" and "length (qt_nodes t) = L"
    and "tn_Children (node t a) = skipped @ rest" and "length rest + length skipped \<le> n"
    and "\<forall>c \<in> set rest. \<not> tn_disposed (node t c)"
    and "dispose_each d a [length skipped ..< n] t = Some t'"
  shows "(\<forall>k < length rest. tn_disposed (node t' (rest ! k)) = even k) \<and>
     (\<forall>x < L. tn_Parent (node t x) = Some a \<longrightarrow> x \<notin> set rest \<longrightarrow>
        tn_disposed (node t' x) = tn_disposed (node t x))"
  using assms(3-8)
proof (induction "length rest" arbitrary: t skipped rest rule: less_induct)
  case less
  show ?case
  proof (cases rest)
    case Nil
    have "dispose_each d a is t = Some t" if "\<forall>i \<in> set is. length skipped \<le> i" for "is"
      using that less.prems(3) Nil by (induction "is") auto
    then have "t' = t" using less.prems(6) by simp
    then show ?thesis using Nil by simp
  next
    case (Cons c rest1)
    have c: "c < L" "tn_Parent (node t c) = Some a" "a < c"
      using shape_child [OF less.prems(1), of a c] assms(2) less.prems(2,3) Cons by auto
    have dist: "distinct (skipped @ rest)"
      using shape_distinct [OF less.prems(1), of a] assms(2) less.prems(2,3) by simp
    have n: "length skipped < n" using less.prems(4) Cons by simp
    obtain t1 where t1: "d c t = Some t1" "sweep c t t1"
      using assms(1) [OF c(3,1)] less.prems(1,2,5) Cons unfolding disposes_def
      by (metis (full_types) list.set_intros(1))
    have rest1: "dispose_each d a [Suc (length skipped) ..< n] t1 = Some t'"
      using less.prems(3,6) n t1(1) Cons by (simp add: upt_conv_Cons nth_append)
    have st: "shape t1" "static t t1" using t1(2) by (auto simp: sweep_def)
    have len1: "length (qt_nodes t1) = L" using st(2) less.prems(2) by (simp add: static_def)
    have "\<not> descends t c a" using c(3) descends_le [OF less.prems(1), of c a] by auto
    then have kids: "tn_Children (node t1 a) = skipped @ rest1"
      using t1(2) c(2) assms(2) less.prems(2,3) dist Cons by (simp add: sweep_def remove1_after)
    have sib: "tn_disposed (node t1 x) = tn_disposed (node t x)"
      if "x < L" and "tn_Parent (node t x) = Some a" and "x \<noteq> c" for x
      using sibling_not_descends [OF less.prems(1) c(2) that(2)] that c(1) less.prems(2) t1(2)
      by (simp add: sweep_def same_node_def)
    have par: "tn_Parent (node t1 x) = tn_Parent (node t x)" if "x < L" for x
      using static_parent [OF st(2)] that less.prems(2) by simp
    have gone: "tn_disposed (node t1 c)" using t1(2) by (simp add: sweep_def)
    show ?thesis
    proof (cases rest1)
      case Nil
      have "dispose_each d a is t1 = Some t1" if "\<forall>i \<in> set is. length skipped \<le> i" for "is"
        using that kids Nil by (induction "is") auto
      then have "t' = t1" using rest1 by simp
      then show ?thesis using Cons Nil gone sib by simp
    next
      case (Cons e rest2)
      have kids2: "tn_Children (node t1 a) = (skipped @ [e]) @ rest2" using kids Cons by simp
      have mem: "\<forall>x \<in> set rest. x < L \<and> tn_Parent (node t x) = Some a"
        using shape_child [OF less.prems(1), of a] assms(2) less.prems(2,3) by auto
      have "\<forall>x \<in> set rest2. \<not> tn_disposed (node t1 x)"
        using sib mem dist less.prems(5) \<open>rest = c # rest1\<close> Cons by auto
      then have ih: "(\<forall>k < length rest2. tn_disposed (node t' (rest2 ! k)) = even k) \<and>
          (\<forall>x < L. tn_Parent (node t1 x) = Some a \<longrightarrow> x \<notin> set rest2 \<longrightarrow>
            tn_disposed (node t' x) = tn_disposed (node t1 x))"
        using less.hyps [OF _ st(1) len1 kids2] rest1 less.prems(4) \<open>rest = c # rest1\<close> Cons by simp
      show ?thesis
      proof (intro conjI allI impI)
        fix k assume k: "k < length rest"
        show "tn_disposed (node t' (rest ! k)) = even k"
        proof (cases "k < 2")
          case True
          have "tn_disposed (node t' c)" and "\<not> tn_disposed (node t' e)"
            using ih gone sib par mem c dist less.prems(5) \<open>rest = c # rest1\<close> Cons by auto
          then show ?thesis
            using True \<open>rest = c # rest1\<close> Cons by (cases k) (auto simp: less_Suc_eq)
        next
          case False
          then obtain j where "k = Suc (Suc j)" by (metis One_nat_def Suc_1 less_Suc0 less_antisym
              less_imp_Suc_add not_less_eq)
          then show ?thesis using ih k \<open>rest = c # rest1\<close> Cons by simp
        qed
      next
        fix x assume "x < L" and "tn_Parent (node t x) = Some a" and "x \<notin> set rest"
        then show "tn_disposed (node t' x) = tn_disposed (node t x)"
          using ih par sib \<open>rest = c # rest1\<close> Cons by simp
      qed
    qed
  qed
qed

text \<open>
  \<open>Dispose\<close> reaches only every other child. When none of a node's children is disposed
  yet, disposing of the node disposes of the children at the even positions of \<open>Children\<close>
  and leaves those at the odd positions, with their arguments, undisposed.
\<close>

theorem dispose_skips_every_other_child:
  assumes "qt_inv defs lookup n t" and "a < length (qt_nodes t)" and "\<not> tn_disposed (node t a)"
    and "\<forall>c \<in> set (tn_Children (node t a)). \<not> tn_disposed (node t c)"
    and "Dispose (length (qt_nodes t)) a t = Some t'"
  shows "\<forall>k < length (tn_Children (node t a)).
     tn_disposed (node t' (tn_Children (node t a) ! k)) = even k"
proof -
  let ?L = "length (qt_nodes t)" and ?u = "upd_node a (\<lambda>n. n\<lparr>tn_disposed := True\<rparr>) t"
  let ?t1 = "nextUpdate a \<lparr>upd_Operation = Operation_Delete, upd_Child = None\<rparr> ?u"
  let ?cs = "tn_Children (node t a)"
  have sh: "shape t" using assms(1) by (simp add: qt_inv_def)
  obtain fuel where fuel: "?L = Suc fuel" using assms(2) by (cases ?L) auto
  obtain t2 where t2: "dispose_each (Dispose fuel) a [0 ..< length ?cs] ?t1 = Some t2"
    and t': "t' = finish_dispose a t2"
    using assms(3,5) unfolding fuel by (auto simp: Let_def node_upd_field)
  have sh1: "shape ?t1" and len1: "length (qt_nodes ?t1) = ?L" and kids1: "tn_Children (node ?t1 a) = [] @ ?cs"
    using sh mark_shape [of a t] shape_cong [of ?t1 ?u] by (auto simp: node_upd_field)
  have dis: "disposes ?L (Dispose fuel) c" if "a < c" "c < ?L" for c
    using that fuel by (intro Dispose_disposes) auto
  have kids: "\<forall>c \<in> set ?cs. c < ?L \<and> a < c" using shape_child [OF sh assms(2)] by blast
  then have undisposed: "\<forall>c \<in> set ?cs. \<not> tn_disposed (node ?t1 c)"
    using assms(4) by (auto simp: node_upd_node)
  have alt: "\<forall>k < length ?cs. tn_disposed (node t2 (?cs ! k)) = even k"
    using dispose_each_alternates [OF dis assms(2) sh1 len1 kids1 _ undisposed, of "length ?cs"] t2
    by simp
  have "inner a ?t1 t2"
    using dispose_each_inner [OF dis assms(2) sh1 len1, of "[0 ..< length ?cs]"] t2 by auto
  then have sh2: "shape t2" and len2: "length (qt_nodes t2) = ?L"
    by (auto simp: inner_def static_def)
  have "tn_disposed (node t' c) = tn_disposed (node t2 c)" if "c \<in> set ?cs" for c
    using finish_nodes [OF sh2, of a c] kids that assms(2) len2 by (auto simp: t')
  then show ?thesis using alt by simp
qed

lemma grows_children:
  "grows t t' \<Longrightarrow> a < length (qt_nodes t) \<Longrightarrow> c \<in> set (tn_Children (node t a)) \<Longrightarrow>
     c \<in> set (tn_Children (node t' a))"
  unfolding grows_def by (metis Un_iff set_append)

text \<open>
  C5: every tree mutation, whether it succeeds or stops at an error, keeps the tree well
  formed, keeps every node on the type that the schema gives its field, and keeps every
  argument handle live, held by one node. A node that was there keeps its arguments and
  their values, garbage collection included, or it is disposed and holds none.
\<close>

theorem mutation_preserves_tree:
  assumes "qt_inv defs lookup (n + mutation_args (tm_node_mutation m)) t"
    and "ApplyTreeMutation defs lookup ord m t = Some (t', e)"
  shows "qt_inv defs lookup n t' \<and> evolves t t'"
  using mutation_inv [OF assms] .

subsection \<open>What adding a child does\<close>

lemma new_tree_inv:
  "n < 2 ^ 32 \<Longrightarrow> qt_inv defs lookup n (NewQueryTree root)"
  by (auto simp: qt_inv_def shape_def typed_def args_ok_def owned_def NewQueryTree_def
      new_node_def handles_def vs_inv_new)

text \<open>The parts of the new node after a success and after a failure.\<close>

lemma place_node:
  assumes "qt < length (qt_nodes t)"
  shows "node (place qt i fname vs f t) (length (qt_nodes t)) = f (new_node i (Some qt) fname None)"
    and "length (qt_nodes (place qt i fname vs f t)) = Suc (length (qt_nodes t))"
    and "length (qt_nodes t) \<in> set (tn_Children (node (mint_node qt i fname t) qt))"
  using assms by (simp_all add: place_def node_upd_node node_mint)

lemma AddChild_ok_cases:
  assumes "AddChild defs lookup qt (RGQLQueryTreeNode i fname args dirs children u) t = Some (t', None)"
  obtains ast isPrim prim vs m t3
    where "resolve_selection defs lookup (tn_AST (node t qt)) i fname = Some (Inr (ast, isPrim, prim))"
      and "bind_variables (arg_list args) [] (qt_VariableStore t) = (vs, Inr m)"
      and "AddChildren defs lookup (length (qt_nodes t)) children
             (place qt i fname vs (\<lambda>n. n\<lparr>tn_AST := ast, tn_IsPrimitive := isPrim,
                tn_PrimitiveName := prim, tn_Arguments := m\<rparr>) t) = Some t3"
      and "t' = nextUpdate qt \<lparr>upd_Operation = Operation_AddChild,
             upd_Child = Some (length (qt_nodes t))\<rparr> t3"
  using assms
  by (auto simp: Let_def place_def split: option.splits sum.splits prod.splits if_splits)

lemma AddChild_error_cases:
  assumes "AddChild defs lookup qt (RGQLQueryTreeNode i fname args dirs children u) t = Some (t', Some e)"
  shows "qt = 0 \<and> qt_RootNodeMap t i \<noteq> None \<and> t' = t \<and> e = InvalidNodeID i \<or>
     \<not> (qt = 0 \<and> qt_RootNodeMap t i \<noteq> None) \<and>
     (\<exists>vs. t' = SetError (length (qt_nodes t)) e ((mint_node qt i fname t)\<lparr>qt_VariableStore := vs\<rparr>))"
proof (cases "qt = 0 \<and> qt_RootNodeMap t i \<noteq> None")
  case True
  then show ?thesis using assms by auto
next
  case False
  have *: "mint_node qt i fname t = (mint_node qt i fname t)\<lparr>qt_VariableStore := qt_VariableStore t\<rparr>"
    by (simp add: mint_node_def)
  have "t' = SetError (length (qt_nodes t)) e (mint_node qt i fname t) \<or>
     (\<exists>vs. t' = SetError (length (qt_nodes t)) e ((mint_node qt i fname t)\<lparr>qt_VariableStore := vs\<rparr>))"
    using assms [unfolded AddChild.simps if_not_P [OF False] Let_def]
    by (auto split: option.splits sum.splits prod.splits)
  then show ?thesis using * False by metis
qed

text \<open>
  C20: \<open>AddChild\<close> on a well-formed tree. Without an error, the node minted for the data sits
  under \<open>qt\<close> with the data's id and field name, with the type that the schema gives the
  field, and with one live handle for each argument name, on the variable that the argument
  names. With an error, either the root already had the id and nothing changed, or the new
  node stays in the tree with the error and without a type, and the error was reported
  under its id.
\<close>

theorem add_child_outcome:
  assumes "qt_inv defs lookup (n + arg_count d) t" and "qt < length (qt_nodes t)"
    and "d = RGQLQueryTreeNode i fname args dirs children u"
    and "AddChild defs lookup qt d t = Some (t', e)"
  shows "case e of
     None \<Rightarrow>
       let nod = node t' (length (qt_nodes t))
       in length (qt_nodes t) \<in> set (tn_Children (node t' qt)) \<and>
          tn_Id nod = i \<and> tn_Parent nod = Some qt \<and> tn_FieldName nod = fname \<and> tn_err nod = None \<and>
          resolve_selection defs lookup (tn_AST (node t qt)) i fname =
            Some (Inr (tn_AST nod, tn_IsPrimitive nod, tn_PrimitiveName nod)) \<and>
          fst ` set (tn_Arguments nod) = fa_name ` set args \<and>
          (\<forall>(x, r) \<in> set (tn_Arguments nod). live_ref (qt_VariableStore t') r \<and>
             (x, GetVarID (qt_VariableStore t') r) \<in> set (arg_list args))
   | Some err \<Rightarrow>
       qt = 0 \<and> qt_RootNodeMap t i \<noteq> None \<and> t' = t \<and> err = InvalidNodeID i \<or>
       (let nod = node t' (length (qt_nodes t))
        in length (qt_nodes t') = Suc (length (qt_nodes t)) \<and>
           qt_RootNodeMap t' i = Some (length (qt_nodes t)) \<and> tn_Id nod = i \<and>
           tn_Parent nod = Some qt \<and> tn_err nod = Some err \<and> tn_AST nod = None \<and>
           qt_errCh t' = qt_errCh t @ [(i, err)])"
proof (cases e)
  case None
  let ?L = "length (qt_nodes t)" and ?m = "n + sum_list (map arg_count children)"
  have inv: "qt_inv defs lookup (?m + length (arg_list args)) t"
    using assms(1,3) by (simp add: arg_list_def ac_simps)
  obtain ast isPrim prim vs m t3
    where sel: "resolve_selection defs lookup (tn_AST (node t qt)) i fname =
        Some (Inr (ast, isPrim, prim))"
      and bind: "bind_variables (arg_list args) [] (qt_VariableStore t) = (vs, Inr m)"
      and kids: "AddChildren defs lookup ?L children
             (place qt i fname vs (\<lambda>n. n\<lparr>tn_AST := ast, tn_IsPrimitive := isPrim,
                tn_PrimitiveName := prim, tn_Arguments := m\<rparr>) t) = Some t3"
      and t': "t' = nextUpdate qt \<lparr>upd_Operation = Operation_AddChild, upd_Child = Some ?L\<rparr> t3"
    by (rule AddChild_ok_cases [OF assms(4) [unfolded assms(3) None]])
  let ?t2 = "place qt i fname vs (\<lambda>n. n\<lparr>tn_AST := ast, tn_IsPrimitive := isPrim,
                tn_PrimitiveName := prim, tn_Arguments := m\<rparr>) t"
  note t2 = placed_inv [OF inv assms(2) sel bind]
  have gr: "grows ?t2 t3"
    using AddChild_inv(2) [OF kids conjunct1 [OF t2]] place_node(2) [OF assms(2)] by simp
  have vs: "qt_VariableStore ?t2 = vs" by (simp add: place_def)
  have "qt_inv defs lookup 0 t" by (rule qt_inv_mono [OF inv]) simp
  then have "vs_inv (?m + length (arg_list args)) (qt_VariableStore t)"
    using inv by (simp add: qt_inv_def args_ok_def)
  note b = bind_variables_result(3) [OF this bind refl]
  have nod: "same_node (node ?t2 ?L) (node t' ?L)"
    using gr place_node(2) [OF assms(2)] by (simp add: grows_def t')
  have "?L \<in> set (tn_Children (node ?t2 qt))"
    using place_node(3) [OF assms(2)] assms(2) by (simp add: place_def node_upd_node)
  then have "?L \<in> set (tn_Children (node t' qt))"
    using grows_children [OF gr, of qt ?L] place_node(2) [OF assms(2)] assms(2) by (simp add: t')
  moreover have "live_ref (qt_VariableStore t') r \<and>
      (x, GetVarID (qt_VariableStore t') r) \<in> set (arg_list args)" if "(x, r) \<in> set m" for x r
    using b that gr by (auto simp: grows_def same_handles_def vs t' ref_contents_def)
  ultimately show ?thesis
    using nod b sel None
    by (auto simp: same_node_def core_def place_node(1) [OF assms(2)] new_node_def Let_def
        arg_list_def image_image)
next
  case (Some err)
  have *: "tn_err (node ((mint_node qt i fname t)\<lparr>qt_VariableStore := vs\<rparr>) (length (qt_nodes t))) = None"
    for vs using assms(2) by (simp add: node_mint new_node_def)
  have "qt_errCh (mint_node qt i fname t) = qt_errCh t" by (simp add: mint_node_def)
  then show ?thesis
    using AddChild_error_cases [OF assms(4) [unfolded assms(3) Some]] assms(2) Some
      SetError_fresh [OF *, of err]
    by (auto simp: Let_def node_upd_node node_mint new_node_def)
qed

text \<open>
  only the root checks for duplicate ids. Under any other node, a child with an id that
  is taken replaces the id's entry: the node that had the id, the root included, cannot be
  addressed by a mutation any more.
\<close>

theorem duplicate_id_hijacks_entry:
  assumes "shape t" and "qt < length (qt_nodes t)" and "qt \<noteq> 0"
    and "qt_RootNodeMap t i = Some old"
    and "AddChild defs lookup qt (RGQLQueryTreeNode i fname args dirs [] u) t = Some (t', e)"
  shows "qt_RootNodeMap t' i = Some (length (qt_nodes t)) \<and> length (qt_nodes t) \<noteq> old"
proof -
  have "qt_RootNodeMap t' i = Some (length (qt_nodes t))"
  proof (cases e)
    case None
    show ?thesis
      by (rule AddChild_ok_cases [OF assms(5) [unfolded None]]) (auto simp: place_def)
  next
    case (Some err)
    show ?thesis
      using AddChild_error_cases [OF assms(5) [unfolded Some]] assms(3) by (auto simp: SetError_def)
  qed
  then show ?thesis using shape_map [OF assms(1,4)] by simp
qed

subsection \<open>No crash\<close>

text \<open>
  What the parser guarantees of the definitions: objects and their fields have names, and so
  has the type at the end of a field's wrappers.
\<close>

definition named_type_ok :: "ast_type \<Rightarrow> bool" where
  "named_type_ok t = (UnwrapASTType t \<noteq> Named None)"

definition definition_ok :: "type_definition \<Rightarrow> bool" where
  "definition_ok d = ((is_object d \<longrightarrow> od_name d \<noteq> None) \<and>
     (\<forall>f \<in> set (od_fields d). fd_field_name f \<noteq> None \<and> named_type_ok (fd_type f)))"

definition schema_ok :: "definitions \<Rightarrow> QTree \<Rightarrow> bool" where
  "schema_ok defs t = (\<forall>n \<in> set (qt_nodes t). case tn_AST n of None \<Rightarrow> True
     | Some a \<Rightarrow> definition_ok (defs ! a))"

lemma resolve_type_total: "named_type_ok t \<Longrightarrow> resolve_type lookup t \<noteq> None"
proof -
  assume "named_type_ok t"
  moreover have "UnwrapASTType (strip_List u) = UnwrapASTType u"
    "UnwrapASTType (strip_NonNull u) = UnwrapASTType u" for u
    by (cases u; simp add: strip_List_def strip_NonNull_def)+
  ultimately have "strip_NonNull (strip_List t) \<noteq> Named None"
    unfolding named_type_ok_def by (metis UnwrapASTType.simps(3))
  then show ?thesis
    by (auto simp: resolve_type_def Let_def split: ast_type.splits option.splits)
qed

lemma resolve_selection_total:
  assumes "\<And>a. ast = Some a \<Longrightarrow> definition_ok (defs ! a)"
  shows "resolve_selection defs lookup ast i fname \<noteq> None"
proof (cases ast)
  case (Some a)
  have ok: "definition_ok (defs ! a)" using assms Some by simp
  have tn: "resolve_type lookup (fd_type typeNameDef) \<noteq> None"
    by (rule resolve_type_total) (simp add: typeNameDef_def named_type_ok_def)
  have "find_field fname (od_fields (defs ! a)) \<noteq> None"
    using ok by (intro find_field_total) (auto simp: definition_ok_def)
  moreover have "resolve_type lookup (fd_type f) \<noteq> None"
    if "find_field fname (od_fields (defs ! a)) = Some (Some f)" for f
    using find_field_Some [OF that] ok by (intro resolve_type_total) (auto simp: definition_ok_def)
  ultimately show ?thesis
    using Some ok tn by (auto simp: resolve_selection_def definition_ok_def split: option.splits)
qed (simp add: resolve_selection_def)

definition lookup_ok :: "definitions \<Rightarrow> (ast_type \<Rightarrow> addr option) \<Rightarrow> bool" where
  "lookup_ok defs lookup \<longleftrightarrow> (\<forall>t a. lookup t = Some a \<longrightarrow> definition_ok (defs ! a))"

lemma schema_ok_node:
  "schema_ok defs t \<longleftrightarrow> (\<forall>a < length (qt_nodes t). \<forall>d. tn_AST (node t a) = Some d \<longrightarrow>
     definition_ok (defs ! d))"
  unfolding schema_ok_def all_set_conv_all_nth by (auto split: option.splits)

lemma mint_same_store [simp]:
  "(mint_node qt i fname t)\<lparr>qt_VariableStore := qt_VariableStore t\<rparr> = mint_node qt i fname t"
  by (simp add: mint_node_def)

lemma resolve_selection_ast:
  "resolve_selection defs lookup ast i fname = Some (Inr (Some d, p, s)) \<Longrightarrow> \<exists>t. lookup t = Some d"
  by (auto simp: resolve_selection_def resolve_type_def Let_def
      split: option.splits if_splits ast_type.splits)

lemma place_schema_ok:
  assumes "schema_ok defs t" and "qt < length (qt_nodes t)"
    and "\<And>d. tn_AST (f (new_node i (Some qt) fname None)) = Some d \<Longrightarrow> definition_ok (defs ! d)"
    and "\<And>x. tn_Parent (f x) = tn_Parent x"
  shows "schema_ok defs (place qt i fname vs f t)"
  unfolding schema_ok_node
proof (intro allI impI)
  fix a d
  assume a: "a < length (qt_nodes (place qt i fname vs f t))"
    and d: "tn_AST (node (place qt i fname vs f t) a) = Some d"
  show "definition_ok (defs ! d)"
  proof (cases "a = length (qt_nodes t)")
    case True
    then show ?thesis using assms(3) d place_node(1) [OF assms(2)] by simp
  next
    case False
    then have "a < length (qt_nodes t)" using a place_node(2) [OF assms(2)] by simp
    moreover from this have "tn_AST (node (place qt i fname vs f t) a) = tn_AST (node t a)"
      using assms(2) by (simp add: place_def node_upd_node node_mint)
    ultimately show ?thesis using assms(1) d by (simp add: schema_ok_node)
  qed
qed

lemma fail_schema_ok:
  assumes "schema_ok defs t" and "qt < length (qt_nodes t)"
  shows "schema_ok defs (SetError (length (qt_nodes t)) e ((mint_node qt i fname t)\<lparr>qt_VariableStore := vs\<rparr>))"
    and "length (qt_nodes t) \<le> length (qt_nodes
      (SetError (length (qt_nodes t)) e ((mint_node qt i fname t)\<lparr>qt_VariableStore := vs\<rparr>)))"
proof -
  let ?t1 = "(mint_node qt i fname t)\<lparr>qt_VariableStore := vs\<rparr>"
  have "tn_err (node ?t1 (length (qt_nodes t))) = None"
    using assms(2) by (simp add: node_mint new_node_def)
  note n = SetError_fresh [OF this, of e]
  have "schema_ok defs (place qt i fname vs (\<lambda>n. n\<lparr>tn_err := Some e\<rparr>) t)"
    by (rule place_schema_ok [OF assms]) (simp_all add: new_node_def)
  then show "schema_ok defs (SetError (length (qt_nodes t)) e ?t1)"
    and "length (qt_nodes t) \<le> length (qt_nodes (SetError (length (qt_nodes t)) e ?t1))"
    using n by (simp_all add: schema_ok_def place_def)
qed

lemma AddChild_total:
  "lookup_ok defs lookup \<Longrightarrow> schema_ok defs t \<Longrightarrow> qt < length (qt_nodes t) \<Longrightarrow>
     \<exists>t' e. AddChild defs lookup qt d t = Some (t', e) \<and> schema_ok defs t' \<and>
       length (qt_nodes t) \<le> length (qt_nodes t')"
  "lookup_ok defs lookup \<Longrightarrow> schema_ok defs t \<Longrightarrow> qt < length (qt_nodes t) \<Longrightarrow>
     \<exists>t'. AddChildren defs lookup qt ds t = Some t' \<and> schema_ok defs t' \<and>
       length (qt_nodes t) \<le> length (qt_nodes t')"
proof (induction defs lookup qt d t and defs lookup qt ds t rule: AddChild_AddChildren.induct)
  case (1 defs lookup qt i fname args dirs children u t)
  let ?L = "length (qt_nodes t)"
  show ?case
  proof (cases "qt = 0 \<and> qt_RootNodeMap t i \<noteq> None")
    case True
    then show ?thesis using 1 by simp
  next
    case False
    note add = AddChild.simps [of defs lookup qt i fname args dirs children u t,
        unfolded if_not_P [OF False] Let_def]
    note fail = fail_schema_ok [OF 1(3,4)]
    have "definition_ok (defs ! a)" if "tn_AST (node t qt) = Some a" for a
      using 1(3,4) that by (simp add: schema_ok_node)
    then obtain res where sel: "resolve_selection defs lookup (tn_AST (node t qt)) i fname = Some res"
      using resolve_selection_total [of "tn_AST (node t qt)"] by blast
    obtain vs b where bind: "bind_variables (arg_list args) [] (qt_VariableStore t) = (vs, b)"
      by fastforce
    show ?thesis
    proof (cases res)
      case (Inl e)
      then show ?thesis using add sel fail [where vs = "qt_VariableStore t"] by simp
    next
      case (Inr r)
      obtain ast isPrim prim where r: "r = (ast, isPrim, prim)" by (cases r)
      show ?thesis
      proof (cases b)
        case (Inl nk)
        then show ?thesis using add sel bind \<open>res = Inr r\<close> r fail by (cases nk) simp
      next
        case (Inr m)
        let ?t2 = "place qt i fname vs (\<lambda>n. n\<lparr>tn_AST := ast, tn_IsPrimitive := isPrim,
                      tn_PrimitiveName := prim, tn_Arguments := m\<rparr>) t"
        have "definition_ok (defs ! d)" if "ast = Some d" for d
          using resolve_selection_ast [of defs lookup "tn_AST (node t qt)" i fname d isPrim prim]
            sel \<open>res = Inr r\<close> r that 1(2) by (auto simp: lookup_ok_def)
        then have "schema_ok defs ?t2"
          by (intro place_schema_ok [OF 1(3,4)]) (auto simp: new_node_def)
        moreover have bind': "(vs, b) = bind_variables (arg_list args) []
            (qt_VariableStore (mint_node qt i fname t))" using bind by simp
        ultimately obtain t3 where "AddChildren defs lookup ?L children ?t2 = Some t3"
            "schema_ok defs t3" "length (qt_nodes ?t2) \<le> length (qt_nodes t3)"
          using 1(1) [OF False refl refl sel \<open>res = Inr r\<close> r [symmetric] refl bind' Inr refl 1(2)]
          by (auto simp: place_def)
        then show ?thesis
          using add sel bind \<open>res = Inr r\<close> r Inr place_node(2) [OF 1(4)]
          by (simp add: place_def schema_ok_def)
      qed
    qed
  qed
next
  case (2 defs lookup qt t)
  then show ?case by simp
next
  case (3 defs lookup qt d ds t)
  obtain t1 e1 where add: "AddChild defs lookup qt d t = Some (t1, e1)" and "schema_ok defs t1"
    and "length (qt_nodes t) \<le> length (qt_nodes t1)"
    using 3(1,3-5) by blast
  then show ?case using 3(2) [OF add refl 3(3)] 3(5) by auto
qed

lemma evolves_schema_ok:
  "evolves t t' \<Longrightarrow> length (qt_nodes t') = length (qt_nodes t) \<Longrightarrow> schema_ok defs t \<Longrightarrow> schema_ok defs t'"
  unfolding schema_ok_node evolves_def same_node_def core_def by fastforce

lemma Dispose_total:
  assumes "qt_inv defs lookup n t" and "schema_ok ds t" and "a < length (qt_nodes t)"
  shows "\<exists>t'. Dispose (length (qt_nodes t)) a t = Some t' \<and> qt_inv defs lookup n t' \<and> schema_ok ds t'"
proof -
  have "disposes (length (qt_nodes t)) (Dispose (length (qt_nodes t))) a"
    using assms(3) by (intro Dispose_disposes) auto
  then obtain t' where t': "Dispose (length (qt_nodes t)) a t = Some t'"
    "if tn_disposed (node t a) then t' = t else sweep a t t'"
    using assms(1) unfolding disposes_def qt_inv_def by blast
  then have "length (qt_nodes t') = length (qt_nodes t)"
    by (auto simp: sweep_def static_def split: if_splits)
  then show ?thesis
    using Dispose_inv [OF assms(1,3)] t'(1) evolves_schema_ok [of t t' ds] assms(2) by auto
qed

lemma apply_nodes_total:
  assumes "lookup_ok defs lookup" and "schema_ok defs t"
    and "qt_inv defs lookup (n + mutation_args aqns) t"
    and "\<forall>m \<in> set aqns. nm_operation m = SUBTREE_ADD_CHILD \<longrightarrow> nm_node m \<noteq> None"
  shows "\<exists>t' e. apply_nodes defs lookup aqns t = Some (t', e) \<and> schema_ok defs t'"
  using assms(2-4)
proof (induction aqns arbitrary: t)
  case (Cons aqn aqns)
  have inv: "qt_inv defs lookup (n + mutation_args aqns) t"
    by (rule qt_inv_mono [OF Cons.prems(2)]) (simp add: mutation_args_def)
  show ?case
  proof (cases "qt_RootNodeMap t (nm_node_id aqn)")
    case None
    then show ?thesis using Cons.IH [OF Cons.prems(1) inv] Cons.prems(3) by simp
  next
    case (Some nod)
    have nod: "nod < length (qt_nodes t)"
      using shape_map [OF _ Some] inv by (simp add: qt_inv_def)
    consider (add) "nm_operation aqn = SUBTREE_ADD_CHILD"
      | (del) "nm_operation aqn \<noteq> SUBTREE_ADD_CHILD" by blast
    then show ?thesis
    proof cases
      case add
      then obtain data where d: "nm_node aqn = Some data" using Cons.prems(3) by auto
      obtain t1 e1 where ac: "AddChild defs lookup nod data t = Some (t1, e1)" and "schema_ok defs t1"
        using AddChild_total(1) [OF assms(1) Cons.prems(1) nod] by blast
      moreover have "qt_inv defs lookup (n + mutation_args aqns + arg_count data) t"
        using Cons.prems(2) d by (simp add: mutation_args_def ac_simps)
      ultimately show ?thesis
        using AddChild_inv(1) [OF ac] nod Cons.IH [of t1] Cons.prems(3) Some add d ac
        by (cases e1) simp_all
    next
      case del
      obtain t1 where "Dispose (length (qt_nodes t)) nod t = Some t1"
        "qt_inv defs lookup (n + mutation_args aqns) t1" "schema_ok defs t1"
        using Dispose_total [OF inv Cons.prems(1) nod] by blast
      then show ?thesis
        using Some del Cons.IH [of t1] Cons.IH [OF Cons.prems(1) inv] Cons.prems(3) by auto
    qed
  qed
qed simp

lemma mutation_total:
  assumes "qt_inv defs lookup (n + mutation_args (tm_node_mutation m)) t"
    and "schema_ok defs t" and "lookup_ok defs lookup"
    and "\<forall>x \<in> set (tm_node_mutation m). nm_operation x = SUBTREE_ADD_CHILD \<longrightarrow> nm_node x \<noteq> None"
  shows "\<exists>t' e. ApplyTreeMutation defs lookup ord m t = Some (t', e) \<and> schema_ok defs t'"
proof -
  let ?vs = "fold (\<lambda>v vs. fst (VariableStore_Put v vs)) (tm_variables m) (qt_VariableStore t)"
  let ?t1 = "t\<lparr>qt_VariableStore := ?vs\<rparr>"
  have "vs_inv (n + mutation_args (tm_node_mutation m)) ?vs" "same_handles (qt_VariableStore t) ?vs"
    using put_all assms(1) by (auto simp: qt_inv_def args_ok_def)
  then have "qt_inv defs lookup (n + mutation_args (tm_node_mutation m)) ?t1"
    using store_inv(1) [OF assms(1)] by blast
  moreover have "schema_ok defs ?t1" using assms(2) by (simp add: schema_ok_def)
  ultimately obtain t' e where ap: "apply_nodes defs lookup (tm_node_mutation m) ?t1 = Some (t', e)" "schema_ok defs t'"
    using apply_nodes_total assms(3,4) by blast
  then show ?thesis
    by (cases e) (simp_all add: ApplyTreeMutation_def schema_ok_def)
qed


subsection \<open>Witnesses\<close>

text \<open>A schema with one object, and a mutation that selects its three fields with a variable.\<close>

definition sample_definitions :: definitions where
  "sample_definitions = [ObjectDefinition (Some ''Query'')
     [FieldDefinition (Some ''name'') [] (Named (Some ''String'')),
      FieldDefinition (Some ''self'') [] (NonNull (Named (Some ''Query'')))]]"

definition sample_lookup :: "ast_type \<Rightarrow> addr option" where
  "sample_lookup t = (if UnwrapASTType t = Named (Some ''Query'') then Some 0 else None)"

definition sample_arg :: FieldArgument where
  "sample_arg = \<lparr>fa_name = ''x'', fa_variable_id = 7, fa_unknown = []\<rparr>"

definition sample_node :: RGQLQueryTreeNode where
  "sample_node = RGQLQueryTreeNode 1 ''self'' [sample_arg] []
     [RGQLQueryTreeNode 2 ''name'' [] [] [] [], RGQLQueryTreeNode 3 ''name'' [sample_arg] [] [] []] []"

definition sample_mutation :: RGQLQueryTreeMutation where
  "sample_mutation = \<lparr>tm_query_id = 0,
     tm_node_mutation = [\<lparr>nm_node_id = 0, nm_operation = SUBTREE_ADD_CHILD, nm_node = Some sample_node, nm_unknown = []\<rparr>],
     tm_variables = [\<lparr>av_id = 7, av_value = None, av_unknown = []\<rparr>], tm_unknown = []\<rparr>"

definition sample_tree :: QTree where
  "sample_tree = fst (the (ApplyTreeMutation sample_definitions sample_lookup (\<lambda>_. [7])
     sample_mutation (NewQueryTree 0)))"

lemma sample_applied:
  "ApplyTreeMutation sample_definitions sample_lookup (\<lambda>_. [7]) sample_mutation (NewQueryTree 0) =
     Some (sample_tree, None)"
  by code_simp

lemma sample_args: "mutation_args (tm_node_mutation sample_mutation) = 2"
  by code_simp

lemma sample_inv: "qt_inv sample_definitions sample_lookup 0 sample_tree"
proof -
  have "qt_inv sample_definitions sample_lookup
      (0 + mutation_args (tm_node_mutation sample_mutation)) (NewQueryTree 0)"
    by (rule new_tree_inv) (simp add: sample_args)
  then show ?thesis using mutation_inv [OF _ sample_applied] by blast
qed

lemma sample_facts:
  "length (qt_nodes sample_tree) = 4" "tn_Children (node sample_tree 1) = [2, 3]"
  "\<not> tn_disposed (node sample_tree 1)" "\<not> tn_disposed (node sample_tree 2)"
  "\<not> tn_disposed (node sample_tree 3)" "qt_RootNodeMap sample_tree 1 = Some 1"
  by code_simp+

lemma mutation_preserves_tree_witness:
  "qt_inv sample_definitions sample_lookup 0 sample_tree \<and> evolves (NewQueryTree 0) sample_tree"
proof (rule mutation_preserves_tree [OF _ sample_applied])
  show "qt_inv sample_definitions sample_lookup
      (0 + mutation_args (tm_node_mutation sample_mutation)) (NewQueryTree 0)"
    by (rule new_tree_inv) (simp add: sample_args)
qed



lemma dispose_skips_every_other_child_witness:
  "tn_disposed (node (the (Dispose 4 1 sample_tree)) 2) \<and>
     \<not> tn_disposed (node (the (Dispose 4 1 sample_tree)) 3)"
proof -
  have "Dispose (length (qt_nodes sample_tree)) 1 sample_tree = Some (the (Dispose 4 1 sample_tree))"
    unfolding sample_facts(1) by code_simp
  from dispose_skips_every_other_child [OF sample_inv _ _ _ this]
  have "\<forall>k < 2. tn_disposed (node (the (Dispose 4 1 sample_tree)) ([2, 3] ! k)) = even k"
    using sample_facts by (simp del: Dispose.simps)
  from this [rule_format, of 0] this [rule_format, of 1] show ?thesis
    by (simp del: Dispose.simps)
qed

lemma add_child_outcome_witness:
  "\<exists>t'. AddChild sample_definitions sample_lookup 1 (RGQLQueryTreeNode 9 ''name'' [] [] [] []) sample_tree =
      Some (t', None) \<and> tn_IsPrimitive (node t' 4) \<and> tn_PrimitiveName (node t' 4) = ''String''"
proof -
  let ?d = "RGQLQueryTreeNode 9 ''name'' [] [] [] []"
  have r: "resolve_selection sample_definitions sample_lookup (tn_AST (node sample_tree 1)) 9 ''name'' =
      Some (Inr (None, True, ''String''))" by code_simp
  have "map_option snd (AddChild sample_definitions sample_lookup 1 ?d sample_tree) = Some None"
    by code_simp
  then obtain t' where t': "AddChild sample_definitions sample_lookup 1 ?d sample_tree = Some (t', None)"
    by auto
  have "qt_inv sample_definitions sample_lookup (0 + arg_count ?d) sample_tree"
    using sample_inv by simp
  from add_child_outcome [OF this _ refl t'] show ?thesis
    using t' r by (simp add: sample_facts(1) Let_def del: AddChild.simps)
qed

lemma duplicate_id_hijacks_entry_witness:
  "\<exists>t'. AddChild sample_definitions sample_lookup 1 (RGQLQueryTreeNode 0 ''name'' [] [] [] []) sample_tree =
      Some (t', None) \<and> qt_RootNodeMap sample_tree 0 = Some 0 \<and> qt_RootNodeMap t' 0 = Some 4"
proof -
  let ?d = "RGQLQueryTreeNode 0 ''name'' [] [] [] []"
  have r: "qt_RootNodeMap sample_tree 0 = Some 0" by code_simp
  have "map_option snd (AddChild sample_definitions sample_lookup 1 ?d sample_tree) = Some None"
    by code_simp
  then obtain t' where t': "AddChild sample_definitions sample_lookup 1 ?d sample_tree = Some (t', None)"
    by auto
  have "shape sample_tree" using sample_inv by (simp add: qt_inv_def)
  from duplicate_id_hijacks_entry [OF this _ _ r t'] show ?thesis
    using t' r by (simp add: sample_facts(1) del: AddChild.simps)
qed

end
