(* ===== verification/QueryTree.thy ===== *)
theory QueryTree
  imports Schema VarStore
begin

text \<open>
  \<open>client/query-tree.go\<close>, \<open>query-tree-node.go\<close>, \<open>query-tree-args.go\<close>,
  \<open>query-tree-varhandler.go\<close>, \<open>query-attached.go\<close>, \<open>query.go\<close>: the client's query tree,
  which merges the fields of all attached queries and tells the server about the changes.
  Nodes are objects in \<open>ct_nodes\<close>, the root at address 0; a query is known by its identity, a
  number. Messages to the handler are logged in \<open>ct_out\<close>.

  The traversal of a query by \<open>visitor.Visit\<close> is not in the repository: it is the list of
  its callbacks in document order, \<open>EnterField\<close> and \<open>LeaveField\<close>, from which the model takes
  the subtree of a skipped field and everything after a break. A field argument map of
  \<open>nil\<close> is \<open>None\<close>. Go leaves the order of the arguments in a message open; the model lists
  them in insertion order. An operation returns \<open>None\<close> where the code panics (a type
  reference without a name).
\<close>

subsection \<open>State\<close>

type_synonym argsMap = "(string \<times> addr) list option"

record qtNode =
  cn_id :: u32
  cn_name :: string
  cn_objDef :: "addr option"
  cn_children :: "addr list"
  cn_args :: argsMap
  cn_parent :: "addr option"
  cn_refCount :: u32
  cn_gcNext :: bool
  cn_xmitted :: bool

record QueryTree =
  ct_nodes :: "qtNode list"
  ct_varStore :: VariableStore
  ct_attached :: "(nat \<times> addr list) list"
  ct_nextID :: u32
  ct_pending :: "ASTVariable list"
  ct_out :: "RGQLQueryTreeMutation list"

datatype client_error =
    FieldNotFound string string
  | TypeNotFound string
  | ArgumentError pack_error

text \<open>
  What the operations take from outside: the definitions and the lookup of the schema, the
  order in which the variable store ranges over its map, \<open>strconv.ParseFloat\<close>.
\<close>

record client_env =
  ce_defs :: definitions
  ce_lookup :: "ast_type \<Rightarrow> addr option"
  ce_order :: "VariableStore \<Rightarrow> u32 list"
  ce_parse_float :: "string \<Rightarrow> u64 option"

definition newQtNode :: "string \<Rightarrow> addr \<Rightarrow> qtNode" where
  "newQtNode name objDef =
     \<lparr>cn_id = 0, cn_name = name, cn_objDef = Some objDef, cn_children = [], cn_args = None,
      cn_parent = None, cn_refCount = 0, cn_gcNext = False, cn_xmitted = False\<rparr>"

text \<open>
  \<open>None\<close> is the error for a schema without a root query, or the nil dereference of a root
  object without a name.
\<close>

definition NewQueryTree :: "definitions \<Rightarrow> Schema option \<Rightarrow> QueryTree option" where
  "NewQueryTree defs schema =
     (case schema of
        None \<Rightarrow> None
      | Some s \<Rightarrow>
          (case ap_RootQuery (Definitions s) of
             None \<Rightarrow> None
           | Some rootQuery \<Rightarrow>
               (case od_name (defs ! rootQuery) of
                  None \<Rightarrow> None
                | Some name \<Rightarrow>
                    Some \<lparr>ct_nodes = [newQtNode name rootQuery],
                      ct_varStore = NewVariableStore, ct_attached = [], ct_nextID = 1,
                      ct_pending = [], ct_out = []\<rparr>)))"

abbreviation cnode :: "QueryTree \<Rightarrow> addr \<Rightarrow> qtNode" where
  "cnode t a \<equiv> ct_nodes t ! a"

definition upd_cnode :: "addr \<Rightarrow> (qtNode \<Rightarrow> qtNode) \<Rightarrow> QueryTree \<Rightarrow> QueryTree" where
  "upd_cnode a f t = t\<lparr>ct_nodes := upd_at a f (ct_nodes t)\<rparr>"

subsection \<open>Queries (query.go)\<close>

definition NewQuery :: "string \<Rightarrow> nat \<Rightarrow> nat option" where
  "NewQuery operation ast = (if operation \<noteq> ''query'' then None else Some ast)"

subsection \<open>Arguments (query-tree-args.go)\<close>

text \<open>
  \<open>GetOrPutWithValue\<close> with the handler of \<open>query-tree-varhandler.go\<close>: a variable that the
  store adds is pending for transmission. The value was allocated by the caller, so it is
  never the pointer that the store holds.
\<close>

definition put_value :: "client_env \<Rightarrow> RGQLPrimitive \<Rightarrow> QueryTree \<Rightarrow> QueryTree \<times> addr" where
  "put_value env val t =
     (case VariableStore_GetOrPutWithValue (ce_order env (ct_varStore t)) (\<lambda>_. False) (Some val)
             (ct_varStore t) of
        (vs, r, added) \<Rightarrow>
          (t\<lparr>ct_varStore := vs, ct_pending := ct_pending t @
               (case added of None \<Rightarrow> [] | Some vb \<Rightarrow> [vb])\<rparr>, r))"

fun args_loop ::
  "client_env \<Rightarrow> ast_argument list \<Rightarrow> (string \<times> addr) list \<Rightarrow> QueryTree \<Rightarrow>
     QueryTree \<times> (client_error + (string \<times> addr) list)" where
  "args_loop env [] m t = (t, Inr m)"
| "args_loop env (arg # args) m t =
     (case arg_name arg of
        None \<Rightarrow> args_loop env args m t
      | Some name \<Rightarrow>
          (case NewASTPrimitive (ce_parse_float env) (arg_value arg) of
             Inl e \<Rightarrow> (t, Inl (ArgumentError e))
           | Inr val \<Rightarrow>
               (case put_value env val t of
                  (t', r) \<Rightarrow> args_loop env args (AList.update name r m) t')))"

definition newArgsMapFromAst ::
  "client_env \<Rightarrow> ast_argument list \<Rightarrow> QueryTree \<Rightarrow> QueryTree \<times> (client_error + argsMap)" where
  "newArgsMapFromAst env args t =
     (if args = [] then (t, Inr None)
      else case args_loop env args [] t of
             (t', Inl e) \<Rightarrow> (t', Inl e)
           | (t', Inr m) \<Rightarrow> (t', Inr (Some m)))"

definition args_BuildProto :: "VariableStore \<Rightarrow> argsMap \<Rightarrow> FieldArgument list" where
  "args_BuildProto vs m =
     (case m of
        None \<Rightarrow> []
      | Some al \<Rightarrow> map (\<lambda>(name, r). \<lparr>fa_name = name, fa_variable_id = GetVarID vs r, fa_unknown = []\<rparr>) al)"

text \<open>
  \<open>argsMap.Equals\<close>. Two handles lead to one value pointer when they are on one variable.
\<close>

definition args_Equals :: "VariableStore \<Rightarrow> argsMap \<Rightarrow> argsMap \<Rightarrow> bool" where
  "args_Equals vs m other =
     (if m = None \<and> other = None then True
      else if length (case m of None \<Rightarrow> [] | Some al \<Rightarrow> al) \<noteq>
              length (case other of None \<Rightarrow> [] | Some al \<Rightarrow> al) then False
      else case (m, other) of
             (Some al, Some bl) \<Rightarrow>
               list_all (\<lambda>(k, ref). case map_of bl k of
                   None \<Rightarrow> False
                 | Some ov \<Rightarrow> IsPrimEquiv (ref_vb (vs_refs vs ! ov) = ref_vb (vs_refs vs ! ref))
                     (GetValue vs ov) (GetValue vs ref)) al
           | _ \<Rightarrow> False)"

subsection \<open>Nodes (query-tree-node.go)\<close>

text \<open>The fuel bounds the depth of the tree.\<close>

primrec buildProto :: "nat \<Rightarrow> QueryTree \<Rightarrow> addr \<Rightarrow> RGQLQueryTreeNode option" where
  "buildProto 0 t q = None"
| "buildProto (Suc fuel) t q =
     map_option (\<lambda>children. RGQLQueryTreeNode (cn_id (cnode t q)) (cn_name (cnode t q))
         (args_BuildProto (ct_varStore t) (cn_args (cnode t q))) [] children [])
       (those (map (buildProto fuel t) (cn_children (cnode t q))))"

text \<open>The fuel bounds the length of the parent chain.\<close>

primrec flagGcNext :: "nat \<Rightarrow> addr \<Rightarrow> QueryTree \<Rightarrow> QueryTree option" where
  "flagGcNext 0 q t = None"
| "flagGcNext (Suc fuel) q t =
     (let t' = upd_cnode q (\<lambda>n. n\<lparr>cn_gcNext := True\<rparr>) t
      in case cn_parent (cnode t q) of None \<Rightarrow> Some t' | Some p \<Rightarrow> flagGcNext fuel p t')"

definition matchesField :: "VariableStore \<Rightarrow> qtNode \<Rightarrow> string \<Rightarrow> argsMap \<Rightarrow> bool" where
  "matchesField vs q fieldName args = (if fieldName \<noteq> cn_name q then False else args_Equals vs (cn_args q) args)"

definition lookupChildByID :: "QueryTree \<Rightarrow> addr \<Rightarrow> u32 \<Rightarrow> addr option" where
  "lookupChildByID t q qnID = find (\<lambda>c. cn_id (cnode t c) = qnID) (cn_children (cnode t q))"

definition findSchemaField :: "definitions \<Rightarrow> qtNode \<Rightarrow> string \<Rightarrow> field_definition option" where
  "findSchemaField defs q fieldName =
     (case cn_objDef q of
        None \<Rightarrow> None
      | Some d \<Rightarrow> find (\<lambda>f. fd_field_name f = Some fieldName) (od_fields (defs ! d)))"

text \<open>
  The object definition of a field's type: \<open>Some (Inr None)\<close> is a primitive.
\<close>

definition child_object :: "client_env \<Rightarrow> field_definition \<Rightarrow> (client_error + addr option) option" where
  "child_object env f =
     (let under = UnwrapASTType (fd_type f)
      in if IsAstPrimitive under then Some (Inr None)
         else case ce_lookup env under of
             Some d \<Rightarrow>
               if is_object (ce_defs env ! d) then Some (Inr (Some d))
               else (case under of
                       Named None \<Rightarrow> None
                     | Named (Some n) \<Rightarrow> Some (Inl (TypeNotFound n))
                     | _ \<Rightarrow> Some (Inl (TypeNotFound ''[unknown reference type]'')))
           | None \<Rightarrow>
               (case under of
                  Named None \<Rightarrow> None
                | Named (Some n) \<Rightarrow> Some (Inl (TypeNotFound n))
                | _ \<Rightarrow> Some (Inl (TypeNotFound ''[unknown reference type]''))))"

definition alloc_child :: "addr \<Rightarrow> string \<Rightarrow> argsMap \<Rightarrow> addr option \<Rightarrow> QueryTree \<Rightarrow> QueryTree" where
  "alloc_child q name args objDef t =
     t\<lparr>ct_nodes := upd_at q (\<lambda>n. n\<lparr>cn_children := cn_children n @ [length (ct_nodes t)]\<rparr>) (ct_nodes t) @
          [\<lparr>cn_id = ct_nextID t, cn_name = name, cn_objDef = objDef, cn_children = [], cn_args = args,
            cn_parent = Some q, cn_refCount = 0, cn_gcNext = False, cn_xmitted = False\<rparr>],
       ct_nextID := ct_nextID t + 1\<rparr>"

definition resolveChild ::
  "client_env \<Rightarrow> addr \<Rightarrow> string \<Rightarrow> ast_argument list \<Rightarrow> QueryTree \<Rightarrow>
     (QueryTree \<times> (client_error + addr)) option" where
  "resolveChild env q fieldName args t =
     (case findSchemaField (ce_defs env) (cnode t q) fieldName of
        None \<Rightarrow> Some (t, Inl (FieldNotFound fieldName (cn_name (cnode t q))))
      | Some f \<Rightarrow>
          (case child_object env f of
             None \<Rightarrow> None
           | Some (Inl e) \<Rightarrow> Some (t, Inl e)
           | Some (Inr atdObj) \<Rightarrow>
               (case newArgsMapFromAst env args t of
                  (t', Inl e) \<Rightarrow> Some (t', Inl e)
                | (t', Inr argsm) \<Rightarrow>
                    (case find (\<lambda>c. matchesField (ct_varStore t') (cnode t' c) fieldName argsm)
                            (cn_children (cnode t' q)) of
                       Some c \<Rightarrow> Some (t', Inr c)
                     | None \<Rightarrow> Some (alloc_child q fieldName argsm atdObj t', Inr (length (ct_nodes t')))))))"

text \<open>
  \<open>gcSweep\<close>. The loop over the children ends after as many rounds as there were children:
  each round advances \<open>i\<close> or shortens the slice. It collects the transmitted children that it
  removed, and what its recursive calls passed to \<open>purgeNodesCb\<close>. \<open>None\<close> is the end of the
  fuel, which bounds the depth.
\<close>

fun sweep_loop ::
  "(addr \<Rightarrow> QueryTree \<Rightarrow> (QueryTree \<times> bool \<times> addr list) option) \<Rightarrow> addr \<Rightarrow> nat \<Rightarrow> nat \<Rightarrow> QueryTree \<Rightarrow>
     (QueryTree \<times> addr list \<times> addr list) option" where
  "sweep_loop sweep q i 0 t = Some (t, [], [])"
| "sweep_loop sweep q i (Suc rounds) t =
     (let child = cn_children (cnode t q) ! i
      in case sweep child t of
           None \<Rightarrow> None
         | Some (t1, True, cbs) \<Rightarrow>
             map_option (\<lambda>(t2, unref, cbs2). (t2, unref, cbs @ cbs2))
               (sweep_loop sweep q (Suc i) rounds t1)
         | Some (t1, False, cbs) \<Rightarrow>
             let t2 = upd_cnode q (\<lambda>n. n\<lparr>cn_children := swap_remove i (cn_children n)\<rparr>) t1
             in map_option (\<lambda>(t3, unref, cbs2).
                   (t3, (if cn_xmitted (cnode t2 child) then child # unref else unref), cbs @ cbs2))
                  (sweep_loop sweep q i rounds t2))"

primrec node_gcSweep :: "nat \<Rightarrow> addr \<Rightarrow> QueryTree \<Rightarrow> (QueryTree \<times> bool \<times> addr list) option" where
  "node_gcSweep 0 q t = None"
| "node_gcSweep (Suc fuel) q t =
     (case (if cn_gcNext (cnode t q) then
              sweep_loop (node_gcSweep fuel) q 0 (length (cn_children (cnode t q)))
                (upd_cnode q (\<lambda>n. n\<lparr>cn_gcNext := False\<rparr>) t)
            else Some (t, [], [])) of
        None \<Rightarrow> None
      | Some (t', unref, cbs) \<Rightarrow>
          let qReferenced = cn_refCount (cnode t' q) \<noteq> 0 \<or> cn_parent (cnode t' q) = None
          in Some (t', qReferenced, if unref \<noteq> [] \<and> qReferenced then cbs @ unref else cbs))"

subsection \<open>Attaching and detaching (query-tree.go)\<close>

definition gcSweep :: "QueryTree \<Rightarrow> QueryTree option" where
  "gcSweep t =
     (case node_gcSweep (length (ct_nodes t)) 0 t of
        None \<Rightarrow> None
      | Some (t', r, allUnref) \<Rightarrow>
          Some (if allUnref = [] then t'
                else t'\<lparr>ct_out := ct_out t' @
                  [\<lparr>tm_query_id = 0,
                    tm_node_mutation = map (\<lambda>a. \<lparr>nm_node_id = cn_id (cnode t' a),
                        nm_operation = SUBTREE_DELETE, nm_node = None, nm_unknown = []\<rparr>) allUnref,
                    tm_variables = [], tm_unknown = []\<rparr>]\<rparr>))"

text \<open>
  The decrement loop over a query's nodes, in \<open>Attach\<close> (on an error) and in \<open>Detach\<close>, with
  the latter's flag.
\<close>

fun unref_nodes :: "addr list \<Rightarrow> QueryTree \<Rightarrow> (QueryTree \<times> bool) option" where
  "unref_nodes [] t = Some (t, False)"
| "unref_nodes (a # as) t =
     (let t1 = upd_cnode a (\<lambda>n. n\<lparr>cn_refCount := cn_refCount n - 1\<rparr>) t
      in if cn_refCount (cnode t1 a) = 0 then
           (case flagGcNext (length (ct_nodes t1)) a t1 of
              None \<Rightarrow> None
            | Some t2 \<Rightarrow> map_option (\<lambda>(t3, sweep). (t3, True)) (unref_nodes as t2))
         else unref_nodes as t1)"

datatype visit_event = EnterField ast_field | LeaveField ast_field

definition nameless :: "ast_field \<Rightarrow> bool" where
  "nameless f = (case f_name f of None \<Rightarrow> True | Some n \<Rightarrow> n = '''')"

text \<open>The callbacks that are left once the subtree of the field just entered is skipped.\<close>

fun skip_subtree :: "nat \<Rightarrow> visit_event list \<Rightarrow> visit_event list" where
  "skip_subtree d [] = []"
| "skip_subtree d (EnterField f # es) = skip_subtree (Suc d) es"
| "skip_subtree 0 (LeaveField f # es) = es"
| "skip_subtree (Suc d) (LeaveField f # es) = skip_subtree d es"

lemma length_skip_subtree: "length (skip_subtree d es) \<le> length es"
  by (induction d es rule: skip_subtree.induct) auto

text \<open>The variables of \<open>Attach\<close> that the two visitor functions share.\<close>

record visit_state =
  v_tree :: QueryTree
  v_qnode :: addr
  v_newNodeDepth :: nat
  v_newNodes :: "addr list"
  v_qtNodes :: "addr list"

definition enter_node :: "addr \<Rightarrow> QueryTree \<Rightarrow> visit_state \<Rightarrow> visit_state" where
  "enter_node c t v =
     v\<lparr>v_newNodes := (if cn_refCount (cnode t c) = 0 \<and> v_newNodeDepth v = 0 then v_newNodes v @ [c]
                      else v_newNodes v),
       v_tree := upd_cnode c (\<lambda>n. n\<lparr>cn_refCount := cn_refCount n + 1\<rparr>) t,
       v_newNodeDepth := v_newNodeDepth v + 1,
       v_qtNodes := v_qtNodes v @ [c],
       v_qnode := c\<rparr>"

definition leave_node :: "visit_state \<Rightarrow> visit_state option" where
  "leave_node v =
     (if v_newNodeDepth v = 0 then Some v
      else case cn_parent (cnode (v_tree v) (v_qnode v)) of
             None \<Rightarrow> None
           | Some p \<Rightarrow> Some (v\<lparr>v_newNodeDepth := v_newNodeDepth v - 1, v_qnode := p\<rparr>))"

text \<open>
  The visit, up to its end or its break; a nil \<open>qnode\<close> would panic at the next field.
\<close>

function visit :: "client_env \<Rightarrow> visit_event list \<Rightarrow> visit_state \<Rightarrow>
    (visit_state \<times> client_error option) option" where
  "visit env [] v = Some (v, None)"
| "visit env (EnterField f # es) v =
     (if nameless f then visit env (skip_subtree 0 es) v
      else case resolveChild env (v_qnode v) (the (f_name f)) (f_arguments f) (v_tree v) of
             None \<Rightarrow> None
           | Some (t, Inl e) \<Rightarrow> Some (v\<lparr>v_tree := t\<rparr>, Some e)
           | Some (t, Inr c) \<Rightarrow> visit env es (enter_node c t v))"
| "visit env (LeaveField f # es) v =
     (if nameless f then visit env es v
      else case leave_node v of None \<Rightarrow> None | Some v' \<Rightarrow> visit env es v')"
  by pat_completeness auto
termination
  by (relation "measure (\<lambda>(env, es, v). length es)")
     (auto simp: less_Suc_eq_le length_skip_subtree)

text \<open>\<open>markXmitted\<close> and the mutation entry for each new node.\<close>

fun build_mutations :: "addr list \<Rightarrow> QueryTree \<Rightarrow>
    (QueryTree \<times> RGQLQueryTreeMutation_NodeMutation list) option" where
  "build_mutations [] t = Some (t, [])"
| "build_mutations (a # as) t =
     (let t1 = upd_cnode a (\<lambda>n. n\<lparr>cn_xmitted := True\<rparr>) t
      in case (cn_parent (cnode t1 a), buildProto (length (ct_nodes t1)) t1 a) of
           (Some p, Some nod) \<Rightarrow>
             map_option (\<lambda>(t2, muts).
                 (t2, \<lparr>nm_node_id = cn_id (cnode t1 p), nm_operation = SUBTREE_ADD_CHILD,
                       nm_node = Some nod, nm_unknown = []\<rparr> # muts))
               (build_mutations as t1)
         | _ \<Rightarrow> None)"

definition Attach :: "client_env \<Rightarrow> nat \<Rightarrow> visit_event list \<Rightarrow> QueryTree \<Rightarrow>
    (QueryTree \<times> client_error option) option" where
  "Attach env query events t =
     (if map_of (ct_attached t) query \<noteq> None then Some (t, None)
      else
        (case visit env events \<lparr>v_tree = t, v_qnode = 0, v_newNodeDepth = 0, v_newNodes = [],
                v_qtNodes = []\<rparr> of
           None \<Rightarrow> None
         | Some (v, Some e) \<Rightarrow>
             Option.bind (Option.bind (unref_nodes (v_qtNodes v) (v_tree v)) (\<lambda>(t0, _). gcSweep t0))
               (\<lambda>t1. map_option (\<lambda>t2. (t2, Some e)) (gcSweep (t1\<lparr>ct_pending := []\<rparr>)))
         | Some (v, None) \<Rightarrow>
             Option.bind
               (if v_newNodes v = [] then Some (v_tree v)
                else map_option (\<lambda>(t1, muts).
                    t1\<lparr>ct_out := ct_out t1 @ [\<lparr>tm_query_id = 0, tm_node_mutation = muts,
                        tm_variables = ct_pending t1, tm_unknown = []\<rparr>]\<rparr>)
                  (build_mutations (v_newNodes v) (v_tree v)))
               (\<lambda>t1. Option.bind
                  (gcSweep (t1\<lparr>ct_pending := [], ct_attached := ct_attached t1 @ [(query, v_qtNodes v)]\<rparr>))
                  (\<lambda>t2. map_option (\<lambda>t3. (t3, None)) (gcSweep t2)))))"

definition Detach :: "nat \<Rightarrow> QueryTree \<Rightarrow> QueryTree option" where
  "Detach query t =
     (case map_of (ct_attached t) query of
        None \<Rightarrow> Some t
      | Some qtNodes \<Rightarrow>
          (case unref_nodes qtNodes t of
             None \<Rightarrow> None
           | Some (t1, sweep) \<Rightarrow>
               let t2 = t1\<lparr>ct_attached := AList.delete query (ct_attached t1)\<rparr>
               in if sweep then gcSweep t2 else Some t2))"

definition StartQuery :: "client_env \<Rightarrow> string \<Rightarrow> nat \<Rightarrow> visit_event list \<Rightarrow> QueryTree \<Rightarrow>
    (QueryTree \<times> (client_error option + nat)) option" where
  "StartQuery env operation ast events t =
     (case NewQuery operation ast of
        None \<Rightarrow> Some (t, Inl None)
      | Some query \<Rightarrow>
          map_option (\<lambda>(t', e). (t', case e of None \<Rightarrow> Inr query | Some e \<Rightarrow> Inl (Some e)))
            (Attach env query events t))"

subsection \<open>Reading the tree\<close>

lemma upd_cnode_simps [simp]:
  "length (ct_nodes (upd_cnode a f t)) = length (ct_nodes t)"
  "ct_varStore (upd_cnode a f t) = ct_varStore t" "ct_attached (upd_cnode a f t) = ct_attached t"
  "ct_pending (upd_cnode a f t) = ct_pending t" "ct_out (upd_cnode a f t) = ct_out t"
  "ct_nextID (upd_cnode a f t) = ct_nextID t"
  by (simp_all add: upd_cnode_def)

lemma cnode_upd:
  "b < length (ct_nodes t) \<Longrightarrow> cnode (upd_cnode a f t) b = (if b = a then f (cnode t a) else cnode t b)"
  by (simp add: upd_cnode_def nth_upd_at)

lemma cnode_upd_other: "b \<noteq> a \<Longrightarrow> cnode (upd_cnode a f t) b = cnode t b"
  by (simp add: upd_cnode_def)

lemma cnode_upd_field: "(\<And>x. g (f x) = g x) \<Longrightarrow> g (cnode (upd_cnode a f t) b) = g (cnode t b)"
  by (simp add: upd_cnode_def nth_upd_at_field)

definition cparent :: "QueryTree \<Rightarrow> addr \<Rightarrow> addr option" where
  "cparent t c = (if c < length (ct_nodes t) then cn_parent (cnode t c) else None)"

text \<open>The tree is a tree, as on the server.\<close>

definition cshape :: "QueryTree \<Rightarrow> bool" where
  "cshape t \<longleftrightarrow>
     ct_nodes t \<noteq> [] \<and> cn_parent (cnode t 0) = None \<and>
     (\<forall>a < length (ct_nodes t). a \<noteq> 0 \<longrightarrow> (\<exists>p < a. cn_parent (cnode t a) = Some p)) \<and>
     (\<forall>a < length (ct_nodes t). distinct (cn_children (cnode t a)) \<and>
        (\<forall>c \<in> set (cn_children (cnode t a)).
           c < length (ct_nodes t) \<and> cn_parent (cnode t c) = Some a))"

lemma cshape_root: "cshape t \<Longrightarrow> cn_parent (cnode t 0) = None" "cshape t \<Longrightarrow> 0 < length (ct_nodes t)"
  by (simp_all add: cshape_def)

lemma cshape_has_parent:
  "cshape t \<Longrightarrow> a < length (ct_nodes t) \<Longrightarrow> a \<noteq> 0 \<Longrightarrow> \<exists>p < a. cn_parent (cnode t a) = Some p"
  by (simp add: cshape_def)

lemma cshape_parent:
  "cshape t \<Longrightarrow> a < length (ct_nodes t) \<Longrightarrow> cn_parent (cnode t a) = Some p \<Longrightarrow> p < a \<and> a \<noteq> 0"
  using cshape_has_parent [of t a] cshape_root [of t] by (cases "a = 0") auto

lemma cshape_child:
  "cshape t \<Longrightarrow> a < length (ct_nodes t) \<Longrightarrow> c \<in> set (cn_children (cnode t a)) \<Longrightarrow>
     c < length (ct_nodes t) \<and> cn_parent (cnode t c) = Some a \<and> cparent t c = Some a \<and> a < c"
  using cshape_parent [of t c a] unfolding cshape_def cparent_def by simp

lemma cshape_distinct: "cshape t \<Longrightarrow> a < length (ct_nodes t) \<Longrightarrow> distinct (cn_children (cnode t a))"
  by (simp add: cshape_def)

lemma cshape_decreasing: "cshape t \<Longrightarrow> decreasing (cparent t)"
  using cshape_parent [of t] by (simp add: decreasing_def cparent_def)

subsection \<open>The sweep\<close>

text \<open>
  The fields that a sweep leaves alone; what it does to a node that it visits.
\<close>

definition fixed :: "qtNode \<Rightarrow> u32 \<times> string \<times> addr option \<times> argsMap \<times> addr option \<times> u32 \<times> bool" where
  "fixed n = (cn_id n, cn_name n, cn_objDef n, cn_args n, cn_parent n, cn_refCount n, cn_xmitted n)"

definition swept_node :: "(addr \<Rightarrow> u32) \<Rightarrow> qtNode \<Rightarrow> qtNode \<Rightarrow> bool" where
  "swept_node refs n n' \<longleftrightarrow> fixed n' = fixed n \<and> \<not> cn_gcNext n' \<and> distinct (cn_children n') \<and>
     set (cn_children n') = {c \<in> set (cn_children n). refs c \<noteq> 0}"

definition refs_of :: "QueryTree \<Rightarrow> addr \<Rightarrow> u32" where
  "refs_of t a = (if a < length (ct_nodes t) then cn_refCount (cnode t a) else 0)"

text \<open>
  The flagged nodes below \<open>a\<close>, and the condition under which the sweep finds them: flags go
  all the way up, and a flagged node is in its parent's list.
\<close>

definition flagged :: "QueryTree \<Rightarrow> addr \<Rightarrow> addr \<Rightarrow> bool" where
  "flagged t a x \<longleftrightarrow> tree_anc (cparent t) a x \<and> cn_gcNext (cnode t x)"

definition flags_up :: "QueryTree \<Rightarrow> addr \<Rightarrow> bool" where
  "flags_up t a \<longleftrightarrow> (\<forall>x < length (ct_nodes t). tree_anc (cparent t) a x \<longrightarrow> x \<noteq> a \<longrightarrow> cn_gcNext (cnode t x) \<longrightarrow>
     (\<exists>p. cn_parent (cnode t x) = Some p \<and> cn_gcNext (cnode t p) \<and> x \<in> set (cn_children (cnode t p))))"

definition rest_same :: "QueryTree \<Rightarrow> QueryTree \<Rightarrow> bool" where
  "rest_same t t' \<longleftrightarrow> length (ct_nodes t') = length (ct_nodes t) \<and> ct_varStore t' = ct_varStore t \<and>
     ct_attached t' = ct_attached t \<and> ct_pending t' = ct_pending t \<and> ct_out t' = ct_out t \<and>
     ct_nextID t' = ct_nextID t"

definition swept :: "addr \<Rightarrow> QueryTree \<Rightarrow> QueryTree \<Rightarrow> bool" where
  "swept a t t' \<longleftrightarrow> rest_same t t' \<and>
     (\<forall>x < length (ct_nodes t).
        if flagged t a x then swept_node (refs_of t) (cnode t x) (cnode t' x)
        else cnode t' x = cnode t x)"

lemma rest_same_refl [simp]: "rest_same t t"
  by (simp add: rest_same_def)

lemma rest_same_trans: "rest_same a b \<Longrightarrow> rest_same b c \<Longrightarrow> rest_same a c"
  by (simp add: rest_same_def)

lemma swept_fixed: "swept a t t' \<Longrightarrow> x < length (ct_nodes t) \<Longrightarrow> fixed (cnode t' x) = fixed (cnode t x)"
  unfolding swept_def swept_node_def by metis

lemma fixed_cong:
  assumes "length (ct_nodes t') = length (ct_nodes t)"
    and "\<And>x. x < length (ct_nodes t) \<Longrightarrow> fixed (cnode t' x) = fixed (cnode t x)"
  shows "cparent t' = cparent t"
  using assms by (auto simp: cparent_def fixed_def fun_eq_iff)

lemma fixed_refs:
  assumes "length (ct_nodes t') = length (ct_nodes t)"
    and "\<And>x. x < length (ct_nodes t) \<Longrightarrow> fixed (cnode t' x) = fixed (cnode t x)"
  shows "refs_of t' = refs_of t"
  using assms by (auto simp: refs_of_def fixed_def fun_eq_iff)

text \<open>A smaller list of children for some nodes keeps the shape.\<close>

lemma cshape_shrink:
  assumes "cshape t" and "length (ct_nodes t') = length (ct_nodes t)"
    and "\<And>x. x < length (ct_nodes t) \<Longrightarrow> cn_parent (cnode t' x) = cn_parent (cnode t x) \<and>
           distinct (cn_children (cnode t' x)) \<and>
           set (cn_children (cnode t' x)) \<subseteq> set (cn_children (cnode t x))"
  shows "cshape t'"
proof -
  have 0: "0 < length (ct_nodes t)" using assms(1) by (rule cshape_root)
  have kids: "c < length (ct_nodes t) \<and> cn_parent (cnode t' c) = Some x"
    if x: "x < length (ct_nodes t)" and c: "c \<in> set (cn_children (cnode t' x))" for x c
  proof -
    have "c \<in> set (cn_children (cnode t x))" using assms(3) [OF x] c by blast
    then have "c < length (ct_nodes t)" "cn_parent (cnode t c) = Some x"
      using cshape_child [OF assms(1) x] by auto
    then show ?thesis using assms(3) [of c] by simp
  qed
  have up: "\<exists>p < a. cn_parent (cnode t' a) = Some p" if "a < length (ct_nodes t)" "a \<noteq> 0" for a
    using assms(3) [OF that(1)] cshape_has_parent [OF assms(1) that] by simp
  have root: "ct_nodes t' \<noteq> []" "cn_parent (cnode t' 0) = None"
    using 0 assms(2) assms(3) [OF 0] cshape_root [OF assms(1)] by auto
  have "distinct (cn_children (cnode t' a))" if "a < length (ct_nodes t)" for a
    using assms(3) [OF that] by simp
  then show ?thesis unfolding cshape_def assms(2) using kids up root by simp
qed

lemma swept_shape:
  assumes "swept a t t'" and "cshape t"
  shows "cshape t'"
proof (rule cshape_shrink [OF assms(2)])
  show "length (ct_nodes t') = length (ct_nodes t)" using assms(1) by (simp add: swept_def rest_same_def)
  fix x assume x: "x < length (ct_nodes t)"
  have "cn_parent (cnode t' x) = cn_parent (cnode t x)"
    using swept_fixed [OF assms(1) x] by (simp add: fixed_def)
  moreover have "distinct (cn_children (cnode t' x)) \<and>
      set (cn_children (cnode t' x)) \<subseteq> set (cn_children (cnode t x))"
    using assms(1) x cshape_distinct [OF assms(2) x]
    by (cases "flagged t a x") (auto simp: swept_def swept_node_def)
  ultimately show "cn_parent (cnode t' x) = cn_parent (cnode t x) \<and>
           distinct (cn_children (cnode t' x)) \<and>
           set (cn_children (cnode t' x)) \<subseteq> set (cn_children (cnode t x))" by blast
qed

lemma flags_up_top:
  assumes "flags_up t a" and "cshape t" and "x < length (ct_nodes t)" and "flagged t a x"
  shows "cn_gcNext (cnode t a)"
proof -
  have "tree_anc (cparent t) a x" "cn_gcNext (cnode t x)" using assms(4) by (auto simp: flagged_def)
  then show ?thesis
    using assms(3)
  proof (induction rule: tree_anc_induct)
    case (step p c)
    show ?case
    proof (cases "c = a")
      case False
      have c: "c < length (ct_nodes t)" "cn_parent (cnode t c) = Some p"
        using step.hyps(2) by (auto simp: cparent_def split: if_splits)
      have "tree_anc (cparent t) a c" using tree_anc_step step.hyps by blast
      then have "cn_gcNext (cnode t p)"
        using assms(1) c False step.prems(1) unfolding flags_up_def by force
      moreover have "p < length (ct_nodes t)" using cshape_parent [OF assms(2) c] c(1) by simp
      ultimately show ?thesis using step.IH by blast
    qed (use step in simp)
  qed
qed

lemma flags_up_sub:
  assumes "flags_up t a" and "cshape t" and "tree_anc (cparent t) a y"
  shows "flags_up t y"
  unfolding flags_up_def
proof (intro allI impI)
  fix x assume x: "x < length (ct_nodes t)" "tree_anc (cparent t) y x" "x \<noteq> y" "cn_gcNext (cnode t x)"
  note dec = cshape_decreasing [OF assms(2)]
  have "a \<le> y" "y \<le> x" using tree_anc_le [OF dec] assms(3) x(2) by auto
  then have "x \<noteq> a" using x(3) by auto
  then show "\<exists>p. cn_parent (cnode t x) = Some p \<and> cn_gcNext (cnode t p) \<and> x \<in> set (cn_children (cnode t p))"
    using assms(1,3) x tree_anc_trans unfolding flags_up_def by blast
qed

text \<open>A flagged node below \<open>a\<close> is below a child of \<open>a\<close> that is in the list.\<close>

lemma flagged_child:
  assumes "flags_up t a" and "cshape t" and "x < length (ct_nodes t)" and "flagged t a x" and "x \<noteq> a"
  shows "\<exists>c \<in> set (cn_children (cnode t a)). flagged t c x"
proof -
  obtain c where c: "cparent t c = Some a" "tree_anc (cparent t) c x"
    using tree_anc_first assms(4,5) unfolding flagged_def by blast
  have cl: "c < length (ct_nodes t)" "cn_parent (cnode t c) = Some a"
    using c(1) by (auto simp: cparent_def split: if_splits)
  have ac: "tree_anc (cparent t) a c" using c(1) by (rule tree_anc_child)
  have fx: "flagged t c x" using c(2) assms(4) by (simp add: flagged_def)
  have "cn_gcNext (cnode t c)"
    using flags_up_top [OF flags_up_sub [OF assms(1,2) ac] assms(2,3) fx] .
  moreover have "c \<noteq> a" using cshape_parent [OF assms(2) cl] by auto
  ultimately have "c \<in> set (cn_children (cnode t a))"
    using assms(1) cl ac unfolding flags_up_def by force
  then show ?thesis using fx by blast
qed

text \<open>The condition on the flags below a node only reads the subtree of the node.\<close>

lemma flags_up_cong:
  assumes "flags_up t a" and "cparent t' = cparent t" and "length (ct_nodes t') = length (ct_nodes t)"
    and "\<And>x. x < length (ct_nodes t) \<Longrightarrow> tree_anc (cparent t) a x \<Longrightarrow> cnode t' x = cnode t x"
    and "cshape t"
  shows "flags_up t' a"
  unfolding flags_up_def
proof (intro allI impI)
  fix x assume x: "x < length (ct_nodes t')" "tree_anc (cparent t') a x" "x \<noteq> a" "cn_gcNext (cnode t' x)"
  have x': "x < length (ct_nodes t)" "tree_anc (cparent t) a x" using x assms(2,3) by simp_all
  then obtain p where p: "cn_parent (cnode t x) = Some p" "cn_gcNext (cnode t p)"
      "x \<in> set (cn_children (cnode t p))"
    using assms(1,4) x(3,4) unfolding flags_up_def by metis
  obtain q where "cparent t x = Some q" "tree_anc (cparent t) a q"
    using tree_anc_last [OF x'(2) x(3)] by blast
  then have "tree_anc (cparent t) a p" using p(1) x'(1) by (simp add: cparent_def)
  moreover have "p < length (ct_nodes t)" using cshape_parent [OF assms(5) x'(1) p(1)] x'(1) by simp
  ultimately show "\<exists>p. cn_parent (cnode t' x) = Some p \<and> cn_gcNext (cnode t' p) \<and>
      x \<in> set (cn_children (cnode t' p))"
    using p assms(4) x' by auto
qed

text \<open>
  What the loop over the children of \<open>a\<close> relies on for each child, and what it does. A node
  that the sweep reports was in some list, transmitted and without references.
\<close>

definition purgeable :: "QueryTree \<Rightarrow> addr \<Rightarrow> bool" where
  "purgeable s x \<longleftrightarrow> x < length (ct_nodes s) \<and> cn_xmitted (cnode s x) \<and> cn_refCount (cnode s x) = 0 \<and>
     (\<exists>p < length (ct_nodes s). x \<in> set (cn_children (cnode s p)))"

definition droppable :: "QueryTree \<Rightarrow> addr \<Rightarrow> nat \<Rightarrow> addr set" where
  "droppable s a i =
     {c \<in> set (drop i (cn_children (cnode s a))). cn_refCount (cnode s c) = 0 \<and> cn_xmitted (cnode s c)}"

definition sweeps :: "nat \<Rightarrow> (addr \<Rightarrow> QueryTree \<Rightarrow> (QueryTree \<times> bool \<times> addr list) option) \<Rightarrow> addr \<Rightarrow> bool" where
  "sweeps L sweep c \<longleftrightarrow> (\<forall>s. cshape s \<longrightarrow> length (ct_nodes s) = L \<longrightarrow> flags_up s c \<longrightarrow>
     (\<exists>s' cbs. sweep c s = Some (s', cn_refCount (cnode s c) \<noteq> 0 \<or> c = 0, cbs) \<and> swept c s s' \<and>
        (\<forall>x \<in> set cbs. purgeable s x) \<and> (cn_gcNext (cnode s c) \<and> c = 0 \<longrightarrow> droppable s c 0 \<subseteq> set cbs)))"

lemma purgeable_mono:
  assumes "purgeable t x" and "length (ct_nodes t) = length (ct_nodes s)"
    and "\<And>y. y < length (ct_nodes s) \<Longrightarrow> fixed (cnode t y) = fixed (cnode s y) \<and>
           set (cn_children (cnode t y)) \<subseteq> set (cn_children (cnode s y))"
  shows "purgeable s x"
  using assms(1) assms(3) [of x] assms(3) unfolding purgeable_def assms(2) by (auto simp: fixed_def)

definition loop_swept :: "addr \<Rightarrow> nat \<Rightarrow> QueryTree \<Rightarrow> QueryTree \<Rightarrow> bool" where
  "loop_swept a i s s' \<longleftrightarrow> rest_same s s' \<and>
     (\<forall>x < length (ct_nodes s). x \<noteq> a \<longrightarrow>
        (if \<exists>c \<in> set (drop i (cn_children (cnode s a))). flagged s c x
         then swept_node (refs_of s) (cnode s x) (cnode s' x) else cnode s' x = cnode s x)) \<and>
     fixed (cnode s' a) = fixed (cnode s a) \<and> cn_gcNext (cnode s' a) = cn_gcNext (cnode s a) \<and>
     distinct (cn_children (cnode s' a)) \<and>
     set (cn_children (cnode s' a)) = set (take i (cn_children (cnode s a))) \<union>
       {c \<in> set (drop i (cn_children (cnode s a))). refs_of s c \<noteq> 0}"

lemma loop_swept_step:
  assumes "cshape s" and "a < length (ct_nodes s)" and "i < length (cn_children (cnode s a))"
    and "c = cn_children (cnode s a) ! i" and "swept c s s1"
    and "length (ct_nodes u) = length (ct_nodes s)" and "rest_same s1 u"
    and "\<And>x. x \<noteq> a \<Longrightarrow> cnode u x = cnode s1 x"
    and "fixed (cnode u a) = fixed (cnode s1 a)" and "cn_gcNext (cnode u a) = cn_gcNext (cnode s1 a)"
    and "set (drop j (cn_children (cnode u a))) = set (drop i (cn_children (cnode s a))) - {c}"
    and "set (take j (cn_children (cnode u a))) = set (take i (cn_children (cnode s a))) \<union>
           (if refs_of s c \<noteq> 0 then {c} else {})"
    and "loop_swept a j u s'"
  shows "loop_swept a i s s'"
proof -
  let ?cs = "cn_children (cnode s a)" and ?L = "length (ct_nodes s)"
  let ?R = "set (drop i ?cs) - {c}"
  have drop: "set (drop i ?cs) = insert c ?R"
    using assms(3,4) by (metis Cons_nth_drop_Suc insert_Diff list.set_intros(1))
  have kid: "d < ?L \<and> cparent s d = Some a" if "d \<in> set (drop i ?cs)" for d
    using cshape_child [OF assms(1,2)] in_set_dropD [OF that] by simp
  note dec = cshape_decreasing [OF assms(1)]
  have c: "c < ?L" "cparent s c = Some a" using kid drop by auto
  have len1: "length (ct_nodes s1) = ?L" using assms(5) by (simp add: swept_def rest_same_def)
  have s1: "fixed (cnode s1 x) = fixed (cnode s x)" if "x < ?L" for x
    using swept_fixed [OF assms(5) that] .
  have "a < c" using dec c(2) by (simp add: decreasing_def)
  then have "\<not> flagged s c a" using tree_anc_le [OF dec, of c a] by (auto simp: flagged_def)
  then have a: "cnode s1 a = cnode s a" using assms(2,5) by (simp add: swept_def)
  have u: "fixed (cnode u x) = fixed (cnode s x)" if "x < ?L" for x
    using s1 [OF that] assms(8,9) by (cases "x = a") auto
  have cp: "cparent u = cparent s" and rf: "refs_of u = refs_of s"
    using fixed_cong [OF assms(6) u] fixed_refs [OF assms(6) u] by auto
  have out: "cnode u x = cnode s x" if "x < ?L" "x \<noteq> a" "\<not> flagged s c x" for x
    using that assms(5,8) by (simp add: swept_def)
  have fl: "flagged u d x = flagged s d x \<and> (flagged s d x \<longrightarrow> \<not> flagged s c x)"
    if "x < ?L" "x \<noteq> a" "d \<in> ?R" for x d
  proof -
    have "\<not> (tree_anc (cparent s) c x \<and> tree_anc (cparent s) d x)"
      using tree_anc_siblings(3) [OF dec c(2), of d x] kid that(3) by auto
    then show ?thesis using out [OF that(1,2)] by (auto simp: flagged_def cp)
  qed
  have loop: "x < ?L \<Longrightarrow> x \<noteq> a \<Longrightarrow> if \<exists>d \<in> ?R. flagged u d x
      then swept_node (refs_of s) (cnode u x) (cnode s' x) else cnode s' x = cnode u x" for x
    using assms(13) unfolding loop_swept_def assms(11) rf by (simp add: assms(6))
  have "if \<exists>d \<in> set (drop i ?cs). flagged s d x
      then swept_node (refs_of s) (cnode s x) (cnode s' x) else cnode s' x = cnode s x"
    if x: "x < ?L" "x \<noteq> a" for x
  proof (cases "flagged s c x")
    case True
    then have "cnode s' x = cnode s1 x" using loop [OF x] fl [OF x] assms(8) [OF x(2)] by auto
    moreover have "swept_node (refs_of s) (cnode s x) (cnode s1 x)"
      using assms(5) x(1) True by (simp add: swept_def)
    ultimately show ?thesis using True drop by auto
  next
    case False
    then have iff: "(\<exists>d \<in> set (drop i ?cs). flagged s d x) \<longleftrightarrow> (\<exists>d \<in> ?R. flagged u d x)"
      using fl [OF x] drop by auto
    show ?thesis
    proof (cases "\<exists>d \<in> ?R. flagged u d x")
      case True
      then have "swept_node (refs_of s) (cnode u x) (cnode s' x)" using loop [OF x] by (simp only: if_True)
      then show ?thesis using True iff out [OF x \<open>\<not> flagged s c x\<close>] by (simp only: if_True)
    next
      case False
      then have "cnode s' x = cnode u x" using loop [OF x] by (simp only: if_False)
      then show ?thesis using False iff out [OF x \<open>\<not> flagged s c x\<close>] by (simp only: if_False)
    qed
  qed
  moreover have "rest_same s s'"
    using assms(5,7,13) rest_same_trans unfolding swept_def loop_swept_def by blast
  moreover have "fixed (cnode s' a) = fixed (cnode s a)" "cn_gcNext (cnode s' a) = cn_gcNext (cnode s a)"
    "distinct (cn_children (cnode s' a))"
    using assms(9,10,13) a by (simp_all add: loop_swept_def)
  moreover have "set (cn_children (cnode s' a)) = set (take i ?cs) \<union> {d \<in> set (drop i ?cs). refs_of s d \<noteq> 0}"
  proof -
    have "set (cn_children (cnode s' a)) = (set (take i ?cs) \<union> (if refs_of s c \<noteq> 0 then {c} else {})) \<union>
        {d \<in> ?R. refs_of s d \<noteq> 0}"
      using assms(13) unfolding loop_swept_def assms(11,12) rf by simp
    moreover have "c \<in> set (drop i ?cs)" using assms(3,4) by (metis Cons_nth_drop_Suc list.set_intros(1))
    ultimately show ?thesis by (cases "refs_of s c = 0") auto
  qed
  ultimately show ?thesis unfolding loop_swept_def by blast
qed

lemma sweep_loop_result:
  assumes "\<And>c. a < c \<Longrightarrow> c < L \<Longrightarrow> sweeps L sweep c" and "a < L"
    and "cshape s" and "length (ct_nodes s) = L" and "i + rounds = length (cn_children (cnode s a))"
    and "\<forall>c \<in> set (drop i (cn_children (cnode s a))). flags_up s c"
  shows "\<exists>s' unref cbs. sweep_loop sweep a i rounds s = Some (s', unref, cbs) \<and> loop_swept a i s s' \<and>
     (\<forall>x \<in> set unref \<union> set cbs. purgeable s x) \<and> droppable s a i \<subseteq> set unref"
  using assms(3-6)
proof (induction rounds arbitrary: i s)
  case 0
  then show ?case
    using cshape_distinct [OF 0(1), of a] assms(2) by (simp add: loop_swept_def droppable_def)
next
  case (Suc rounds)
  let ?cs = "cn_children (cnode s a)"
  let ?c = "?cs ! i"
  note dec = cshape_decreasing [OF Suc.prems(1)]
  have i: "i < length ?cs" using Suc.prems(3) by simp
  have dist: "distinct ?cs" using cshape_distinct [OF Suc.prems(1)] assms(2) Suc.prems(2) by simp
  have kid: "d < L \<and> cparent s d = Some a \<and> a < d" if "d \<in> set ?cs" for d
    using cshape_child [OF Suc.prems(1), of a d] assms(2) Suc.prems(2) that by simp
  have c: "?c < L" "cparent s ?c = Some a" "a < ?c" using kid [of ?c] i by auto
  have drop: "drop i ?cs = ?c # drop (Suc i) ?cs" using i by (rule Cons_nth_drop_Suc [symmetric])
  have R: "set (drop i ?cs) - {?c} = set (drop (Suc i) ?cs)"
    using dist drop by (metis Diff_insert_absorb distinct.simps(2) distinct_drop list.simps(15))
  obtain s1 cbs where s1: "sweep ?c s = Some (s1, cn_refCount (cnode s ?c) \<noteq> 0 \<or> ?c = 0, cbs)"
    and sw: "swept ?c s s1" and pc: "\<forall>x \<in> set cbs. purgeable s x"
    using assms(1) [OF c(3,1)] Suc.prems(1,2,4) drop unfolding sweeps_def by auto
  define r where "r = (cn_refCount (cnode s ?c) \<noteq> 0)"
  have s1: "sweep ?c s = Some (s1, r, cbs)" using s1 c(3) by (simp add: r_def)
  define u where "u = (if r then s1 else upd_cnode a (\<lambda>n. n\<lparr>cn_children := swap_remove i (cn_children n)\<rparr>) s1)"
  define j where "j = (if r then Suc i else i)"
  have sh1: "cshape s1" using swept_shape [OF sw Suc.prems(1)] .
  have len1: "length (ct_nodes s1) = L" using sw Suc.prems(2) by (simp add: swept_def rest_same_def)
  have "\<not> flagged s ?c a" using tree_anc_le [OF dec, of ?c a] c(3) by (auto simp: flagged_def)
  then have a1: "cnode s1 a = cnode s a" using sw assms(2) Suc.prems(2) by (simp add: swept_def)
  have rs: "rest_same s1 u" by (simp add: u_def rest_same_def)
  have lenu: "length (ct_nodes u) = L" using len1 by (simp add: u_def)
  have kidsu: "cn_children (cnode u a) = (if r then ?cs else swap_remove i ?cs)"
    using a1 assms(2) len1 by (simp add: u_def cnode_upd)
  have ux: "cnode u x = cnode s1 x" if "x \<noteq> a" for x using that by (simp add: u_def cnode_upd_other)
  have ua: "fixed (cnode u a) = fixed (cnode s1 a)" "cn_gcNext (cnode u a) = cn_gcNext (cnode s1 a)"
    using assms(2) len1 by (auto simp: u_def cnode_upd fixed_def)
  have dropu: "set (drop j (cn_children (cnode u a))) = set (drop i ?cs) - {?c}"
    using R set_drop_swap_remove [OF dist i] by (simp add: j_def kidsu)
  have takeu: "set (take j (cn_children (cnode u a))) = set (take i ?cs) \<union> (if refs_of s ?c \<noteq> 0 then {?c} else {})"
    using i c(1) Suc.prems(2) by (auto simp: j_def kidsu take_Suc_conv_app_nth take_swap_remove refs_of_def r_def)
  have fx: "fixed (cnode u x) = fixed (cnode s x)" if "x < length (ct_nodes s)" for x
    using swept_fixed [OF sw that] ux ua by (cases "x = a") auto
  have cpu: "cparent u = cparent s"
    by (rule fixed_cong) (use fx lenu Suc.prems(2) in auto)
  have shu: "cshape u"
  proof (rule cshape_shrink [OF sh1])
    show "length (ct_nodes u) = length (ct_nodes s1)" using lenu len1 by simp
    fix x assume x: "x < length (ct_nodes s1)"
    show "cn_parent (cnode u x) = cn_parent (cnode s1 x) \<and> distinct (cn_children (cnode u x)) \<and>
        set (cn_children (cnode u x)) \<subseteq> set (cn_children (cnode s1 x))"
    proof (cases "x = a")
      case True
      then show ?thesis
        using ua dist distinct_swap_remove [OF dist i] kidsu a1 by (auto simp: fixed_def)
    next
      case False
      then show ?thesis using ux cshape_distinct [OF sh1 x] by simp
    qed
  qed
  have upu: "\<forall>d \<in> set (drop j (cn_children (cnode u a))). flags_up u d"
  proof
    fix d assume d: "d \<in> set (drop j (cn_children (cnode u a)))"
    then have dd: "d \<in> set (drop i ?cs)" "d \<noteq> ?c" using dropu by auto
    then have dk: "cparent s d = Some a" "a < d" using kid in_set_dropD by fast+
    show "flags_up u d"
    proof (rule flags_up_cong [of s])
      show "flags_up s d" using Suc.prems(4) dd(1) by blast
      fix x assume x: "x < length (ct_nodes s)" "tree_anc (cparent s) d x"
      have "\<not> tree_anc (cparent s) ?c x"
        using tree_anc_siblings(3) [OF dec c(2) dk(1), of x] dd(2) x(2) by auto
      moreover have "x \<noteq> a" using tree_anc_le [OF dec x(2)] dk(2) by auto
      ultimately show "cnode u x = cnode s x" using ux sw x(1) by (simp add: swept_def flagged_def)
    qed (use cpu lenu Suc.prems in auto)
  qed
  have "j + rounds = length (cn_children (cnode u a))"
    using Suc.prems(3) by (auto simp: j_def kidsu)
  then obtain s' unref cbs2 where s': "sweep_loop sweep a j rounds u = Some (s', unref, cbs2)"
    "loop_swept a j u s'" "\<forall>x \<in> set unref \<union> set cbs2. purgeable u x" "droppable u a j \<subseteq> set unref"
    using Suc.IH [OF shu lenu _ upu] by blast
  have "set (cn_children (cnode u y)) \<subseteq> set (cn_children (cnode s y))" if "y < length (ct_nodes s)" for y
    using that sw distinct_swap_remove(2) [OF dist i] ux [of y]
    by (cases "y = a"; cases "flagged s ?c y") (auto simp: kidsu swept_def swept_node_def)
  then have pu: "purgeable u x \<Longrightarrow> purgeable s x" for x
    using purgeable_mono [of u x s] fx lenu Suc.prems(2) by simp
  have px: "purgeable s ?c" if "\<not> r" "cn_xmitted (cnode u ?c)"
    using that fx [of ?c] c(1) i Suc.prems(2) assms(2) by (auto simp: purgeable_def r_def fixed_def)
  have dr: "d = ?c \<and> \<not> r \<and> cn_xmitted (cnode u d) \<or> d \<in> set unref" if d: "d \<in> droppable s a i" for d
  proof -
    have dl: "d \<in> set (drop i ?cs)" "cn_refCount (cnode s d) = 0" "cn_xmitted (cnode s d)"
      using d by (simp_all add: droppable_def)
    have "d < length (ct_nodes s)" using kid in_set_dropD [OF dl(1)] Suc.prems(2) by blast
    then have "cn_refCount (cnode u d) = 0" "cn_xmitted (cnode u d)"
      using fx dl by (simp_all add: fixed_def)
    then show ?thesis
      using s'(4) dl dropu by (cases "d = ?c") (auto simp: droppable_def r_def)
  qed
  have "loop_swept a i s s'"
    by (rule loop_swept_step [OF Suc.prems(1) _ i refl sw _ rs ux ua dropu takeu s'(2)])
       (use assms(2) lenu Suc.prems(2) in simp_all)
  then show ?case
    using s1 s'(1,3) pc pu px dr by (cases r) (auto simp: Let_def u_def j_def subset_iff)
qed

lemma node_gcSweep_sweeps:
  "a < L \<Longrightarrow> L - a \<le> fuel \<Longrightarrow> sweeps L (node_gcSweep fuel) a"
proof (induction fuel arbitrary: a)
  case (Suc fuel)
  show ?case
    unfolding sweeps_def
  proof (intro allI impI)
    fix s assume s: "cshape s" "length (ct_nodes s) = L" "flags_up s a"
    have root: "(cn_parent (cnode s a) = None) = (a = 0)"
      using cshape_root [OF s(1)] cshape_has_parent [OF s(1), of a] Suc.prems(1) s(2)
      by (cases "a = 0") auto
    show "\<exists>s' cbs. node_gcSweep (Suc fuel) a s = Some (s', cn_refCount (cnode s a) \<noteq> 0 \<or> a = 0, cbs) \<and>
        swept a s s' \<and> (\<forall>x \<in> set cbs. purgeable s x) \<and>
        (cn_gcNext (cnode s a) \<and> a = 0 \<longrightarrow> droppable s a 0 \<subseteq> set cbs)"
    proof (cases "cn_gcNext (cnode s a)")
      case False
      then have "\<not> flagged s a x" if "x < L" for x
        using flags_up_top [OF s(3,1)] that s(2) by blast
      then have "swept a s s" using s(2) by (simp add: swept_def)
      then show ?thesis using False root by (simp add: Let_def)
    next
      case True
      let ?s1 = "upd_cnode a (\<lambda>n. n\<lparr>cn_gcNext := False\<rparr>) s"
      have fx: "fixed (cnode ?s1 x) = fixed (cnode s x)" for x
        by (simp add: cnode_upd_field fixed_def)
      have ch: "cn_children (cnode ?s1 x) = cn_children (cnode s x)" for x
        by (simp add: cnode_upd_field)
      have cp: "cparent ?s1 = cparent s" and rf: "refs_of ?s1 = refs_of s"
        using fixed_cong [of ?s1 s] fixed_refs [of ?s1 s] fx by auto
      have sh1: "cshape ?s1"
        by (rule cshape_shrink [OF s(1)])
           (use ch fx cshape_distinct [OF s(1)] in \<open>auto simp: fixed_def\<close>)
      have kid: "d < L \<and> cparent s d = Some a \<and> a < d" if "d \<in> set (cn_children (cnode s a))" for d
        using cshape_child [OF s(1), of a d] Suc.prems(1) s(2) that by simp
      have other: "cnode ?s1 x = cnode s x" if "x \<noteq> a" for x using that by (rule cnode_upd_other)
      have up: "\<forall>c \<in> set (drop 0 (cn_children (cnode ?s1 a))). flags_up ?s1 c"
      proof
        fix c assume "c \<in> set (drop 0 (cn_children (cnode ?s1 a)))"
        then have c: "cparent s c = Some a" "a < c" using kid ch by auto
        show "flags_up ?s1 c"
        proof (rule flags_up_cong [of s])
          show "flags_up s c" using flags_up_sub [OF s(3,1) tree_anc_child] c(1) .
          fix x assume "tree_anc (cparent s) c x"
          then have "x \<noteq> a" using tree_anc_le [OF cshape_decreasing [OF s(1)], of c x] c(2) by auto
          then show "cnode ?s1 x = cnode s x" by (rule other)
        qed (simp_all add: cp s(1))
      qed
      have "sweeps L (node_gcSweep fuel) c" if "a < c" "c < L" for c
        using Suc that by simp
      then obtain s' unref cbs where s': "sweep_loop (node_gcSweep fuel) a 0
          (length (cn_children (cnode s a))) ?s1 = Some (s', unref, cbs)" "loop_swept a 0 ?s1 s'"
          "\<forall>x \<in> set unref \<union> set cbs. purgeable ?s1 x" "droppable ?s1 a 0 \<subseteq> set unref"
        using sweep_loop_result [OF _ Suc.prems(1) sh1 _ _ up, of "node_gcSweep fuel"
            "length (cn_children (cnode s a))"] s(2) ch by auto
      have "swept a s s'"
        unfolding swept_def
      proof (intro conjI allI impI)
        show "rest_same s s'"
          using s'(2) rest_same_trans [of s ?s1 s'] by (simp add: loop_swept_def rest_same_def)
        fix x assume x: "x < length (ct_nodes s)"
        show "if flagged s a x then swept_node (refs_of s) (cnode s x) (cnode s' x) else cnode s' x = cnode s x"
        proof (cases "x = a")
          case True
          have "\<not> cn_gcNext (cnode ?s1 a)" using Suc.prems(1) s(2) by (simp add: cnode_upd)
          then have "swept_node (refs_of s) (cnode s a) (cnode s' a)"
            using s'(2) by (simp add: loop_swept_def swept_node_def fx ch rf)
          then show ?thesis using True \<open>cn_gcNext (cnode s a)\<close> by (simp add: flagged_def)
        next
          case False
          have fl: "flagged ?s1 c x = flagged s c x" for c by (simp add: flagged_def cp other [OF False])
          have "(\<exists>c \<in> set (drop 0 (cn_children (cnode ?s1 a))). flagged ?s1 c x) = flagged s a x"
            unfolding fl ch
            using flagged_child [OF s(3,1) x _ False] kid tree_anc_trans [of "cparent s" a _ x]
              tree_anc_child [of "cparent s" _ a] by (auto simp: flagged_def)
          moreover have "if \<exists>c \<in> set (drop 0 (cn_children (cnode ?s1 a))). flagged ?s1 c x
              then swept_node (refs_of s) (cnode s x) (cnode s' x) else cnode s' x = cnode s x"
            using s'(2) [unfolded loop_swept_def, THEN conjunct2, THEN conjunct1, rule_format, of x] x False
            unfolding rf other [OF False] by simp
          ultimately show ?thesis by (simp only:)
        qed
      qed
      moreover from this have "fixed (cnode s' a) = fixed (cnode s a)"
        using swept_fixed Suc.prems(1) s(2) by blast
      moreover have "purgeable ?s1 x \<Longrightarrow> purgeable s x" for x
        using purgeable_mono [of ?s1 x s] fx ch by simp
      moreover have "droppable s a 0 \<subseteq> set unref"
        using s'(4) fx ch by (simp add: droppable_def fixed_def)
      ultimately show ?thesis using True s'(1,3) root by (auto simp: Let_def fixed_def)
    qed
  qed
qed simp

subsection \<open>The invariant\<close>

text \<open>
  \<open>counts t L\<close>: the reference count of a node is the number of times that the attached
  queries, in the list \<open>L\<close>, hold it. \<open>closed\<close>: a query that holds a node holds its parent.
\<close>

definition counts :: "QueryTree \<Rightarrow> addr list \<Rightarrow> bool" where
  "counts t L \<longleftrightarrow> length L < 2 ^ 32 \<and>
     (\<forall>a \<in> set L. a \<noteq> 0 \<and> a < length (ct_nodes t)) \<and>
     (\<forall>a < length (ct_nodes t). unat (cn_refCount (cnode t a)) = count_list L a)"

definition closed :: "QueryTree \<Rightarrow> addr list \<Rightarrow> bool" where
  "closed t xs \<longleftrightarrow> (\<forall>a \<in> set xs. \<exists>p. cn_parent (cnode t a) = Some p \<and> (p = 0 \<or> p \<in> set xs) \<and>
     a \<in> set (cn_children (cnode t p)))"

definition used :: "QueryTree \<Rightarrow> addr \<Rightarrow> bool" where
  "used t p \<longleftrightarrow> p = 0 \<or> cn_refCount (cnode t p) \<noteq> 0"

definition clean :: "QueryTree \<Rightarrow> bool" where
  "clean t \<longleftrightarrow> (\<forall>p < length (ct_nodes t). used t p \<longrightarrow>
     (\<forall>c \<in> set (cn_children (cnode t p)). cn_refCount (cnode t c) \<noteq> 0))"

definition attached_nodes :: "QueryTree \<Rightarrow> addr list" where
  "attached_nodes t = concat (map snd (ct_attached t))"

text \<open>The root has the id 0, and only its children are ever marked as transmitted.\<close>

definition top_xmit :: "QueryTree \<Rightarrow> bool" where
  "top_xmit t \<longleftrightarrow> cn_id (cnode t 0) = 0 \<and>
     (\<forall>a < length (ct_nodes t). cn_xmitted (cnode t a) \<longrightarrow> cn_parent (cnode t a) = Some 0)"

text \<open>The invariant with the nodes that an unfinished \<open>Attach\<close> holds.\<close>

definition ct_inv_with :: "addr list \<Rightarrow> QueryTree \<Rightarrow> bool" where
  "ct_inv_with cur t \<longleftrightarrow> cshape t \<and> counts t (attached_nodes t @ cur) \<and>
     (\<forall>x \<in> set (ct_attached t). closed t (snd x)) \<and> closed t cur \<and>
     distinct (map fst (ct_attached t)) \<and> clean t \<and>
     (\<forall>a < length (ct_nodes t). \<not> cn_gcNext (cnode t a)) \<and> top_xmit t"

text \<open>The children of the root have been sent to the server, those in \<open>xs\<close> apart.\<close>

definition tops_sent :: "addr list \<Rightarrow> QueryTree \<Rightarrow> bool" where
  "tops_sent xs t \<longleftrightarrow> (\<forall>c \<in> set (cn_children (cnode t 0)). cn_xmitted (cnode t c) \<or> c \<in> set xs)"

text \<open>Between two operations, with room for \<open>n\<close> more references.\<close>

definition ct_inv :: "nat \<Rightarrow> QueryTree \<Rightarrow> bool" where
  "ct_inv n t \<longleftrightarrow> ct_inv_with [] t \<and> tops_sent [] t \<and> length (attached_nodes t) + n < 2 ^ 32"

lemma count_list_pos: "count_list xs a \<noteq> 0 \<longleftrightarrow> a \<in> set xs"
  by (metis count_list_0_iff)

lemma counts_used:
  assumes "counts t L" and "a < length (ct_nodes t)"
  shows "cn_refCount (cnode t a) \<noteq> 0 \<longleftrightarrow> a \<in> set L"
proof -
  have "unat (cn_refCount (cnode t a)) = count_list L a" using assms by (simp add: counts_def)
  then show ?thesis by (metis count_list_pos unat_eq_0)
qed

subsection \<open>Flags and references\<close>

lemma flagGcNext_result:
  assumes "cshape t" and "a < length (ct_nodes t)" and "a < fuel"
  shows "\<exists>t'. flagGcNext fuel a t = Some t' \<and> rest_same t t' \<and>
     (\<forall>x < length (ct_nodes t). cnode t' x =
        (if tree_anc (cparent t) x a then (cnode t x)\<lparr>cn_gcNext := True\<rparr> else cnode t x))"
  using assms
proof (induction fuel arbitrary: a t)
  case (Suc fuel)
  let ?t1 = "upd_cnode a (\<lambda>n. n\<lparr>cn_gcNext := True\<rparr>) t"
  have len1: "length (ct_nodes ?t1) = length (ct_nodes t)" by simp
  have n1: "cnode ?t1 x = (if x = a then (cnode t x)\<lparr>cn_gcNext := True\<rparr> else cnode t x)"
    if "x < length (ct_nodes t)" for x using that by (simp add: cnode_upd)
  have cp1: "cparent ?t1 = cparent t"
    by (rule fixed_cong) (simp_all add: n1 fixed_def)
  have sh1: "cshape ?t1"
    by (rule cshape_shrink [OF Suc.prems(1)]) (use n1 cshape_distinct [OF Suc.prems(1)] in auto)
  show ?case
  proof (cases "cn_parent (cnode t a)")
    case None
    then have "cparent t a = None" by (simp add: cparent_def)
    then have "tree_anc (cparent t) x a \<longleftrightarrow> x = a" for x
      using tree_anc_last [of "cparent t" x a] by auto
    then show ?thesis using None n1 by (simp add: Let_def rest_same_def)
  next
    case (Some p)
    have p: "p < a" "p < length (ct_nodes t)" using cshape_parent [OF Suc.prems(1,2) Some] Suc.prems(2) by auto
    have cpa: "cparent t a = Some p" using Some Suc.prems(2) by (simp add: cparent_def)
    obtain t' where t': "flagGcNext fuel p ?t1 = Some t'" "rest_same ?t1 t'"
      and n': "\<forall>x < length (ct_nodes t). cnode t' x =
        (if tree_anc (cparent t) x p then (cnode ?t1 x)\<lparr>cn_gcNext := True\<rparr> else cnode ?t1 x)"
      using Suc.IH [OF sh1, of p] p Suc.prems(3) unfolding len1 cp1 by auto
    have anc: "tree_anc (cparent t) x a \<longleftrightarrow> x = a \<or> tree_anc (cparent t) x p" for x
      using tree_anc_last [of "cparent t" x a] tree_anc_step [of "cparent t" x p a] cpa by auto
    have "cnode t' x = (if tree_anc (cparent t) x a then (cnode t x)\<lparr>cn_gcNext := True\<rparr> else cnode t x)"
      if "x < length (ct_nodes t)" for x
      using n' that n1 [OF that] anc by auto
    moreover have "rest_same t t'" using t'(2) by (simp add: rest_same_def)
    ultimately show ?thesis using Some t'(1) by (simp add: Let_def)
  qed
qed simp

text \<open>
  The fields that neither flags nor reference counts change; the flags of a tree between the
  decrement and the sweep: closed upwards along the children lists, and set on every node of
  \<open>L\<close> that has lost its last reference.
\<close>

definition frame :: "qtNode \<Rightarrow> u32 \<times> string \<times> addr option \<times> addr list \<times> argsMap \<times> addr option \<times> bool" where
  "frame n = (cn_id n, cn_name n, cn_objDef n, cn_children n, cn_args n, cn_parent n, cn_xmitted n)"

definition same_frame :: "QueryTree \<Rightarrow> QueryTree \<Rightarrow> bool" where
  "same_frame t t' \<longleftrightarrow> rest_same t t' \<and>
     (\<forall>x < length (ct_nodes t). frame (cnode t' x) = frame (cnode t x))"

definition flags_closed :: "QueryTree \<Rightarrow> bool" where
  "flags_closed t \<longleftrightarrow> (\<forall>x < length (ct_nodes t). x \<noteq> 0 \<longrightarrow> cn_gcNext (cnode t x) \<longrightarrow>
     (\<exists>p. cn_parent (cnode t x) = Some p \<and> cn_gcNext (cnode t p) \<and> x \<in> set (cn_children (cnode t p))))"

definition zeros_flagged :: "addr list \<Rightarrow> QueryTree \<Rightarrow> bool" where
  "zeros_flagged L t \<longleftrightarrow> (\<forall>a \<in> set L. cn_refCount (cnode t a) = 0 \<longrightarrow> cn_gcNext (cnode t a))"

lemma same_frame_refl [simp]: "same_frame t t"
  by (simp add: same_frame_def)

lemma same_frame_trans: "same_frame a b \<Longrightarrow> same_frame b c \<Longrightarrow> same_frame a c"
  using rest_same_trans [of a b c] by (auto simp: same_frame_def rest_same_def)

lemma same_frame_shape:
  assumes "same_frame t t'" and "cshape t"
  shows "cshape t'" and "cparent t' = cparent t"
proof -
  have len: "length (ct_nodes t') = length (ct_nodes t)" using assms(1) by (simp add: same_frame_def rest_same_def)
  have fr: "frame (cnode t' x) = frame (cnode t x)" if "x < length (ct_nodes t)" for x
    using assms(1) that by (simp add: same_frame_def)
  show "cshape t'"
    by (rule cshape_shrink [OF assms(2) len])
       (use fr cshape_distinct [OF assms(2)] in \<open>auto simp: frame_def\<close>)
  show "cparent t' = cparent t"
    using fr len by (auto simp: cparent_def frame_def fun_eq_iff)
qed

lemma counts_shrink:
  assumes "counts t (a # L)"
  shows "counts (upd_cnode a (\<lambda>n. n\<lparr>cn_refCount := cn_refCount n - 1\<rparr>) t) L"
proof -
  let ?t = "upd_cnode a (\<lambda>n. n\<lparr>cn_refCount := cn_refCount n - 1\<rparr>) t"
  have a: "a < length (ct_nodes t)" "unat (cn_refCount (cnode t a)) = Suc (count_list L a)"
    using assms by (auto simp: counts_def)
  then have "cn_refCount (cnode t a) \<noteq> 0" by auto
  then have "unat (cn_refCount (cnode t a) - 1) = count_list L a"
    using a(2) by (simp add: unat_minus_one)
  then show ?thesis
    using assms by (auto simp: counts_def cnode_upd)
qed

lemma counts_cong:
  "mset L = mset L' \<Longrightarrow> counts t L = counts t L'"
  unfolding counts_def by (metis count_mset mset_eq_length set_mset_mset)

lemma counts_refs:
  assumes "counts t L" and "length (ct_nodes t') = length (ct_nodes t)"
    and "\<And>x. x < length (ct_nodes t) \<Longrightarrow> cn_refCount (cnode t' x) = cn_refCount (cnode t x)"
  shows "counts t' L"
  using assms by (simp add: counts_def)

lemma closed_up:
  assumes "cshape t" and "closed t L" and "\<forall>b \<in> set L. b < length (ct_nodes t)"
    and "tree_anc (cparent t) x a" and "a = 0 \<or> a \<in> set L"
  shows "x = 0 \<or> x \<in> set L"
  using assms(4,5)
proof (induction a rule: less_induct)
  case (less a)
  show ?case
  proof (cases "x = a")
    case False
    then obtain p where p: "cparent t a = Some p" "tree_anc (cparent t) x p"
      using tree_anc_last less.prems(1) by blast
    then have pa: "p < a" using cshape_decreasing [OF assms(1)] by (simp add: decreasing_def)
    then have "a \<in> set L" using less.prems(2) by auto
    moreover have "cn_parent (cnode t a) = Some p" using p(1) by (simp add: cparent_def split: if_splits)
    ultimately have "p = 0 \<or> p \<in> set L" using assms(2) by (auto simp: closed_def)
    then show ?thesis using less.IH [OF pa p(2)] by blast
  qed (use less.prems in simp)
qed

lemma closed_frame:
  assumes "same_frame t t'" and "closed t L" and "cshape t" and "\<forall>b \<in> set L. b < length (ct_nodes t)"
  shows "closed t' L"
  unfolding closed_def
proof
  fix a assume a: "a \<in> set L"
  then obtain p where p: "cn_parent (cnode t a) = Some p" "p = 0 \<or> p \<in> set L"
      "a \<in> set (cn_children (cnode t p))"
    using assms(2) by (auto simp: closed_def)
  have al: "a < length (ct_nodes t)" using assms(4) a by simp
  then have "p < length (ct_nodes t)" using cshape_parent [OF assms(3) al p(1)] by simp
  then have "frame (cnode t' p) = frame (cnode t p)" "frame (cnode t' a) = frame (cnode t a)"
    using assms(1) al by (simp_all add: same_frame_def)
  then show "\<exists>p. cn_parent (cnode t' a) = Some p \<and> (p = 0 \<or> p \<in> set L) \<and>
      a \<in> set (cn_children (cnode t' p))"
    using p by (auto simp: frame_def)
qed

lemma flagGcNext_flags:
  assumes "cshape t" and "flags_closed t" and "closed t L" and "\<forall>b \<in> set L. b < length (ct_nodes t)"
    and "a \<in> set L"
  shows "\<exists>t'. flagGcNext (length (ct_nodes t)) a t = Some t' \<and> same_frame t t' \<and> flags_closed t' \<and>
     (\<forall>x < length (ct_nodes t). cn_refCount (cnode t' x) = cn_refCount (cnode t x) \<and>
        (cn_gcNext (cnode t x) \<longrightarrow> cn_gcNext (cnode t' x))) \<and> cn_gcNext (cnode t' a)"
proof -
  have a: "a < length (ct_nodes t)" using assms(4,5) by blast
  obtain t' where t': "flagGcNext (length (ct_nodes t)) a t = Some t'" "rest_same t t'"
    and n': "\<And>x. x < length (ct_nodes t) \<Longrightarrow> cnode t' x =
        (if tree_anc (cparent t) x a then (cnode t x)\<lparr>cn_gcNext := True\<rparr> else cnode t x)"
    using flagGcNext_result [OF assms(1) a a] by blast
  have fr: "same_frame t t'" using t'(2) n' by (simp add: same_frame_def frame_def)
  have fx: "frame (cnode t' x) = frame (cnode t x)" if "x < length (ct_nodes t)" for x
    using fr that by (simp add: same_frame_def)
  have len: "length (ct_nodes t') = length (ct_nodes t)" using t'(2) by (simp add: rest_same_def)
  have "flags_closed t'"
    unfolding flags_closed_def len
  proof (intro allI impI)
    fix x assume x: "x < length (ct_nodes t)" "x \<noteq> 0" "cn_gcNext (cnode t' x)"
    obtain p where p: "p < x" "cn_parent (cnode t x) = Some p"
      using cshape_has_parent [OF assms(1) x(1,2)] by blast
    then have pl: "p < length (ct_nodes t)" using x(1) by simp
    have "cn_gcNext (cnode t' p) \<and> x \<in> set (cn_children (cnode t p))"
    proof (cases "tree_anc (cparent t) x a")
      case True
      have "x \<in> set L" using closed_up [OF assms(1,3,4) True] assms(5) x(2) by blast
      then have "x \<in> set (cn_children (cnode t p))" using assms(3) p(2) by (auto simp: closed_def)
      moreover have "tree_anc (cparent t) p a"
        using tree_anc_trans [OF tree_anc_child True] p(2) x(1) by (simp add: cparent_def)
      ultimately show ?thesis using n' [OF pl] by simp
    next
      case False
      then have "cn_gcNext (cnode t x)" using x(3) n' [OF x(1)] by simp
      then have "cn_gcNext (cnode t p) \<and> x \<in> set (cn_children (cnode t p))"
        using assms(2) x(1,2) p(2) by (auto simp: flags_closed_def)
      then show ?thesis using n' [OF pl] by simp
    qed
    then show "\<exists>p. cn_parent (cnode t' x) = Some p \<and> cn_gcNext (cnode t' p) \<and>
        x \<in> set (cn_children (cnode t' p))"
      using p(2) fx [OF x(1)] fx [OF pl] by (auto simp: frame_def)
  qed
  then show ?thesis using t'(1) fr n' a by auto
qed

lemma unref_nodes_result:
  assumes "cshape t" and "counts t (as @ M)" and "closed t L" and "\<forall>b \<in> set L. b < length (ct_nodes t)"
    and "set as \<subseteq> set L" and "flags_closed t" and "zeros_flagged L t"
  shows "\<exists>t' sweep. unref_nodes as t = Some (t', sweep) \<and> same_frame t t' \<and> counts t' M \<and>
     flags_closed t' \<and> zeros_flagged L t' \<and>
     (\<not> sweep \<longrightarrow> (\<forall>x < length (ct_nodes t). cn_gcNext (cnode t' x) = cn_gcNext (cnode t x)))"
  using assms
proof (induction as arbitrary: t)
  case (Cons a as)
  let ?t1 = "upd_cnode a (\<lambda>n. n\<lparr>cn_refCount := cn_refCount n - 1\<rparr>) t"
  have a: "a \<in> set L" "a < length (ct_nodes t)" using Cons.prems(4,5) by auto
  have len1: "length (ct_nodes ?t1) = length (ct_nodes t)" by simp
  have fr1: "frame (cnode ?t1 x) = frame (cnode t x)" for x
    by (rule cnode_upd_field) (simp add: frame_def)
  have gc1: "cn_gcNext (cnode ?t1 x) = cn_gcNext (cnode t x)" for x
    by (rule cnode_upd_field) simp
  have sf1: "same_frame t ?t1" using fr1 by (simp add: same_frame_def rest_same_def)
  note sh1 = same_frame_shape(1) [OF sf1 Cons.prems(1)]
  have c1: "counts ?t1 (as @ M)" using counts_shrink [of t a "as @ M"] Cons.prems(2) by simp
  have cl1: "closed ?t1 L" using closed_frame [OF sf1 Cons.prems(3,1,4)] .
  have fc1: "flags_closed ?t1"
    using Cons.prems(6) fr1 by (simp add: flags_closed_def gc1 frame_def)
  have L1: "\<forall>b \<in> set L. b < length (ct_nodes ?t1)" using Cons.prems(4) by simp
  have as: "set as \<subseteq> set L" using Cons.prems(5) by simp
  have z1: "zeros_flagged L ?t1" if "cn_refCount (cnode ?t1 a) \<noteq> 0"
    unfolding zeros_flagged_def
  proof (intro ballI impI)
    fix b assume b: "b \<in> set L" "cn_refCount (cnode ?t1 b) = 0"
    then have "b \<noteq> a" using that by auto
    then show "cn_gcNext (cnode ?t1 b)"
      using Cons.prems(7) b by (simp add: zeros_flagged_def cnode_upd_other)
  qed
  show ?case
  proof (cases "cn_refCount (cnode ?t1 a) = 0")
    case False
    obtain t' sweep where t': "unref_nodes as ?t1 = Some (t', sweep)" "same_frame ?t1 t'" "counts t' M"
      "flags_closed t'" "zeros_flagged L t'"
      "\<not> sweep \<longrightarrow> (\<forall>x < length (ct_nodes ?t1). cn_gcNext (cnode t' x) = cn_gcNext (cnode ?t1 x))"
      using Cons.IH [OF sh1 c1 cl1 L1 as fc1 z1 [OF False]] by blast
    then show ?thesis
      using False same_frame_trans [OF sf1 t'(2)] by (simp add: Let_def gc1)
  next
    case True
    obtain t2 where t2: "flagGcNext (length (ct_nodes ?t1)) a ?t1 = Some t2" "same_frame ?t1 t2" "flags_closed t2"
      and n2: "\<And>x. x < length (ct_nodes t) \<Longrightarrow> cn_refCount (cnode t2 x) = cn_refCount (cnode ?t1 x)"
        "\<And>x. x < length (ct_nodes t) \<Longrightarrow> cn_gcNext (cnode ?t1 x) \<Longrightarrow> cn_gcNext (cnode t2 x)"
        "cn_gcNext (cnode t2 a)"
      using flagGcNext_flags [OF sh1 fc1 cl1 L1 a(1)] unfolding len1 by blast
    have len2: "length (ct_nodes t2) = length (ct_nodes t)" using t2(2) by (simp add: same_frame_def rest_same_def)
    have c2: "counts t2 (as @ M)" using counts_refs [OF c1] n2(1) len2 by simp
    have z2: "zeros_flagged L t2"
      unfolding zeros_flagged_def
    proof (intro ballI impI)
      fix b assume b: "b \<in> set L" "cn_refCount (cnode t2 b) = 0"
      have bl: "b < length (ct_nodes t)" using b(1) Cons.prems(4) by blast
      show "cn_gcNext (cnode t2 b)"
      proof (cases "b = a")
        case False
        then have "cn_gcNext (cnode t b)"
          using Cons.prems(7) b n2(1) [OF bl] by (simp add: zeros_flagged_def cnode_upd_other)
        then show ?thesis using n2(2) [OF bl] gc1 by simp
      qed (use n2(3) in simp)
    qed
    obtain t' sweep where t': "unref_nodes as t2 = Some (t', sweep)" "same_frame t2 t'" "counts t' M"
      "flags_closed t'" "zeros_flagged L t'"
      using Cons.IH [OF same_frame_shape(1) [OF t2(2) sh1] c2 closed_frame [OF t2(2) cl1 sh1 L1] _ as t2(3) z2]
        Cons.prems(4) len2 by auto
    show ?thesis
      using True t2(1) t' same_frame_trans [OF sf1 same_frame_trans [OF t2(2) t'(2)]]
      by (intro exI [of _ t'] exI [of _ True]) (simp add: Let_def)
  qed
qed auto

end
