(* ===== verification/QueryAttach.thy ===== *)
theory QueryAttach
  imports QueryTree
begin

text \<open>
  Attaching and detaching queries (\<open>Attach\<close>, \<open>Detach\<close> of \<open>client/query-tree.go\<close>): what a
  collection does between a decrement and the end of an operation, what a visit keeps, and the
  properties of the two operations.
\<close>

subsection \<open>A collection\<close>

definition delete_message :: "QueryTree \<Rightarrow> addr list \<Rightarrow> RGQLQueryTreeMutation list" where
  "delete_message t cbs = (if cbs = [] then []
     else [\<lparr>tm_query_id = 0,
       tm_node_mutation = map (\<lambda>a. \<lparr>nm_node_id = cn_id (cnode t a),
           nm_operation = SUBTREE_DELETE, nm_node = None, nm_unknown = []\<rparr>) cbs,
       tm_variables = [], tm_unknown = []\<rparr>])"

lemma delete_message_fixed:
  assumes "\<And>x. x \<in> set cbs \<Longrightarrow> fixed (cnode t' x) = fixed (cnode t x)"
  shows "delete_message t' cbs = delete_message t cbs"
  using assms by (auto simp: delete_message_def fixed_def)

text \<open>Every node is below the root.\<close>

lemma below_root:
  assumes "cshape t" and "x < length (ct_nodes t)"
  shows "tree_anc (cparent t) 0 x"
  using assms(2)
proof (induction x rule: less_induct)
  case (less x)
  show ?case
  proof (cases "x = 0")
    case False
    then obtain p where "p < x" "cn_parent (cnode t x) = Some p"
      using cshape_has_parent [OF assms(1) less.prems] by blast
    moreover from this have "cparent t x = Some p" using less.prems by (simp add: cparent_def)
    ultimately show ?thesis using less tree_anc_step [of "cparent t" 0 p x] by simp
  qed simp
qed

text \<open>
  The state of the tree, messages apart, after a collection.
\<close>

definition collected :: "QueryTree \<Rightarrow> QueryTree \<Rightarrow> bool" where
  "collected t t' \<longleftrightarrow> length (ct_nodes t') = length (ct_nodes t) \<and> ct_varStore t' = ct_varStore t \<and>
     ct_attached t' = ct_attached t \<and> ct_pending t' = ct_pending t \<and> ct_nextID t' = ct_nextID t \<and>
     (\<forall>x < length (ct_nodes t).
        if cn_gcNext (cnode t x) then swept_node (refs_of t) (cnode t x) (cnode t' x)
        else cnode t' x = cnode t x)"

lemma gcSweep_result:
  assumes "cshape t" and "flags_closed t"
  shows "\<exists>t' cbs. gcSweep t = Some t' \<and> collected t t' \<and> cshape t' \<and>
     ct_out t' = ct_out t @ delete_message t cbs \<and> (\<forall>x \<in> set cbs. purgeable t x) \<and>
     (cn_gcNext (cnode t 0) \<longrightarrow> droppable t 0 0 \<subseteq> set cbs)"
proof -
  have 0: "0 < length (ct_nodes t)" using cshape_root(2) [OF assms(1)] .
  have "flags_up t 0" using assms(2) by (simp add: flags_up_def flags_closed_def)
  moreover have "sweeps (length (ct_nodes t)) (node_gcSweep (length (ct_nodes t))) 0"
    using node_gcSweep_sweeps [OF 0] by simp
  ultimately obtain s cbs where s: "node_gcSweep (length (ct_nodes t)) 0 t = Some (s, True, cbs)"
      "swept 0 t s" "\<forall>x \<in> set cbs. purgeable t x" "cn_gcNext (cnode t 0) \<longrightarrow> droppable t 0 0 \<subseteq> set cbs"
    using assms(1) unfolding sweeps_def by auto
  have fl: "flagged t 0 x = cn_gcNext (cnode t x)" if "x < length (ct_nodes t)" for x
    using below_root [OF assms(1) that] by (simp add: flagged_def)
  have msg: "delete_message s cbs = delete_message t cbs"
    by (rule delete_message_fixed) (use s(3) swept_fixed [OF s(2)] in \<open>auto simp: purgeable_def\<close>)
  let ?t' = "s\<lparr>ct_out := ct_out s @ delete_message s cbs\<rparr>"
  have "gcSweep t = Some ?t'"
    using s(1) by (simp add: gcSweep_def delete_message_def)
  moreover have "collected t ?t'"
    using s(2) fl by (simp add: collected_def swept_def rest_same_def)
  moreover have "ct_out ?t' = ct_out t @ delete_message t cbs"
    using s(2) msg by (simp add: swept_def rest_same_def)
  moreover have "cshape ?t'"
    by (rule cshape_shrink [OF swept_shape [OF s(2) assms(1)]])
       (use cshape_distinct [OF swept_shape [OF s(2) assms(1)]] in simp_all)
  ultimately show ?thesis using s(3,4) by blast
qed

lemma gcSweep_idle:
  assumes "cshape t" and "\<not> cn_gcNext (cnode t 0)"
  shows "gcSweep t = Some t"
  using cshape_root(2) [OF assms(1)] assms(2)
  by (cases "ct_nodes t") (simp_all add: gcSweep_def Let_def cshape_root(1) [OF assms(1)])

lemma collected_fixed:
  "collected t t' \<Longrightarrow> x < length (ct_nodes t) \<Longrightarrow> fixed (cnode t' x) = fixed (cnode t x)"
  unfolding collected_def swept_node_def by metis

lemma collected_children:
  assumes "collected t t'" and "x < length (ct_nodes t)"
  shows "c \<in> set (cn_children (cnode t' x)) \<longleftrightarrow> c \<in> set (cn_children (cnode t x)) \<and>
     (cn_gcNext (cnode t x) \<longrightarrow> refs_of t c \<noteq> 0)"
  using assms unfolding collected_def swept_node_def by (metis (mono_tags, lifting) mem_Collect_eq)

subsection \<open>From the decrement to the invariant\<close>

text \<open>
  The state between the decrement of the nodes in \<open>L\<close> and the collection: the other queries
  hold the nodes of \<open>M\<close>.
\<close>

definition between :: "addr list \<Rightarrow> addr list \<Rightarrow> QueryTree \<Rightarrow> bool" where
  "between L M t \<longleftrightarrow> cshape t \<and> counts t M \<and> flags_closed t \<and> zeros_flagged L t \<and> top_xmit t \<and>
     (\<forall>p < length (ct_nodes t). used t p \<longrightarrow>
        (\<forall>c \<in> set (cn_children (cnode t p)). cn_refCount (cnode t c) = 0 \<longrightarrow> c \<in> set L))"

lemma collected_used:
  "collected t t' \<Longrightarrow> x < length (ct_nodes t) \<Longrightarrow> used t' x = used t x"
  using collected_fixed [of t t' x] by (simp add: used_def fixed_def)

lemma between_collected:
  assumes "between L M t" and "collected t t'" and "cshape t'"
  shows "counts t' M" and "clean t'" and "\<forall>a < length (ct_nodes t'). \<not> cn_gcNext (cnode t' a)"
    and "top_xmit t'"
    and "closed t xs \<Longrightarrow> set xs \<subseteq> set M \<Longrightarrow> closed t' xs"
    and "p < length (ct_nodes t) \<Longrightarrow> used t p \<Longrightarrow>
      set (cn_children (cnode t' p)) = {c \<in> set (cn_children (cnode t p)). cn_refCount (cnode t c) \<noteq> 0}"
proof -
  have sh: "cshape t" and ct: "counts t M" using assms(1) by (auto simp: between_def)
  have len: "length (ct_nodes t') = length (ct_nodes t)" using assms(2) by (simp add: collected_def)
  have fx: "fixed (cnode t' x) = fixed (cnode t x)" if "x < length (ct_nodes t)" for x
    using collected_fixed [OF assms(2) that] .
  have rf: "refs_of t c = cn_refCount (cnode t c)" if "p < length (ct_nodes t)" "c \<in> set (cn_children (cnode t p))" for p c
    using cshape_child [OF sh that] by (simp add: refs_of_def)
  show "counts t' M"
    by (rule counts_refs [OF ct len]) (use fx in \<open>simp add: fixed_def\<close>)
  have kids: "set (cn_children (cnode t' p)) = {c \<in> set (cn_children (cnode t p)). cn_refCount (cnode t c) \<noteq> 0}"
    if p: "p < length (ct_nodes t)" "used t p" for p
  proof (cases "cn_gcNext (cnode t p)")
    case True
    then show ?thesis using collected_children [OF assms(2) p(1)] rf [OF p(1)] by auto
  next
    case False
    have "cn_refCount (cnode t c) \<noteq> 0" if c: "c \<in> set (cn_children (cnode t p))" for c
    proof
      assume z: "cn_refCount (cnode t c) = 0"
      then have "c \<in> set L" using assms(1) p c by (simp add: between_def)
      then have "cn_gcNext (cnode t c)" using assms(1) z by (simp add: between_def zeros_flagged_def)
      moreover have "c < length (ct_nodes t)" "cn_parent (cnode t c) = Some p" "c \<noteq> 0"
        using cshape_child [OF sh p(1) c] by auto
      ultimately show False
        using assms(1) False by (auto simp: between_def flags_closed_def)
    qed
    then show ?thesis using collected_children [OF assms(2) p(1)] False by auto
  qed
  then show "p < length (ct_nodes t) \<Longrightarrow> used t p \<Longrightarrow>
      set (cn_children (cnode t' p)) = {c \<in> set (cn_children (cnode t p)). cn_refCount (cnode t c) \<noteq> 0}"
    by blast
  show "clean t'"
    unfolding clean_def len
  proof (intro allI impI ballI)
    fix p c assume p: "p < length (ct_nodes t)" "used t' p" and c: "c \<in> set (cn_children (cnode t' p))"
    have "c \<in> set (cn_children (cnode t p))" "cn_refCount (cnode t c) \<noteq> 0"
      using kids [OF p(1)] collected_used [OF assms(2) p(1)] p(2) c by auto
    then show "cn_refCount (cnode t' c) \<noteq> 0"
      using cshape_child [OF sh p(1)] fx [of c] by (simp add: fixed_def)
  qed
  show "\<forall>a < length (ct_nodes t'). \<not> cn_gcNext (cnode t' a)"
    using assms(2) unfolding collected_def len swept_node_def by metis
  show "top_xmit t'"
    using assms(1) fx cshape_root(2) [OF sh] len by (simp add: between_def top_xmit_def fixed_def)
  show "closed t' xs" if cl: "closed t xs" and sub: "set xs \<subseteq> set M" for xs
    unfolding closed_def
  proof
    fix a assume a: "a \<in> set xs"
    then obtain p where p: "cn_parent (cnode t a) = Some p" "p = 0 \<or> p \<in> set xs"
        "a \<in> set (cn_children (cnode t p))"
      using cl by (auto simp: closed_def)
    have al: "a < length (ct_nodes t)" using ct a sub by (auto simp: counts_def)
    have pl: "p < length (ct_nodes t)" using cshape_parent [OF sh al p(1)] al by simp
    have "cn_refCount (cnode t a) \<noteq> 0" using counts_used [OF ct al] a sub by blast
    moreover have "used t p"
      using p(2) counts_used [OF ct pl] sub by (auto simp: used_def)
    ultimately have "a \<in> set (cn_children (cnode t' p))" using kids [OF pl] p(3) by simp
    moreover have "cn_parent (cnode t' a) = Some p" using fx [OF al] p(1) by (simp add: fixed_def)
    ultimately show "\<exists>p. cn_parent (cnode t' a) = Some p \<and> (p = 0 \<or> p \<in> set xs) \<and>
        a \<in> set (cn_children (cnode t' p))"
      using p(2) by blast
  qed
qed

text \<open>The decrement loop leads from the invariant to such a state.\<close>

lemma unref_between:
  assumes "mset (attached_nodes t @ cur) = mset (L @ M)"
    and "ct_inv_with cur t" and "closed t L"
  shows "\<exists>t' sweep. unref_nodes L t = Some (t', sweep) \<and> between L M t' \<and> same_frame t t' \<and>
     (\<not> sweep \<longrightarrow> (\<forall>x < length (ct_nodes t'). \<not> cn_gcNext (cnode t' x)))"
proof -
  have inv: "cshape t" "counts t (attached_nodes t @ cur)" "clean t" "top_xmit t"
      "\<forall>a < length (ct_nodes t). \<not> cn_gcNext (cnode t a)"
    using assms(2) by (simp_all add: ct_inv_with_def)
  have ct: "counts t (L @ M)" using inv(2) counts_cong [OF assms(1)] by simp
  have "zeros_flagged L t"
    unfolding zeros_flagged_def
  proof (intro ballI impI)
    fix a assume a: "a \<in> set L" "cn_refCount (cnode t a) = 0"
    have "a < length (ct_nodes t)" using ct a(1) by (simp add: counts_def)
    then show "cn_gcNext (cnode t a)" using counts_used [OF ct, of a] a by auto
  qed
  moreover have "flags_closed t" using inv(5) by (simp add: flags_closed_def)
  moreover have "\<forall>b \<in> set L. b < length (ct_nodes t)" using ct by (simp add: counts_def)
  ultimately obtain t' sweep where t': "unref_nodes L t = Some (t', sweep)" "same_frame t t'" "counts t' M"
      "flags_closed t'" "zeros_flagged L t'"
      "\<not> sweep \<longrightarrow> (\<forall>x < length (ct_nodes t). cn_gcNext (cnode t' x) = cn_gcNext (cnode t x))"
    using unref_nodes_result [OF inv(1) ct assms(3)] by blast
  have len: "length (ct_nodes t') = length (ct_nodes t)" using t'(2) by (simp add: same_frame_def rest_same_def)
  have fr: "frame (cnode t' x) = frame (cnode t x)" if "x < length (ct_nodes t)" for x
    using t'(2) that by (simp add: same_frame_def)
  have "c \<in> set L" if p: "p < length (ct_nodes t)" "used t' p" and c: "c \<in> set (cn_children (cnode t' p))"
      "cn_refCount (cnode t' c) = 0" for p c
  proof -
    have "p = 0 \<or> p \<in> set M" using p counts_used [OF t'(3)] len by (auto simp: used_def)
    then have "used t p" using counts_used [OF ct p(1)] by (auto simp: used_def)
    moreover have ct': "c \<in> set (cn_children (cnode t p))" using c(1) fr [OF p(1)] by (simp add: frame_def)
    ultimately have "cn_refCount (cnode t c) \<noteq> 0" using inv(3) p(1) by (simp add: clean_def)
    moreover have cl: "c < length (ct_nodes t)" using cshape_child [OF inv(1) p(1) ct'] by simp
    ultimately show ?thesis using counts_used [OF ct cl] counts_used [OF t'(3)] c(2) len by auto
  qed
  moreover have "top_xmit t'"
    using inv(4) fr len cshape_root(2) [OF inv(1)] by (simp add: top_xmit_def frame_def)
  ultimately have "between L M t'"
    using same_frame_shape(1) [OF t'(2) inv(1)] t'(3-5) len by (simp add: between_def)
  then show ?thesis using t' inv(5) len by auto
qed

subsection \<open>Detaching\<close>

text \<open>The invariants read the nodes and the attached queries.\<close>

lemma nodes_cong:
  assumes "ct_nodes t' = ct_nodes t"
  shows "cshape t' = cshape t" "counts t' L = counts t L" "closed t' xs = closed t xs" "clean t' = clean t"
    "top_xmit t' = top_xmit t" "tops_sent xs t' = tops_sent xs t"
  using assms by (simp_all only: cshape_def counts_def closed_def clean_def used_def top_xmit_def tops_sent_def)

lemma attached_delete:
  assumes "distinct (map fst al)" and "map_of al q = Some xs"
  shows "mset (concat (map snd al)) = mset (xs @ concat (map snd (AList.delete q al)))"
  using assms
proof (induction al)
  case (Cons p al)
  show ?case
  proof (cases "fst p = q")
    case True
    then have "AList.delete q al = al"
      using Cons.prems(1) by (auto simp: AList.delete_eq filter_id_conv image_iff)
    then show ?thesis using True Cons.prems(2) by (simp add: AList.delete_eq case_prod_beta)
  next
    case False
    then show ?thesis using Cons by (cases p) (auto simp: AList.delete_eq case_prod_beta)
  qed
qed simp

lemma between_relabel:
  assumes "between L M t" and "ct_nodes t' = ct_nodes t"
  shows "between L M t'"
  using assms by (simp add: between_def cshape_def counts_def flags_closed_def zeros_flagged_def top_xmit_def used_def)

text \<open>
  What \<open>Detach\<close> does for an attached query: the message tells of the children that the root
  has lost.
\<close>

definition drops :: "QueryTree \<Rightarrow> QueryTree \<Rightarrow> addr list \<Rightarrow> bool" where
  "drops t t' cbs \<longleftrightarrow> set cbs = set (cn_children (cnode t 0)) - set (cn_children (cnode t' 0)) \<and>
     set (cn_children (cnode t' 0)) = {c \<in> set (cn_children (cnode t 0)). c \<in> set (attached_nodes t')}"

lemma purgeable_top:
  assumes "cshape t" and "top_xmit t" and "purgeable t x"
  shows "x \<in> set (cn_children (cnode t 0)) \<and> cn_refCount (cnode t x) = 0"
proof -
  obtain p where p: "p < length (ct_nodes t)" "x \<in> set (cn_children (cnode t p))"
    and x: "x < length (ct_nodes t)" "cn_xmitted (cnode t x)" "cn_refCount (cnode t x) = 0"
    using assms(3) by (auto simp: purgeable_def)
  have "cn_parent (cnode t x) = Some 0" using assms(2) x by (simp add: top_xmit_def)
  then show ?thesis using cshape_child [OF assms(1) p] p(2) x(3) by simp
qed

lemma settled:
  assumes "between L (attached_nodes t) t" and "collected t t'" and "cshape t'"
    and "\<forall>x \<in> set (ct_attached t). closed t (snd x)" and "distinct (map fst (ct_attached t))"
  shows "ct_inv_with [] t'"
proof -
  note bc = between_collected [OF assms(1-3)]
  have att: "ct_attached t' = ct_attached t" using assms(2) by (simp add: collected_def)
  have "closed t' (snd x)" if x: "x \<in> set (ct_attached t)" for x
    using bc(5) [of "snd x"] assms(4) x by (auto simp: attached_nodes_def)
  then show ?thesis
    using bc(1-4) assms(3,5) att by (simp add: ct_inv_with_def closed_def attached_nodes_def)
qed

lemma collected_drops:
  assumes "between L (attached_nodes t) t" and "collected t t'" and "cshape t'"
    and "\<forall>x \<in> set cbs. purgeable t x" and "cn_gcNext (cnode t 0) \<longrightarrow> droppable t 0 0 \<subseteq> set cbs"
    and "tops_sent [] t"
  shows "drops t t' cbs" and "tops_sent [] t'"
proof -
  have sh: "cshape t" and ct: "counts t (attached_nodes t)" and tx: "top_xmit t"
    using assms(1) by (simp_all add: between_def)
  have 0: "0 < length (ct_nodes t)" using cshape_root(2) [OF sh] .
  have kids: "set (cn_children (cnode t' 0)) = {c \<in> set (cn_children (cnode t 0)). cn_refCount (cnode t c) \<noteq> 0}"
    using between_collected(6) [OF assms(1-3) 0] by (simp add: used_def)
  have att: "attached_nodes t' = attached_nodes t" using assms(2) by (simp add: collected_def attached_nodes_def)
  have xm: "cn_xmitted (cnode t' c)" if "c \<in> set (cn_children (cnode t 0))" for c
    using assms(6) that collected_fixed [OF assms(2), of c] cshape_child [OF sh 0 that]
    by (simp add: tops_sent_def fixed_def)
  then show "tops_sent [] t'" using kids by (simp add: tops_sent_def)
  have "c \<in> set cbs" if c: "c \<in> set (cn_children (cnode t 0))" "cn_refCount (cnode t c) = 0" for c
  proof -
    have "c \<in> set L" using assms(1) c 0 unfolding between_def used_def by blast
    then have "cn_gcNext (cnode t c)" using assms(1) c(2) by (simp add: between_def zeros_flagged_def)
    then have "cn_gcNext (cnode t 0)"
      using assms(1) cshape_child [OF sh 0 c(1)] by (auto simp: between_def flags_closed_def)
    then show ?thesis using assms(5,6) c by (auto simp: droppable_def tops_sent_def)
  qed
  then have "set cbs = {c \<in> set (cn_children (cnode t 0)). cn_refCount (cnode t c) = 0}"
    using purgeable_top [OF sh tx] assms(4) by auto
  moreover have "cn_refCount (cnode t c) \<noteq> 0 \<longleftrightarrow> c \<in> set (attached_nodes t)"
    if "c \<in> set (cn_children (cnode t 0))" for c
    using counts_used [OF ct, of c] cshape_child [OF sh 0 that] by simp
  ultimately show "drops t t' cbs" using kids att by (auto simp: drops_def)
qed

text \<open>A collection that is left out when no node was flagged.\<close>

lemma collect_if:
  assumes "between L M t" and "\<not> b \<longrightarrow> (\<forall>x < length (ct_nodes t). \<not> cn_gcNext (cnode t x))"
  shows "\<exists>t' cbs. (if b then gcSweep t else Some t) = Some t' \<and> collected t t' \<and> cshape t' \<and>
     ct_out t' = ct_out t @ delete_message t cbs \<and> (\<forall>x \<in> set cbs. purgeable t x) \<and>
     (cn_gcNext (cnode t 0) \<longrightarrow> droppable t 0 0 \<subseteq> set cbs)"
proof (cases b)
  case True
  then show ?thesis using gcSweep_result [of t] assms(1) by (simp add: between_def)
next
  case False
  have sh: "cshape t" using assms(1) by (simp add: between_def)
  have "collected t t" using False assms(2) by (simp add: collected_def)
  moreover have "\<not> cn_gcNext (cnode t 0)" using False assms(2) cshape_root(2) [OF sh] by simp
  ultimately show ?thesis
    using False sh by (intro exI [of _ t] exI [of _ "[]"]) (simp add: delete_message_def)
qed

lemma Detach_result:
  assumes "ct_inv n t" and "map_of (ct_attached t) query = Some xs"
  shows "\<exists>t' cbs. Detach query t = Some t' \<and> ct_inv n t' \<and>
     ct_attached t' = AList.delete query (ct_attached t) \<and>
     ct_out t' = ct_out t @ delete_message t cbs \<and> drops t t' cbs \<and>
     (\<forall>x < length (ct_nodes t). cn_objDef (cnode t' x) = cn_objDef (cnode t x)) \<and>
     length (ct_nodes t') = length (ct_nodes t)"
proof -
  define rest where "rest = AList.delete query (ct_attached t)"
  have inv: "ct_inv_with [] t" and top: "tops_sent [] t" and len0: "length (attached_nodes t) + n < 2 ^ 32"
    and keys: "distinct (map fst (ct_attached t))" and sh: "cshape t"
    and cl: "\<forall>x \<in> set (ct_attached t). closed t (snd x)"
    and bnd: "\<forall>b \<in> set (attached_nodes t). b < length (ct_nodes t)"
    using assms(1) unfolding ct_inv_def ct_inv_with_def counts_def by auto
  have split: "mset (attached_nodes t @ []) = mset (xs @ concat (map snd rest))"
    using attached_delete [OF keys assms(2)] by (simp add: attached_nodes_def rest_def)
  have "closed t xs" using bspec [OF cl map_of_SomeD [OF assms(2)]] by simp
  then obtain t1 sweep where t1: "unref_nodes xs t = Some (t1, sweep)"
      "between xs (concat (map snd rest)) t1" "same_frame t t1"
      "\<not> sweep \<longrightarrow> (\<forall>x < length (ct_nodes t1). \<not> cn_gcNext (cnode t1 x))"
    using unref_between [OF split inv] by blast
  define t2 where "t2 = t1\<lparr>ct_attached := rest\<rparr>"
  have same: "ct_attached t1 = ct_attached t" "ct_out t1 = ct_out t" "length (ct_nodes t2) = length (ct_nodes t)"
    using t1(3) by (simp_all add: t2_def same_frame_def rest_same_def)
  have fr: "frame (cnode t2 x) = frame (cnode t x)" if "x < length (ct_nodes t)" for x
    using t1(3) that by (simp add: t2_def same_frame_def)
  have btw: "between xs (attached_nodes t2) t2"
    using between_relabel [OF t1(2)] by (simp add: t2_def attached_nodes_def)
  have nf: "\<not> sweep \<longrightarrow> (\<forall>x < length (ct_nodes t2). \<not> cn_gcNext (cnode t2 x))"
    using t1(4) by (simp add: t2_def)
  obtain t' cbs where t': "(if sweep then gcSweep t2 else Some t2) = Some t'" "collected t2 t'" "cshape t'"
      "ct_out t' = ct_out t2 @ delete_message t2 cbs" "\<forall>x \<in> set cbs. purgeable t2 x"
      "cn_gcNext (cnode t2 0) \<longrightarrow> droppable t2 0 0 \<subseteq> set cbs"
    using collect_if [OF btw nf] by blast
  have "Detach query t = (if sweep then gcSweep t2 else Some t2)"
    using t1(1) assms(2) same(1) by (simp add: Detach_def Let_def t2_def rest_def)
  then have run: "Detach query t = Some t'" unfolding t'(1) .
  have cl2: "closed t2 (snd x)" if x: "x \<in> set (ct_attached t2)" for x
  proof -
    have xa: "x \<in> set (ct_attached t)" using x by (simp add: t2_def rest_def set_alist_delete)
    then have "\<forall>b \<in> set (snd x). b < length (ct_nodes t)" using bnd by (auto simp: attached_nodes_def)
    then have "closed t1 (snd x)" using closed_frame [OF t1(3) _ sh] cl xa by blast
    then show ?thesis by (simp add: t2_def closed_def)
  qed
  have 0: "0 < length (ct_nodes t)" using cshape_root(2) [OF sh] .
  have "cn_xmitted (cnode t2 c)" if "c \<in> set (cn_children (cnode t2 0))" for c
  proof -
    have c: "c \<in> set (cn_children (cnode t 0))" using that fr [OF 0] by (simp add: frame_def)
    then have "cn_xmitted (cnode t c)" using top by (simp add: tops_sent_def)
    then show ?thesis using fr [of c] cshape_child [OF sh 0 c] by (simp add: frame_def)
  qed
  then have "tops_sent [] t2" by (simp add: tops_sent_def)
  note dr = collected_drops [OF btw t'(2,3,5,6) this]
  have "distinct (map fst (ct_attached t2))" using keys by (simp add: t2_def rest_def distinct_delete)
  then have "ct_inv_with [] t'" using settled [OF btw t'(2,3)] cl2 by blast
  moreover have "length (attached_nodes t') \<le> length (attached_nodes t)"
    using t'(2) mset_eq_length [OF split] by (simp add: collected_def t2_def attached_nodes_def)
  ultimately have "ct_inv n t'" using len0 dr(2) by (simp add: ct_inv_def)
  moreover have "drops t t' cbs"
    using dr(1) fr [of 0] cshape_root(2) [OF sh] by (simp add: drops_def frame_def)
  moreover have "delete_message t2 cbs = delete_message t cbs"
    using t'(5) fr same(3) by (auto simp: delete_message_def purgeable_def frame_def)
  moreover have "cn_objDef (cnode t' x) = cn_objDef (cnode t x)" if "x < length (ct_nodes t)" for x
    using collected_fixed [OF t'(2), of x] that fr [OF that] same(3) by (simp add: fixed_def frame_def)
  moreover have "ct_attached t' = rest" "length (ct_nodes t') = length (ct_nodes t)"
    using t'(2) same(3) by (simp_all add: collected_def t2_def)
  moreover have "ct_out t' = ct_out t @ delete_message t2 cbs" using t'(4) same(2) by (simp add: t2_def)
  ultimately show ?thesis
    using run unfolding rest_def by (intro exI [of _ t'] exI [of _ cbs]) simp
qed

subsection \<open>Resolving a child\<close>

text \<open>Evaluating arguments only touches the variable store and the pending variables.\<close>

definition vars_only :: "QueryTree \<Rightarrow> QueryTree \<Rightarrow> bool" where
  "vars_only t t' \<longleftrightarrow> ct_nodes t' = ct_nodes t \<and> ct_attached t' = ct_attached t \<and>
     ct_out t' = ct_out t \<and> ct_nextID t' = ct_nextID t"

lemma vars_only_refl [simp]: "vars_only t t"
  by (simp add: vars_only_def)

lemma put_value_vars: "vars_only t (fst (put_value env val t))"
  by (simp add: put_value_def vars_only_def split: prod.splits)

lemma args_loop_vars: "vars_only t (fst (args_loop env args m t))"
proof (induction args arbitrary: m t)
  case (Cons arg args)
  have "vars_only t (fst (args_loop env args m' (fst (put_value env val t))))" for m' val
    using Cons.IH [of "fst (put_value env val t)" m'] put_value_vars [of t env val] by (simp add: vars_only_def)
  then show ?case
    using Cons.IH by (auto split: option.splits sum.splits prod.splits) (metis fst_conv)
qed simp

lemma newArgsMapFromAst_vars: "vars_only t (fst (newArgsMapFromAst env args t))"
  using args_loop_vars [of t env args "[]"]
  by (auto simp: newArgsMapFromAst_def split: prod.splits sum.splits)

text \<open>
  A schema that the operations can be run on: the lookup stays inside the definitions, and
  every field has a type name.
\<close>

definition env_ok :: "client_env \<Rightarrow> bool" where
  "env_ok env \<longleftrightarrow>
     (\<forall>ty d. ce_lookup env ty = Some d \<longrightarrow> d < length (ce_defs env)) \<and>
     (\<forall>d \<in> set (ce_defs env). \<forall>f \<in> set (od_fields d). UnwrapASTType (fd_type f) \<noteq> Named None)"

definition objs_ok :: "client_env \<Rightarrow> QueryTree \<Rightarrow> bool" where
  "objs_ok env t \<longleftrightarrow> (\<forall>a < length (ct_nodes t). \<forall>d. cn_objDef (cnode t a) = Some d \<longrightarrow> d < length (ce_defs env))"

lemma child_object_ok:
  assumes "env_ok env" and "d < length (ce_defs env)" and "f \<in> set (od_fields (ce_defs env ! d))"
  shows "\<exists>r. child_object env f = Some r \<and> (\<forall>d'. r = Inr (Some d') \<longrightarrow> d' < length (ce_defs env))"
proof -
  have "UnwrapASTType (fd_type f) \<noteq> Named None" using assms nth_mem unfolding env_ok_def by blast
  moreover have "d' < length (ce_defs env)" if "ce_lookup env ty = Some d'" for ty d'
    using assms(1) that unfolding env_ok_def by blast
  ultimately show ?thesis
    unfolding child_object_def Let_def by (auto split: ast_type.splits option.splits)
qed

lemma resolveChild_result:
  assumes "env_ok env" and "objs_ok env t" and "q < length (ct_nodes t)"
  shows "(\<exists>t' e. resolveChild env q name args t = Some (t', Inl e) \<and> vars_only t t') \<or>
     (\<exists>t' c. resolveChild env q name args t = Some (t', Inr c) \<and> vars_only t t' \<and>
        c \<in> set (cn_children (cnode t q))) \<or>
     (\<exists>t' argsm obj. resolveChild env q name args t =
          Some (alloc_child q name argsm obj t', Inr (length (ct_nodes t))) \<and> vars_only t t' \<and>
        (\<forall>d. obj = Some d \<longrightarrow> d < length (ce_defs env)))"
proof (cases "findSchemaField (ce_defs env) (cnode t q) name")
  case None
  then show ?thesis by (simp add: resolveChild_def)
next
  case (Some f)
  obtain d where d: "cn_objDef (cnode t q) = Some d" "f \<in> set (od_fields (ce_defs env ! d))"
    using Some by (auto simp: findSchemaField_def find_Some_iff split: option.splits)
  then have "d < length (ce_defs env)" using assms(2,3) by (auto simp: objs_ok_def)
  then obtain r where r: "child_object env f = Some r" "\<forall>d'. r = Inr (Some d') \<longrightarrow> d' < length (ce_defs env)"
    using child_object_ok [OF assms(1) _ d(2)] by blast
  show ?thesis
  proof (cases r)
    case (Inl e)
    then show ?thesis using Some r(1) by (simp add: resolveChild_def)
  next
    case (Inr obj)
    obtain t1 res where n: "newArgsMapFromAst env args t = (t1, res)" by fastforce
    then have vo: "vars_only t t1" using newArgsMapFromAst_vars [of t env args] by simp
    show ?thesis
    proof (cases res)
      case (Inl e)
      then show ?thesis using Some r(1) \<open>r = Inr obj\<close> n vo by (simp add: resolveChild_def)
    next
      case (Inr argsm)
      show ?thesis
      proof (cases "find (\<lambda>c. matchesField (ct_varStore t1) (cnode t1 c) name argsm) (cn_children (cnode t1 q))")
        case None
        then have "resolveChild env q name args t = Some (alloc_child q name argsm obj t1, Inr (length (ct_nodes t)))"
          using Some r(1) \<open>r = Inr obj\<close> Inr n vo by (simp add: resolveChild_def vars_only_def)
        then show ?thesis using vo r(2) \<open>r = Inr obj\<close> by blast
      next
        case (Some c)
        then have "c \<in> set (cn_children (cnode t q))" using vo by (auto simp: find_Some_iff vars_only_def)
        moreover have "resolveChild env q name args t = Some (t1, Inr c)"
          using Some r(1) \<open>r = Inr obj\<close> Inr n \<open>findSchemaField _ _ _ = Some f\<close>
          by (simp add: resolveChild_def)
        ultimately show ?thesis using vo by blast
      qed
    qed
  qed
qed

subsection \<open>A visit\<close>

text \<open>The depth of a node.\<close>

primrec up :: "QueryTree \<Rightarrow> nat \<Rightarrow> addr \<Rightarrow> bool" where
  "up t 0 q = (q = 0)"
| "up t (Suc d) q = (\<exists>p. cn_parent (cnode t q) = Some p \<and> q < length (ct_nodes t) \<and> up t d p)"

lemma up_mono:
  assumes "length (ct_nodes t) \<le> length (ct_nodes t')" and "cshape t"
    and "\<And>x. x < length (ct_nodes t) \<Longrightarrow> cn_parent (cnode t' x) = cn_parent (cnode t x)"
  shows "up t d q \<Longrightarrow> up t' d q"
  using assms by (induction d arbitrary: q) auto

text \<open>What a visit that began in \<open>t0\<close> has built so far.\<close>

definition grown :: "QueryTree \<Rightarrow> QueryTree \<Rightarrow> bool" where
  "grown t0 t \<longleftrightarrow> length (ct_nodes t0) \<le> length (ct_nodes t) \<and> ct_attached t = ct_attached t0 \<and>
     ct_out t = ct_out t0 \<and>
     (\<forall>x < length (ct_nodes t0). cn_xmitted (cnode t x) = cn_xmitted (cnode t0 x) \<and>
        cn_id (cnode t x) = cn_id (cnode t0 x) \<and>
        set (cn_children (cnode t0 x)) \<subseteq> set (cn_children (cnode t x)) \<and>
        (\<forall>c \<in> set (cn_children (cnode t x)). c \<in> set (cn_children (cnode t0 x)) \<or> length (ct_nodes t0) \<le> c)) \<and>
     (\<forall>x. length (ct_nodes t0) \<le> x \<longrightarrow> x < length (ct_nodes t) \<longrightarrow> \<not> cn_xmitted (cnode t x))"

definition visiting :: "client_env \<Rightarrow> QueryTree \<Rightarrow> visit_state \<Rightarrow> bool" where
  "visiting env t0 v \<longleftrightarrow> (let t = v_tree v in ct_nodes t0 \<noteq> [] \<and>
     ct_inv_with (v_qtNodes v) t \<and> objs_ok env t \<and> grown t0 t \<and> up t (v_newNodeDepth v) (v_qnode v) \<and>
     (v_qnode v = 0 \<or> v_qnode v \<in> set (v_qtNodes v)) \<and> distinct (v_newNodes v) \<and>
     set (v_newNodes v) = set (cn_children (cnode t 0)) - set (cn_children (cnode t0 0)))"

lemma counts_add:
  assumes "counts t L" and "c < length (ct_nodes t)" and "c \<noteq> 0" and "length L + 1 < 2 ^ 32"
  shows "counts (upd_cnode c (\<lambda>n. n\<lparr>cn_refCount := cn_refCount n + 1\<rparr>) t) (L @ [c])"
proof -
  have "unat (cn_refCount (cnode t c)) = count_list L c" using assms(1,2) by (simp add: counts_def)
  moreover have "count_list L c \<le> length L" by (rule count_le_length)
  ultimately have "cn_refCount (cnode t c) \<noteq> - 1" using assms(4) u32_not_max by auto
  then have "unat (cn_refCount (cnode t c) + 1) = count_list L c + 1"
    using unat_inc_u32 assms(1,2) by (simp add: counts_def)
  then show ?thesis
    using assms by (auto simp: counts_def cnode_upd)
qed

lemma enter_tree [simp]:
  "v_tree (enter_node c t v) = upd_cnode c (\<lambda>n. n\<lparr>cn_refCount := cn_refCount n + 1\<rparr>) t"
  "v_qtNodes (enter_node c t v) = v_qtNodes v @ [c]" "v_qnode (enter_node c t v) = c"
  "v_newNodeDepth (enter_node c t v) = Suc (v_newNodeDepth v)"
  "v_newNodes (enter_node c t v) =
     (if cn_refCount (cnode t c) = 0 \<and> v_newNodeDepth v = 0 then v_newNodes v @ [c] else v_newNodes v)"
  by (simp_all add: enter_node_def)

text \<open>
  Entering a node: the tree \<open>t\<close> before its reference is counted is well-formed, except that the
  node itself may be new.
\<close>

definition enterable :: "addr list \<Rightarrow> addr \<Rightarrow> addr \<Rightarrow> QueryTree \<Rightarrow> bool" where
  "enterable cur q c t \<longleftrightarrow> cshape t \<and> counts t (attached_nodes t @ cur) \<and>
     (\<forall>x \<in> set (ct_attached t). closed t (snd x)) \<and> closed t cur \<and>
     distinct (map fst (ct_attached t)) \<and>
     (\<forall>p < length (ct_nodes t). used t p \<longrightarrow>
        (\<forall>d \<in> set (cn_children (cnode t p)). cn_refCount (cnode t d) \<noteq> 0 \<or> d = c)) \<and>
     (\<forall>a < length (ct_nodes t). \<not> cn_gcNext (cnode t a)) \<and> top_xmit t \<and>
     q < length (ct_nodes t) \<and> (q = 0 \<or> q \<in> set cur) \<and> c \<in> set (cn_children (cnode t q)) \<and>
     (cn_refCount (cnode t c) = 0 \<longrightarrow> cn_children (cnode t c) = [])"

lemma enterable_enter:
  assumes "enterable cur q c t" and "length (attached_nodes t @ cur) + 1 < 2 ^ 32"
  shows "ct_inv_with (cur @ [c]) (upd_cnode c (\<lambda>n. n\<lparr>cn_refCount := cn_refCount n + 1\<rparr>) t)"
proof -
  let ?t = "upd_cnode c (\<lambda>n. n\<lparr>cn_refCount := cn_refCount n + 1\<rparr>) t"
  have e: "cshape t" "counts t (attached_nodes t @ cur)" "\<forall>x \<in> set (ct_attached t). closed t (snd x)"
      "closed t cur" "distinct (map fst (ct_attached t))" "q < length (ct_nodes t)"
      "q = 0 \<or> q \<in> set cur" "c \<in> set (cn_children (cnode t q))" "top_xmit t"
      "\<forall>a < length (ct_nodes t). \<not> cn_gcNext (cnode t a)"
      "cn_refCount (cnode t c) = 0 \<longrightarrow> cn_children (cnode t c) = []"
    using assms(1) by (simp_all add: enterable_def)
  have c: "c < length (ct_nodes t)" "cn_parent (cnode t c) = Some q" "q < c"
    using cshape_child [OF e(1,6,8)] by auto
  have fr: "frame (cnode ?t x) = frame (cnode t x)" for x
    by (rule cnode_upd_field) (simp add: frame_def)
  have gc: "cn_gcNext (cnode ?t x) = cn_gcNext (cnode t x)" for x by (rule cnode_upd_field) simp
  have sf: "same_frame t ?t" using fr by (simp add: same_frame_def rest_same_def)
  have bnd: "\<forall>b \<in> set (attached_nodes t @ cur). b < length (ct_nodes t)" using e(2) by (simp add: counts_def)
  have ct: "counts ?t ((attached_nodes t @ cur) @ [c])" using counts_add [OF e(2) c(1) _ assms(2)] c(3) by simp
  have "closed ?t (snd x)" if x: "x \<in> set (ct_attached t)" for x
  proof -
    have "\<forall>b \<in> set (snd x). b < length (ct_nodes t)" using bnd x by (auto simp: attached_nodes_def)
    then show ?thesis using closed_frame [OF sf _ e(1)] e(3) x by blast
  qed
  moreover have "closed ?t cur" using closed_frame [OF sf e(4,1)] bnd by simp
  then have "closed ?t (cur @ [c])"
    using e(7,8) c(2) fr [of c] fr [of q] by (auto simp: closed_def frame_def)
  moreover have "clean ?t"
    unfolding clean_def
  proof (intro allI impI ballI)
    fix p d assume p: "p < length (ct_nodes ?t)" "used ?t p" and d: "d \<in> set (cn_children (cnode ?t p))"
    have pd: "d \<in> set (cn_children (cnode t p))" using d fr [of p] by (simp add: frame_def)
    have dl: "d < length (ct_nodes t)" using cshape_child [OF e(1) _ pd] p(1) by simp
    have dis: "cn_refCount (cnode t d) \<noteq> 0 \<or> d = c" if "used t p"
      using assms(1) that p(1) pd by (simp add: enterable_def)
    have cin: "cn_refCount (cnode ?t c) \<noteq> 0" using counts_used [OF ct, of c] c(1) by simp
    show "cn_refCount (cnode ?t d) \<noteq> 0"
    proof (cases "d = c")
      case False
      have same: "cn_refCount (cnode ?t d) = cn_refCount (cnode t d)" using False by (simp add: cnode_upd_other)
      have "used t p"
      proof (cases "p = c")
        case True
        then show ?thesis using e(11) pd by (auto simp: used_def)
      qed (use p(2) in \<open>simp add: used_def cnode_upd_other\<close>)
      then show ?thesis using dis False same by simp
    qed (use cin in simp)
  qed
  moreover have "top_xmit ?t" using e(9) fr by (simp add: top_xmit_def frame_def)
  ultimately show ?thesis
    using same_frame_shape(1) [OF sf e(1)] ct e(5,10) gc
    by (simp add: ct_inv_with_def attached_nodes_def)
qed

lemma vars_only_inv:
  assumes "vars_only t t'"
  shows "ct_inv_with cur t' = ct_inv_with cur t" "objs_ok env t' = objs_ok env t" "grown t0 t' = grown t0 t"
    "up t' d q = up t d q"
proof -
  show "up t' d q = up t d q" using assms by (induction d arbitrary: q) (auto simp: vars_only_def)
qed (use assms in \<open>simp_all add: vars_only_def ct_inv_with_def cshape_def counts_def closed_def clean_def
      used_def top_xmit_def attached_nodes_def objs_ok_def grown_def\<close>)

lemma existing_enterable:
  assumes "ct_inv_with cur t" and "q < length (ct_nodes t)" and "q = 0 \<or> q \<in> set cur"
    and "c \<in> set (cn_children (cnode t q))"
  shows "enterable cur q c t" and "cn_refCount (cnode t c) \<noteq> 0"
proof -
  have "used t q"
    using assms(1,2,3) counts_used [of t "attached_nodes t @ cur" q] by (auto simp: ct_inv_with_def used_def)
  then show "cn_refCount (cnode t c) \<noteq> 0" using assms(1,2,4) by (simp add: ct_inv_with_def clean_def)
  then show "enterable cur q c t" using assms by (simp add: enterable_def ct_inv_with_def clean_def)
qed

lemma cnode_alloc:
  assumes "q < length (ct_nodes t)"
  shows "x < length (ct_nodes t) \<Longrightarrow> cnode (alloc_child q name argsm obj t) x =
      (if x = q then (cnode t q)\<lparr>cn_children := cn_children (cnode t q) @ [length (ct_nodes t)]\<rparr> else cnode t x)"
    and "cnode (alloc_child q name argsm obj t) (length (ct_nodes t)) =
      \<lparr>cn_id = ct_nextID t, cn_name = name, cn_objDef = obj, cn_children = [], cn_args = argsm,
       cn_parent = Some q, cn_refCount = 0, cn_gcNext = False, cn_xmitted = False\<rparr>"
    and "length (ct_nodes (alloc_child q name argsm obj t)) = Suc (length (ct_nodes t))"
  by (simp_all add: alloc_child_def nth_append nth_upd_at)

lemma alloc_shape:
  assumes "cshape t" and "q < length (ct_nodes t)"
  shows "cshape (alloc_child q name argsm obj t)"
proof -
  let ?t = "alloc_child q name argsm obj t"
  note al = cnode_alloc [OF assms(2), where name = name and argsm = argsm and obj = obj]
  have par: "cn_parent (cnode ?t x) = cn_parent (cnode t x)" if "x < length (ct_nodes t)" for x
    using al(1) [OF that] by simp
  have "ct_nodes ?t \<noteq> []" "cn_parent (cnode ?t 0) = None"
    using al(3) par cshape_root [OF assms(1)] by auto
  moreover have "\<exists>p < a. cn_parent (cnode ?t a) = Some p" if a: "a < length (ct_nodes ?t)" "a \<noteq> 0" for a
  proof (cases "a = length (ct_nodes t)")
    case False
    then have "a < length (ct_nodes t)" using a(1) al(3) by simp
    then show ?thesis using cshape_has_parent [OF assms(1) _ a(2)] par by simp
  qed (use al(2) assms(2) in simp)
  moreover have "distinct (cn_children (cnode ?t a)) \<and>
      (\<forall>c \<in> set (cn_children (cnode ?t a)). c < length (ct_nodes ?t) \<and> cn_parent (cnode ?t c) = Some a)"
    if a: "a < length (ct_nodes ?t)" for a
  proof (cases "a = length (ct_nodes t)")
    case False
    then have a': "a < length (ct_nodes t)" using a al(3) by simp
    have kid: "c < Suc (length (ct_nodes t)) \<and> c \<noteq> length (ct_nodes t) \<and> cn_parent (cnode ?t c) = Some a" if "c \<in> set (cn_children (cnode t a))" for c
      using cshape_child [OF assms(1) a' that] par by simp
    then show ?thesis
      using al(1) [OF a'] al(2,3) cshape_distinct [OF assms(1) a'] by (auto split: if_splits)
  qed (use al(2) in simp)
  ultimately show ?thesis unfolding cshape_def by blast
qed

lemma alloc_closed:
  assumes "closed t xs" and "cshape t" and "q < length (ct_nodes t)" and "\<forall>a \<in> set xs. a < length (ct_nodes t)"
  shows "closed (alloc_child q name argsm obj t) xs"
  unfolding closed_def
proof
  fix a assume a: "a \<in> set xs"
  then obtain p where p: "cn_parent (cnode t a) = Some p" "p = 0 \<or> p \<in> set xs"
      "a \<in> set (cn_children (cnode t p))"
    using assms(1) by (auto simp: closed_def)
  have al: "a < length (ct_nodes t)" using a assms(4) by blast
  have pl: "p < length (ct_nodes t)" using cshape_parent [OF assms(2) al p(1)] al by simp
  show "\<exists>p. cn_parent (cnode (alloc_child q name argsm obj t) a) = Some p \<and> (p = 0 \<or> p \<in> set xs) \<and>
      a \<in> set (cn_children (cnode (alloc_child q name argsm obj t) p))"
    using p cnode_alloc(1) [OF assms(3) al, of name argsm obj] cnode_alloc(1) [OF assms(3) pl, of name argsm obj]
    by (intro exI [of _ p]) auto
qed

lemma alloc_enterable:
  assumes "ct_inv_with cur t" and "q < length (ct_nodes t)" and "q = 0 \<or> q \<in> set cur"
  shows "enterable cur q (length (ct_nodes t)) (alloc_child q name argsm obj t)"
proof -
  let ?t = "alloc_child q name argsm obj t" and ?c = "length (ct_nodes t)"
  note al = cnode_alloc [OF assms(2), where name = name and argsm = argsm and obj = obj]
  have i: "cshape t" "counts t (attached_nodes t @ cur)" "\<forall>x \<in> set (ct_attached t). closed t (snd x)"
      "closed t cur" "distinct (map fst (ct_attached t))" "clean t" "\<forall>a < length (ct_nodes t). \<not> cn_gcNext (cnode t a)"
      "top_xmit t"
    using assms(1) by (simp_all add: ct_inv_with_def)
  have att: "ct_attached ?t = ct_attached t" "attached_nodes ?t = attached_nodes t"
    by (simp_all add: alloc_child_def attached_nodes_def)
  have bnd: "\<forall>b \<in> set (attached_nodes t @ cur). b < length (ct_nodes t)" using i(2) by (simp add: counts_def)
  have c0: "?c \<notin> set (attached_nodes t @ cur)" using bnd by blast
  have old: "cn_refCount (cnode ?t x) = cn_refCount (cnode t x) \<and> cn_gcNext (cnode ?t x) = cn_gcNext (cnode t x) \<and>
      cn_xmitted (cnode ?t x) = cn_xmitted (cnode t x) \<and> cn_parent (cnode ?t x) = cn_parent (cnode t x) \<and>
      cn_id (cnode ?t x) = cn_id (cnode t x)" if "x < ?c" for x
    using al(1) [OF that] by simp
  have "counts ?t (attached_nodes t @ cur)"
    unfolding counts_def
  proof (intro conjI ballI allI impI)
    fix a assume a: "a < length (ct_nodes ?t)"
    have "unat (cn_refCount (cnode t a)) = count_list (attached_nodes t @ cur) a" if "a < ?c"
      using i(2) that unfolding counts_def by blast
    moreover have "count_list (attached_nodes t @ cur) ?c = 0" using c0 by (simp only: count_list_0_iff not_False_eq_True)
    ultimately show "unat (cn_refCount (cnode ?t a)) = count_list (attached_nodes t @ cur) a"
      using a old [of a] al(2,3) by (cases "a = ?c") simp_all
  qed (use i(2) al(3) in \<open>auto simp: counts_def intro: less_SucI\<close>)
  moreover have "closed ?t (snd x)" if x: "x \<in> set (ct_attached t)" for x
  proof -
    have "\<forall>b \<in> set (snd x). b < ?c" using bnd x by (auto simp: attached_nodes_def)
    then show ?thesis using alloc_closed [OF _ i(1) assms(2)] i(3) x by blast
  qed
  moreover have "closed ?t cur" using alloc_closed [OF i(4,1) assms(2)] bnd by simp
  moreover have "cn_refCount (cnode ?t d) \<noteq> 0 \<or> d = ?c"
    if p: "p < length (ct_nodes ?t)" "used ?t p" and d: "d \<in> set (cn_children (cnode ?t p))" for p d
  proof (cases "p = ?c \<or> d = ?c")
    case True
    then show ?thesis using d al(2) by auto
  next
    case False
    have pl: "p < ?c" using False p(1) al(3) by simp
    then have dt: "d \<in> set (cn_children (cnode t p))" "used t p"
      using d False al(1) [OF pl] p(2) old [OF pl] by (auto simp: used_def split: if_splits)
    then have "cn_refCount (cnode t d) \<noteq> 0" using i(6) pl by (simp add: clean_def)
    then show ?thesis using old [of d] cshape_child [OF i(1) pl dt(1)] by simp
  qed
  moreover have "\<not> cn_gcNext (cnode ?t a)" if "a < length (ct_nodes ?t)" for a
    using i(7) that old [of a] al(2,3) by (cases "a = ?c") simp_all
  moreover have "top_xmit ?t"
    unfolding top_xmit_def
  proof (intro conjI allI impI)
    show "cn_id (cnode ?t 0) = 0"
      using i(8) old [of 0] cshape_root(2) [OF i(1)] by (simp add: top_xmit_def)
    fix a assume a: "a < length (ct_nodes ?t)" "cn_xmitted (cnode ?t a)"
    then show "cn_parent (cnode ?t a) = Some 0"
      using i(8) old [of a] al(2,3) by (cases "a = ?c") (simp_all add: top_xmit_def)
  qed
  ultimately show ?thesis
    using alloc_shape [OF i(1) assms(2)] i(5) assms(2,3) al att by (simp add: enterable_def)
qed

lemma grown_refl [simp]: "grown t t"
  by (simp add: grown_def)

lemma grown_trans:
  assumes "grown a b" and "grown b c"
  shows "grown a c"
  unfolding grown_def
proof (intro conjI allI impI ballI)
  show "length (ct_nodes a) \<le> length (ct_nodes c)" "ct_attached c = ct_attached a" "ct_out c = ct_out a"
    using assms by (simp_all add: grown_def)
  have len: "length (ct_nodes a) \<le> length (ct_nodes b)" using assms(1) by (simp add: grown_def)
  fix x
  { assume x: "x < length (ct_nodes a)"
    then have b: "x < length (ct_nodes b)" using len by simp
    show "cn_xmitted (cnode c x) = cn_xmitted (cnode a x)" "cn_id (cnode c x) = cn_id (cnode a x)"
      using assms x b by (simp_all add: grown_def)
    show "set (cn_children (cnode a x)) \<subseteq> set (cn_children (cnode c x))"
      using assms x b unfolding grown_def by (metis order_trans)
    fix d assume "d \<in> set (cn_children (cnode c x))"
    then show "d \<in> set (cn_children (cnode a x)) \<or> length (ct_nodes a) \<le> d"
      using assms x b len unfolding grown_def by (metis order_trans) }
  assume "length (ct_nodes a) \<le> x" "x < length (ct_nodes c)"
  then show "\<not> cn_xmitted (cnode c x)"
    using assms len unfolding grown_def by (metis not_le)
qed

lemma grown_ref: "grown t (upd_cnode c (\<lambda>n. n\<lparr>cn_refCount := f n\<rparr>) t)"
proof -
  have "cn_children (cnode (upd_cnode c (\<lambda>n. n\<lparr>cn_refCount := f n\<rparr>) t) x) = cn_children (cnode t x)"
    "cn_xmitted (cnode (upd_cnode c (\<lambda>n. n\<lparr>cn_refCount := f n\<rparr>) t) x) = cn_xmitted (cnode t x)"
    "cn_id (cnode (upd_cnode c (\<lambda>n. n\<lparr>cn_refCount := f n\<rparr>) t) x) = cn_id (cnode t x)" for x
    by (rule cnode_upd_field, simp)+
  then show ?thesis by (simp add: grown_def)
qed

lemma grown_alloc:
  assumes "q < length (ct_nodes t)"
  shows "grown t (alloc_child q name argsm obj t)"
proof -
  note al = cnode_alloc [OF assms, where name = name and argsm = argsm and obj = obj]
  have "\<not> cn_xmitted (cnode (alloc_child q name argsm obj t) x)"
    if "length (ct_nodes t) \<le> x" "x < length (ct_nodes (alloc_child q name argsm obj t))" for x
  proof -
    have "x = length (ct_nodes t)" using that al(3) by simp
    then show ?thesis using al(2) by simp
  qed
  moreover have "ct_attached (alloc_child q name argsm obj t) = ct_attached t"
    "ct_out (alloc_child q name argsm obj t) = ct_out t" by (simp_all add: alloc_child_def)
  ultimately show ?thesis
    using al(1,3) by (auto simp: grown_def)
qed

text \<open>The effect on the children of the root, which tell which nodes are new.\<close>

lemma alloc_root_children:
  assumes "q < length (ct_nodes t)"
  shows "set (cn_children (cnode (alloc_child q name argsm obj t) 0)) =
    (if q = 0 then insert (length (ct_nodes t)) (set (cn_children (cnode t 0))) else set (cn_children (cnode t 0)))"
proof -
  have "0 < length (ct_nodes t)" using assms by linarith
  from cnode_alloc(1) [OF assms this, where name = name and argsm = argsm and obj = obj]
  show ?thesis by auto
qed

lemma up_root: "cshape t \<Longrightarrow> up t d q \<Longrightarrow> (q = 0) = (d = 0)"
  using cshape_root(1) [of t] by (cases d; cases "q = 0") auto

lemma visiting_enter:
  assumes "visiting env t0 v" and "enterable (v_qtNodes v) (v_qnode v) c t"
    and "length (attached_nodes t @ v_qtNodes v) + 1 < 2 ^ 32"
    and "objs_ok env t" and "grown t0 t"
    and "\<And>d q. up (v_tree v) d q \<Longrightarrow> up t d q"
    and "set (cn_children (cnode t 0)) - set (cn_children (cnode t0 0)) =
        (if v_qnode v = 0 \<and> cn_refCount (cnode t c) = 0 then insert c (set (v_newNodes v)) else set (v_newNodes v))"
    and "cn_refCount (cnode t c) = 0 \<longrightarrow> c \<notin> set (v_newNodes v)"
  shows "visiting env t0 (enter_node c t v)"
proof -
  let ?t = "upd_cnode c (\<lambda>n. n\<lparr>cn_refCount := cn_refCount n + 1\<rparr>) t"
  have en: "cshape t" "v_qnode v < length (ct_nodes t)" "c \<in> set (cn_children (cnode t (v_qnode v)))"
    using assms(2) by (simp_all add: enterable_def)
  have c: "c < length (ct_nodes t)" "cn_parent (cnode t c) = Some (v_qnode v)" using cshape_child [OF en] by auto
  have fr: "frame (cnode ?t x) = frame (cnode t x)" for x
    by (rule cnode_upd_field) (simp add: frame_def)
  have upv: "up t (v_newNodeDepth v) (v_qnode v)" using assms(1,6) by (simp add: visiting_def Let_def)
  then have d0: "(v_newNodeDepth v = 0) = (v_qnode v = 0)" using up_root [OF en(1)] by blast
  have "up t (Suc (v_newNodeDepth v)) c" using upv c by simp
  then have "up ?t (Suc (v_newNodeDepth v)) c"
    by (rule up_mono [rotated 3]) (use en(1) fr in \<open>auto simp: frame_def\<close>)
  moreover have "objs_ok env ?t"
    using assms(4) fr by (simp add: objs_ok_def frame_def)
  moreover have "grown t0 ?t" using grown_trans [OF assms(5) grown_ref] .
  moreover have "ct_inv_with (v_qtNodes v @ [c]) ?t" using enterable_enter [OF assms(2,3)] .
  moreover have "set (cn_children (cnode ?t 0)) = set (cn_children (cnode t 0))"
    using fr [of 0] by (simp add: frame_def)
  moreover have "distinct (v_newNodes v)" "ct_nodes t0 \<noteq> []" using assms(1) by (simp_all add: visiting_def Let_def)
  ultimately show ?thesis
    using assms(7,8) d0 by (simp add: visiting_def Let_def)
qed

lemma visiting_existing:
  assumes "visiting env t0 v" and "vars_only (v_tree v) t" and "c \<in> set (cn_children (cnode (v_tree v) (v_qnode v)))"
    and "length (attached_nodes (v_tree v) @ v_qtNodes v) + 1 < 2 ^ 32"
  shows "visiting env t0 (enter_node c t v)"
proof -
  note vo = vars_only_inv [OF assms(2)]
  have v: "ct_inv_with (v_qtNodes v) (v_tree v)" "objs_ok env (v_tree v)" "grown t0 (v_tree v)"
      "v_qnode v = 0 \<or> v_qnode v \<in> set (v_qtNodes v)"
      "set (v_newNodes v) = set (cn_children (cnode (v_tree v) 0)) - set (cn_children (cnode t0 0))"
    using assms(1) by (simp_all add: visiting_def Let_def)
  have same: "ct_nodes t = ct_nodes (v_tree v)" "attached_nodes t = attached_nodes (v_tree v)"
    using assms(2) by (simp_all add: vars_only_def attached_nodes_def)
  have "cshape (v_tree v)" "counts (v_tree v) (attached_nodes (v_tree v) @ v_qtNodes v)"
    using v(1) by (simp_all add: ct_inv_with_def)
  then have q: "v_qnode v < length (ct_nodes t)"
    using v(4) cshape_root(2) same(1) by (auto simp: counts_def)
  have inv: "ct_inv_with (v_qtNodes v) t" using v(1) vo(1) by simp
  have c: "c \<in> set (cn_children (cnode t (v_qnode v)))" using assms(3) same by simp
  show ?thesis
    by (rule visiting_enter [OF assms(1) existing_enterable(1) [OF inv q v(4) c]])
       (use existing_enterable(2) [OF inv q v(4) c] assms(4) same vo v in auto)
qed

lemma visiting_new:
  assumes "visiting env t0 v" and "vars_only (v_tree v) t" and "\<forall>d. obj = Some d \<longrightarrow> d < length (ce_defs env)"
    and "length (attached_nodes (v_tree v) @ v_qtNodes v) + 1 < 2 ^ 32"
  shows "visiting env t0 (enter_node (length (ct_nodes (v_tree v)))
      (alloc_child (v_qnode v) name argsm obj t) v)"
proof -
  let ?a = "alloc_child (v_qnode v) name argsm obj t" and ?c = "length (ct_nodes t)"
  note vo = vars_only_inv [OF assms(2)]
  have v: "ct_inv_with (v_qtNodes v) t" "objs_ok env t" "grown t0 t"
      "v_qnode v = 0 \<or> v_qnode v \<in> set (v_qtNodes v)"
      "set (v_newNodes v) = set (cn_children (cnode t 0)) - set (cn_children (cnode t0 0))"
    using assms(1,2) vo by (simp_all add: visiting_def Let_def vars_only_def)
  have same: "?c = length (ct_nodes (v_tree v))" "attached_nodes ?a = attached_nodes (v_tree v)"
    using assms(2) by (simp_all add: vars_only_def attached_nodes_def alloc_child_def)
  have sh: "cshape t" and "counts t (attached_nodes t @ v_qtNodes v)"
    using v(1) by (simp_all add: ct_inv_with_def)
  then have q: "v_qnode v < ?c" using v(4) cshape_root(2) by (auto simp: counts_def)
  note al = cnode_alloc [OF q, where name = name and argsm = argsm and obj = obj]
  have fresh: "?c \<notin> set (cn_children (cnode t 0))"
    using cshape_child [OF sh cshape_root(2) [OF sh], of ?c] by blast
  have fresh0: "?c \<notin> set (cn_children (cnode t0 0))"
    using v(3) assms(1) fresh unfolding grown_def visiting_def Let_def by blast
  have "set (cn_children (cnode ?a 0)) - set (cn_children (cnode t0 0)) =
      (if v_qnode v = 0 \<and> cn_refCount (cnode ?a ?c) = 0 then insert ?c (set (v_newNodes v)) else set (v_newNodes v))"
    using v(5) alloc_root_children [OF q, of name argsm obj] fresh0 al(2) by auto
  moreover have "?c \<notin> set (v_newNodes v)" using v(5) fresh by simp
  moreover have "objs_ok env ?a"
    using v(2) assms(3) al less_Suc_eq by (auto simp: objs_ok_def)
  moreover have "up ?a d p" if "up (v_tree v) d p" for d p
    by (rule up_mono [of t]) (use al sh that vo(4) in auto)
  ultimately show ?thesis
    using visiting_enter [OF assms(1) alloc_enterable [OF v(1) q v(4), of name argsm obj]]
      grown_trans [OF v(3) grown_alloc [OF q]] assms(4) same by simp
qed

lemma visiting_leave:
  assumes "visiting env t0 v"
  shows "\<exists>v'. leave_node v = Some v' \<and> visiting env t0 v' \<and> v_qtNodes v' = v_qtNodes v \<and> v_tree v' = v_tree v"
proof (cases "v_newNodeDepth v")
  case 0
  then show ?thesis using assms by (simp add: leave_node_def)
next
  case (Suc d)
  have v: "ct_inv_with (v_qtNodes v) (v_tree v)" "v_qnode v = 0 \<or> v_qnode v \<in> set (v_qtNodes v)"
    using assms by (simp_all add: visiting_def Let_def)
  obtain p where p: "cn_parent (cnode (v_tree v) (v_qnode v)) = Some p" "up (v_tree v) d p"
    using assms Suc by (auto simp: visiting_def Let_def)
  have "v_qnode v \<noteq> 0" using p(1) v(1) cshape_root(1) [of "v_tree v"] by (metis ct_inv_with_def option.distinct(1))
  then have "p = 0 \<or> p \<in> set (v_qtNodes v)"
    using v p(1) by (auto simp: ct_inv_with_def closed_def)
  then show ?thesis
    using assms Suc p by (simp add: leave_node_def visiting_def Let_def)
qed

lemma visit_result:
  assumes "env_ok env" and "visiting env t0 v"
    and "length (attached_nodes t0 @ v_qtNodes v) + length es < 2 ^ 32"
  shows "\<exists>v' e. visit env es v = Some (v', e) \<and> visiting env t0 v' \<and>
     length (v_qtNodes v') \<le> length (v_qtNodes v) + length es"
  using assms
proof (induction env es v rule: visit.induct)
  case (2 env f es v)
  have att: "attached_nodes (v_tree v) = attached_nodes t0"
    using 2(4) by (simp add: visiting_def Let_def grown_def attached_nodes_def)
  show ?case
  proof (cases "nameless f")
    case True
    have "length (skip_subtree 0 es) \<le> length es" by (rule length_skip_subtree)
    then show ?thesis using 2(1) [OF True 2(3,4)] 2(5) True by fastforce
  next
    case False
    have inv: "ct_inv_with (v_qtNodes v) (v_tree v)" and v1: "objs_ok env (v_tree v)"
      and q: "v_qnode v = 0 \<or> v_qnode v \<in> set (v_qtNodes v)"
      using 2(4) by (simp_all add: visiting_def Let_def)
    have "cshape (v_tree v)" "counts (v_tree v) (attached_nodes (v_tree v) @ v_qtNodes v)"
      using inv by (simp_all add: ct_inv_with_def)
    then have v2: "v_qnode v < length (ct_nodes (v_tree v))"
      using q cshape_root(2) by (auto simp: counts_def)
    let ?r = "resolveChild env (v_qnode v) (the (f_name f)) (f_arguments f) (v_tree v)"
    have room: "length (attached_nodes (v_tree v) @ v_qtNodes v) + 1 < 2 ^ 32" using 2(5) att by simp
    have go: ?thesis if r: "?r = Some (t, Inr c)" and en: "visiting env t0 (enter_node c t v)" for t c
    proof -
      have "length (attached_nodes t0 @ v_qtNodes (enter_node c t v)) + length es < 2 ^ 32" using 2(5) by simp
      from 2(2) [OF False r refl refl 2(3) en this] show ?thesis using r False by auto
    qed
    from resolveChild_result [OF 2(3) v1 v2, of "the (f_name f)" "f_arguments f"] show ?thesis
    proof (elim disjE exE conjE)
      fix t e assume r: "?r = Some (t, Inl e)" "vars_only (v_tree v) t"
      then have "visiting env t0 (v\<lparr>v_tree := t\<rparr>)"
        using 2(4) vars_only_inv [OF r(2)] by (simp add: visiting_def Let_def vars_only_def)
      then show ?thesis using r(1) False by simp
    next
      fix t c assume r: "?r = Some (t, Inr c)" "vars_only (v_tree v) t"
        "c \<in> set (cn_children (cnode (v_tree v) (v_qnode v)))"
      show ?thesis using go [OF r(1) visiting_existing [OF 2(4) r(2,3) room]] .
    next
      fix t argsm obj assume r: "?r = Some (alloc_child (v_qnode v) (the (f_name f)) argsm obj t,
          Inr (length (ct_nodes (v_tree v))))" "vars_only (v_tree v) t"
        "\<forall>d. obj = Some d \<longrightarrow> d < length (ce_defs env)"
      show ?thesis using go [OF r(1) visiting_new [OF 2(4) r(2,3) room]] .
    qed
  qed
next
  case (3 env f es v)
  show ?case
  proof (cases "nameless f")
    case False
    obtain v' where v': "leave_node v = Some v'" "visiting env t0 v'" "v_qtNodes v' = v_qtNodes v" "v_tree v' = v_tree v"
      using visiting_leave [OF 3(4)] by blast
    then show ?thesis using 3(2) [OF False v'(1) 3(3) v'(2)] 3(5) False by fastforce
  qed (use 3 in fastforce)
qed auto

subsection \<open>The mutation for new nodes\<close>

lemma those_total: "\<forall>x \<in> set xs. f x \<noteq> None \<Longrightarrow> those (map f xs) \<noteq> None"
  by (induction xs) auto

lemma buildProto_total:
  assumes "cshape t"
  shows "a < length (ct_nodes t) \<Longrightarrow> length (ct_nodes t) - a \<le> fuel \<Longrightarrow> buildProto fuel t a \<noteq> None"
proof (induction fuel arbitrary: a)
  case (Suc fuel)
  have "\<forall>c \<in> set (cn_children (cnode t a)). buildProto fuel t c \<noteq> None"
    using Suc cshape_child [OF assms Suc.prems(1)] by fastforce
  then show ?case using those_total by auto
qed simp

definition same_proto :: "QueryTree \<Rightarrow> QueryTree \<Rightarrow> bool" where
  "same_proto t t' \<longleftrightarrow> ct_varStore t' = ct_varStore t \<and>
     (\<forall>x. cn_id (cnode t' x) = cn_id (cnode t x) \<and> cn_name (cnode t' x) = cn_name (cnode t x) \<and>
        cn_args (cnode t' x) = cn_args (cnode t x) \<and> cn_children (cnode t' x) = cn_children (cnode t x))"

lemma buildProto_same: "same_proto t t' \<Longrightarrow> buildProto fuel t' a = buildProto fuel t a"
proof (induction fuel arbitrary: a)
  case (Suc fuel)
  have "buildProto fuel t' = buildProto fuel t" using Suc.IH [OF Suc.prems] by (rule ext)
  then show ?case using Suc.prems by (simp add: same_proto_def)
qed simp

text \<open>The entry that announces \<open>a\<close> as a new child of the root.\<close>

definition announces :: "QueryTree \<Rightarrow> addr \<Rightarrow> RGQLQueryTreeMutation_NodeMutation \<Rightarrow> bool" where
  "announces t a mut \<longleftrightarrow> nm_node_id mut = 0 \<and> nm_operation mut = SUBTREE_ADD_CHILD \<and>
     nm_node mut \<noteq> None \<and> nm_node mut = buildProto (length (ct_nodes t)) t a"

lemma build_mutations_result:
  assumes "cshape t" and "cn_id (cnode t 0) = 0"
    and "\<forall>a \<in> set xs. a < length (ct_nodes t) \<and> cn_parent (cnode t a) = Some 0"
  shows "\<exists>t' muts. build_mutations xs t = Some (t', muts) \<and> list_all2 (announces t) xs muts \<and>
     rest_same t t' \<and> same_proto t t' \<and>
     (\<forall>x < length (ct_nodes t). cnode t' x =
        (if x \<in> set xs then (cnode t x)\<lparr>cn_xmitted := True\<rparr> else cnode t x))"
  using assms
proof (induction xs arbitrary: t)
  case Nil
  then show ?case by (simp add: same_proto_def)
next
  case (Cons a xs)
  let ?t = "upd_cnode a (\<lambda>n. n\<lparr>cn_xmitted := True\<rparr>) t"
  have a: "a < length (ct_nodes t)" "cn_parent (cnode t a) = Some 0" using Cons.prems(3) by auto
  have keep: "cn_parent (cnode ?t x) = cn_parent (cnode t x)" "cn_children (cnode ?t x) = cn_children (cnode t x)"
    "cn_id (cnode ?t x) = cn_id (cnode t x)" "cn_name (cnode ?t x) = cn_name (cnode t x)"
    "cn_args (cnode ?t x) = cn_args (cnode t x)" for x
    by (rule cnode_upd_field, simp)+
  have sp: "same_proto t ?t" using keep by (simp add: same_proto_def)
  have sh: "cshape ?t"
    by (rule cshape_shrink [OF Cons.prems(1)]) (use keep cshape_distinct [OF Cons.prems(1)] in simp_all)
  have "\<forall>b \<in> set xs. b < length (ct_nodes ?t) \<and> cn_parent (cnode ?t b) = Some 0"
    using Cons.prems(3) keep by simp
  then obtain t' muts where t': "build_mutations xs ?t = Some (t', muts)" "list_all2 (announces ?t) xs muts"
      "rest_same ?t t'" "same_proto ?t t'"
      "\<forall>x < length (ct_nodes ?t). cnode t' x =
        (if x \<in> set xs then (cnode ?t x)\<lparr>cn_xmitted := True\<rparr> else cnode ?t x)"
    using Cons.IH [OF sh] Cons.prems(2) keep by auto
  have bp: "buildProto fuel ?t x = buildProto fuel t x" for fuel x by (rule buildProto_same [OF sp])
  obtain nod where nod: "buildProto (length (ct_nodes t)) t a = Some nod"
    using buildProto_total [OF Cons.prems(1) a(1)] by fastforce
  have "announces ?t = announces t" by (simp add: announces_def bp fun_eq_iff)
  then have "list_all2 (announces t) xs muts" using t'(2) by simp
  moreover have "build_mutations (a # xs) t = Some (t', \<lparr>nm_node_id = 0, nm_operation = SUBTREE_ADD_CHILD,
      nm_node = Some nod, nm_unknown = []\<rparr> # muts)"
    using t'(1) a(2) nod keep Cons.prems(2) bp by (simp add: Let_def)
  moreover have "rest_same t t'" "same_proto t t'"
    using t'(3,4) sp by (simp_all add: rest_same_def same_proto_def)
  moreover have "cnode t' x = (if x \<in> set (a # xs) then (cnode t x)\<lparr>cn_xmitted := True\<rparr> else cnode t x)"
    if x: "x < length (ct_nodes t)" for x
    using t'(5) x by (simp add: cnode_upd)
  moreover have "announces t a \<lparr>nm_node_id = 0, nm_operation = SUBTREE_ADD_CHILD, nm_node = Some nod,
      nm_unknown = []\<rparr>" using nod by (simp add: announces_def)
  ultimately show ?case
    by (intro exI [of _ t'] exI [of _ "\<lparr>nm_node_id = 0, nm_operation = SUBTREE_ADD_CHILD,
      nm_node = Some nod, nm_unknown = []\<rparr> # muts"] conjI allI impI) (simp_all del: build_mutations.simps)
qed

lemma mark_inv:
  assumes "ct_inv_with cur t" and "tops_sent xs t" and "length (ct_nodes t') = length (ct_nodes t)"
    and "ct_attached t' = ct_attached t"
    and "\<forall>x < length (ct_nodes t). cnode t' x =
        (if x \<in> set xs then (cnode t x)\<lparr>cn_xmitted := True\<rparr> else cnode t x)"
    and "\<forall>a \<in> set xs. a < length (ct_nodes t) \<and> cn_parent (cnode t a) = Some 0"
  shows "ct_inv_with cur t'" and "tops_sent [] t'"
proof -
  have sh: "cshape t" and ct: "counts t (attached_nodes t @ cur)"
    and cl: "\<forall>x \<in> set (ct_attached t). closed t (snd x)" "closed t cur"
    using assms(1) by (simp_all add: ct_inv_with_def)
  have keep: "cn_parent (cnode t' x) = cn_parent (cnode t x) \<and> cn_children (cnode t' x) = cn_children (cnode t x) \<and>
      cn_id (cnode t' x) = cn_id (cnode t x) \<and> cn_refCount (cnode t' x) = cn_refCount (cnode t x) \<and>
      cn_gcNext (cnode t' x) = cn_gcNext (cnode t x) \<and>
      cn_xmitted (cnode t' x) = (cn_xmitted (cnode t x) \<or> x \<in> set xs)"
    if "x < length (ct_nodes t)" for x
    using assms(5) that by simp
  have att: "attached_nodes t' = attached_nodes t" by (simp add: attached_nodes_def assms(4))
  have sh': "cshape t'"
    by (rule cshape_shrink [OF sh assms(3)]) (use keep cshape_distinct [OF sh] in simp_all)
  have closed: "closed t' ys" if cl: "closed t ys" "set ys \<subseteq> set (attached_nodes t @ cur)" for ys
    unfolding closed_def
  proof
    fix a assume a: "a \<in> set ys"
    then obtain p where p: "cn_parent (cnode t a) = Some p" "p = 0 \<or> p \<in> set ys"
        "a \<in> set (cn_children (cnode t p))"
      using cl(1) by (auto simp: closed_def)
    have al: "a < length (ct_nodes t)" using a cl(2) ct by (auto simp: counts_def)
    have pl: "p < length (ct_nodes t)" using cshape_parent [OF sh al p(1)] al by simp
    show "\<exists>p. cn_parent (cnode t' a) = Some p \<and> (p = 0 \<or> p \<in> set ys) \<and> a \<in> set (cn_children (cnode t' p))"
      using p keep [OF al] keep [OF pl] by auto
  qed
  have "closed t' (snd x)" if "x \<in> set (ct_attached t)" for x
    by (rule closed) (use cl(1) that in \<open>auto simp: attached_nodes_def\<close>)
  moreover have "closed t' cur" using closed [OF cl(2)] by simp
  moreover have "counts t' (attached_nodes t @ cur)" using counts_refs [OF ct assms(3)] keep by simp
  moreover have "clean t'"
    unfolding clean_def assms(3)
  proof (intro allI impI ballI)
    fix p c assume p: "p < length (ct_nodes t)" "used t' p" and c: "c \<in> set (cn_children (cnode t' p))"
    have ct: "c \<in> set (cn_children (cnode t p))" "used t p" using c p keep [OF p(1)] by (auto simp: used_def)
    then have "cn_refCount (cnode t c) \<noteq> 0" using assms(1) p(1) by (simp add: ct_inv_with_def clean_def)
    then show "cn_refCount (cnode t' c) \<noteq> 0" using keep cshape_child [OF sh p(1) ct(1)] by simp
  qed
  moreover have "top_xmit t'"
    using assms(1,6) keep cshape_root(2) [OF sh] by (auto simp: ct_inv_with_def top_xmit_def assms(3))
  ultimately show "ct_inv_with cur t'"
    using assms(1) sh' keep by (simp add: ct_inv_with_def att assms(3,4))
  have 0: "0 < length (ct_nodes t)" using cshape_root(2) [OF sh] .
  show "tops_sent [] t'"
    unfolding tops_sent_def
  proof
    fix c assume "c \<in> set (cn_children (cnode t' 0))"
    then have c: "c \<in> set (cn_children (cnode t 0))" using keep [OF 0] by simp
    then show "cn_xmitted (cnode t' c) \<or> c \<in> set []"
      using assms(2) keep [of c] cshape_child [OF sh 0 c] by (auto simp: tops_sent_def)
  qed
qed

subsection \<open>The end of an attachment\<close>

text \<open>The tree that a client of the operation sees: nodes that are not in use are unreachable.\<close>

definition rolled_back :: "QueryTree \<Rightarrow> QueryTree \<Rightarrow> bool" where
  "rolled_back t t' \<longleftrightarrow> ct_attached t' = ct_attached t \<and> ct_out t' = ct_out t \<and> ct_pending t' = [] \<and>
     (\<forall>x < length (ct_nodes t). cn_refCount (cnode t' x) = cn_refCount (cnode t x) \<and>
        (used t x \<longrightarrow> set (cn_children (cnode t' x)) = set (cn_children (cnode t x))))"

text \<open>
  A node that was there when the visit began has the same references once the visit's are
  dropped; a node that the visit made has none.
\<close>

lemma visit_undone:
  assumes "ct_inv n t0" and "counts t (attached_nodes t0)" and "length (ct_nodes t0) \<le> length (ct_nodes t)"
  shows "x < length (ct_nodes t0) \<Longrightarrow> cn_refCount (cnode t x) = cn_refCount (cnode t0 x)"
    and "length (ct_nodes t0) \<le> x \<Longrightarrow> x < length (ct_nodes t) \<Longrightarrow> cn_refCount (cnode t x) = 0"
proof -
  have ct: "counts t0 (attached_nodes t0)" using assms(1) by (simp add: ct_inv_def ct_inv_with_def)
  show "cn_refCount (cnode t x) = cn_refCount (cnode t0 x)" if "x < length (ct_nodes t0)"
    using ct assms(2,3) that by (simp add: counts_def word_unat_eq_iff)
  show "cn_refCount (cnode t x) = 0" if "length (ct_nodes t0) \<le> x" "x < length (ct_nodes t)"
  proof -
    have "x \<notin> set (attached_nodes t0)" using ct that(1) by (auto simp: counts_def)
    then show ?thesis using counts_used [OF assms(2) that(2)] by blast
  qed
qed

lemma visit_children:
  assumes "ct_inv n t0" and "grown t0 t" and "same_frame t t1" and "cshape t1" and "counts t1 (attached_nodes t0)"
    and p: "p < length (ct_nodes t0)" "used t0 p"
  shows "c \<in> set (cn_children (cnode t1 p)) \<and> cn_refCount (cnode t1 c) \<noteq> 0 \<longleftrightarrow>
     c \<in> set (cn_children (cnode t0 p))"
proof -
  have inv0: "ct_inv_with [] t0" using assms(1) by (simp add: ct_inv_def)
  have len: "length (ct_nodes t1) = length (ct_nodes t)" and le: "length (ct_nodes t0) \<le> length (ct_nodes t)"
    using assms(2,3) by (simp_all add: same_frame_def rest_same_def grown_def)
  note refs = visit_undone [OF assms(1,5) le [folded len]]
  have p1: "p < length (ct_nodes t1)" using p(1) le len by simp
  have k: "cn_children (cnode t1 p) = cn_children (cnode t p)"
    using assms(3) p(1) le by (simp add: same_frame_def frame_def)
  have g: "set (cn_children (cnode t0 p)) \<subseteq> set (cn_children (cnode t p))"
    "\<forall>c \<in> set (cn_children (cnode t p)). c \<in> set (cn_children (cnode t0 p)) \<or> length (ct_nodes t0) \<le> c"
    using assms(2) p(1) by (simp_all add: grown_def)
  have "cn_refCount (cnode t1 c) \<noteq> 0" if c: "c \<in> set (cn_children (cnode t0 p))"
  proof -
    have "cn_refCount (cnode t0 c) \<noteq> 0" using inv0 p c by (simp add: ct_inv_with_def clean_def)
    moreover have "cshape t0" using inv0 by (simp add: ct_inv_with_def)
    ultimately show ?thesis using refs(1) [of c] cshape_child [OF _ p(1) c] by simp
  qed
  moreover have "c \<in> set (cn_children (cnode t0 p))"
    if c: "c \<in> set (cn_children (cnode t1 p))" "cn_refCount (cnode t1 c) \<noteq> 0"
    using g(2) c k refs(2) [of c] cshape_child [OF assms(4) p1 c(1)] by auto
  ultimately show ?thesis using g(1) k by auto
qed

lemma abort_result:
  assumes "ct_inv n t0" and "visiting env t0 v"
  shows "\<exists>t1 sweep t2. unref_nodes (v_qtNodes v) (v_tree v) = Some (t1, sweep) \<and> gcSweep t1 = Some t2 \<and>
     gcSweep (t2\<lparr>ct_pending := []\<rparr>) = Some (t2\<lparr>ct_pending := []\<rparr>) \<and>
     ct_inv n (t2\<lparr>ct_pending := []\<rparr>) \<and> objs_ok env (t2\<lparr>ct_pending := []\<rparr>) \<and>
     rolled_back t0 (t2\<lparr>ct_pending := []\<rparr>)"
proof -
  let ?t = "v_tree v" and ?A = "attached_nodes t0"
  have inv: "ct_inv_with (v_qtNodes v) ?t" and obj: "objs_ok env ?t" and gr: "grown t0 ?t"
    using assms(2) by (simp_all add: visiting_def Let_def)
  have inv0: "ct_inv_with [] t0" and top: "tops_sent [] t0" and room: "length ?A + n < 2 ^ 32"
    using assms(1) by (simp_all add: ct_inv_def)
  have att: "ct_attached ?t = ct_attached t0" "attached_nodes ?t = ?A"
    using gr by (simp_all add: grown_def attached_nodes_def)
  have sh: "cshape ?t" and cl: "\<forall>x \<in> set (ct_attached ?t). closed ?t (snd x)" "closed ?t (v_qtNodes v)"
    and keys: "distinct (map fst (ct_attached ?t))" and ctv: "counts ?t (attached_nodes ?t @ v_qtNodes v)"
    using inv by (simp_all add: ct_inv_with_def)
  have "mset (attached_nodes ?t @ v_qtNodes v) = mset (v_qtNodes v @ ?A)" using att by simp
  from unref_between [OF this inv cl(2)] obtain t1 sweep
    where t1: "unref_nodes (v_qtNodes v) ?t = Some (t1, sweep)" "between (v_qtNodes v) ?A t1" "same_frame ?t t1"
    by blast
  have rest: "ct_attached t1 = ct_attached t0" "attached_nodes t1 = ?A" "ct_out t1 = ct_out t0"
      "length (ct_nodes t1) = length (ct_nodes ?t)"
    using t1(3) gr att by (simp_all add: same_frame_def rest_same_def grown_def attached_nodes_def)
  have fr: "frame (cnode t1 x) = frame (cnode ?t x)" if "x < length (ct_nodes ?t)" for x
    using t1(3) that by (simp add: same_frame_def)
  have btw: "between (v_qtNodes v) (attached_nodes t1) t1" using t1(2) rest by simp
  have sh1: "cshape t1" and ct1: "counts t1 ?A" and tx1: "top_xmit t1"
    using t1(2) by (simp_all add: between_def)
  have le: "length (ct_nodes t0) \<le> length (ct_nodes ?t)" using gr by (simp add: grown_def)
  note refs = visit_undone [OF assms(1) ct1 le [folded rest(4)]]
  obtain t2 cbs where t2: "gcSweep t1 = Some t2" "collected t1 t2" "cshape t2"
      "ct_out t2 = ct_out t1 @ delete_message t1 cbs" "\<forall>x \<in> set cbs. purgeable t1 x"
    using gcSweep_result [OF sh1] btw by (auto simp: between_def)
  note kids = visit_children [OF assms(1) gr t1(3) sh1 ct1]
  have 0: "0 < length (ct_nodes t0)" using inv0 cshape_root(2) by (simp add: ct_inv_with_def)
  have "\<not> purgeable t1 x" for x
  proof
    assume p: "purgeable t1 x"
    note x = purgeable_top [OF sh1 tx1 p]
    have x1: "x < length (ct_nodes t1)" "cn_xmitted (cnode t1 x)" using p by (simp_all add: purgeable_def)
    then have "cn_xmitted (cnode ?t x)" using fr [of x] rest(4) by (simp add: frame_def)
    then have "x < length (ct_nodes t0)" using gr x1(1) rest(4) by (auto simp: grown_def not_less [symmetric])
    moreover have "x \<in> set (cn_children (cnode ?t 0))" using x fr [OF order.strict_trans2 [OF 0 le]] by (simp add: frame_def)
    moreover have "\<forall>c \<in> set (cn_children (cnode ?t 0)). c \<in> set (cn_children (cnode t0 0)) \<or> length (ct_nodes t0) \<le> c"
      using gr 0 unfolding grown_def by blast
    ultimately have "x \<in> set (cn_children (cnode t0 0))" using not_le by blast
    then show False using kids [OF 0, of x] x by (simp add: used_def)
  qed
  then have "cbs = []" using t2(5) by (cases cbs) auto
  let ?t3 = "t2\<lparr>ct_pending := []\<rparr>"
  have len2: "length (ct_nodes t2) = length (ct_nodes t1)" "ct_attached t2 = ct_attached t1"
    using t2(2) by (simp_all add: collected_def)
  have cl1: "\<forall>x \<in> set (ct_attached t1). closed t1 (snd x)"
    using closed_frame [OF t1(3) _ sh] cl(1) ctv att rest(1) by (auto simp: counts_def attached_nodes_def)
  have inv2: "ct_inv_with [] t2" using settled [OF btw t2(2,3) cl1] keys att rest(1) by simp
  then have inv3: "ct_inv_with [] ?t3"
    using nodes_cong [of ?t3 t2] by (simp add: ct_inv_with_def attached_nodes_def)
  have kids2: "set (cn_children (cnode t2 p)) = set (cn_children (cnode t0 p))"
    if p: "p < length (ct_nodes t0)" "used t0 p" for p
  proof -
    have "used t1 p" using p refs(1) [OF p(1)] by (auto simp: used_def)
    then show ?thesis
      using between_collected(6) [OF btw t2(2,3), of p] p le rest(4) kids [OF p] by auto
  qed
  have fx: "fixed (cnode t2 x) = fixed (cnode t1 x)" if "x < length (ct_nodes t1)" for x
    using collected_fixed [OF t2(2) that] .
  have "tops_sent [] ?t3"
  proof -
    have "cn_xmitted (cnode t2 c)" if "c \<in> set (cn_children (cnode t2 0))" for c
    proof -
      have c: "c \<in> set (cn_children (cnode t0 0))" using that kids2 [OF 0] by (simp add: used_def)
      have "c < length (ct_nodes t0)" using cshape_child [OF _ 0 c] inv0 by (simp add: ct_inv_with_def)
      then show ?thesis
        using top c gr fr [of c] fx [of c] le rest(4) by (simp add: tops_sent_def grown_def frame_def fixed_def)
    qed
    then show ?thesis by (simp add: tops_sent_def)
  qed
  then have "ct_inv n ?t3"
    using inv3 room len2 rest(1) by (simp add: ct_inv_def attached_nodes_def)
  moreover have "gcSweep ?t3 = Some ?t3"
    using inv3 cshape_root(2) [of ?t3] gcSweep_idle [of ?t3] unfolding ct_inv_with_def by blast
  moreover have "objs_ok env ?t3"
    using obj fx fr rest(4) len2 by (simp add: objs_ok_def fixed_def frame_def)
  moreover have "rolled_back t0 ?t3"
    using len2 rest t2(4) \<open>cbs = []\<close> kids2 refs(1) fx le
    by (simp add: rolled_back_def delete_message_def fixed_def)
  ultimately show ?thesis using t1(1) t2(1) by blast
qed

text \<open>The message for the new children \<open>xs\<close> of the root, if there is one.\<close>

definition add_message :: "QueryTree \<Rightarrow> addr list \<Rightarrow> ASTVariable list \<Rightarrow> RGQLQueryTreeMutation list \<Rightarrow> bool" where
  "add_message t xs vars msgs \<longleftrightarrow>
     (if xs = [] then msgs = []
      else \<exists>muts. list_all2 (announces t) xs muts \<and>
        msgs = [\<lparr>tm_query_id = 0, tm_node_mutation = muts, tm_variables = vars, tm_unknown = []\<rparr>])"

definition commit :: "nat \<Rightarrow> visit_state \<Rightarrow> QueryTree option" where
  "commit query v =
     map_option (\<lambda>t1. t1\<lparr>ct_pending := [], ct_attached := ct_attached t1 @ [(query, v_qtNodes v)]\<rparr>)
       (if v_newNodes v = [] then Some (v_tree v)
        else map_option (\<lambda>(t1, muts).
            t1\<lparr>ct_out := ct_out t1 @ [\<lparr>tm_query_id = 0, tm_node_mutation = muts,
                tm_variables = ct_pending t1, tm_unknown = []\<rparr>]\<rparr>)
          (build_mutations (v_newNodes v) (v_tree v)))"

lemma commit_result:
  assumes "ct_inv m t0" and "visiting env t0 v" and "map_of (ct_attached t0) query = None"
    and "length (attached_nodes t0 @ v_qtNodes v) + n < 2 ^ 32"
  shows "\<exists>t' msgs. commit query v = Some t' \<and> ct_inv n t' \<and> objs_ok env t' \<and>
     ct_attached t' = ct_attached t0 @ [(query, v_qtNodes v)] \<and> ct_pending t' = [] \<and>
     ct_out t' = ct_out t0 @ msgs \<and> add_message t' (v_newNodes v) (ct_pending (v_tree v)) msgs \<and>
     set (v_newNodes v) = set (cn_children (cnode t' 0)) - set (cn_children (cnode t0 0))"
proof -
  let ?t = "v_tree v"
  have inv: "ct_inv_with (v_qtNodes v) ?t" and obj: "objs_ok env ?t" and gr: "grown t0 ?t"
    and new: "set (v_newNodes v) = set (cn_children (cnode ?t 0)) - set (cn_children (cnode t0 0))"
    using assms(2) by (simp_all add: visiting_def Let_def)
  have sh: "cshape ?t" using inv by (simp add: ct_inv_with_def)
  note 0 = cshape_root(2) [OF sh]
  have inv0: "cshape t0" "tops_sent [] t0" using assms(1) by (simp_all add: ct_inv_def ct_inv_with_def)
  note 00 = cshape_root(2) [OF inv0(1)]
  have att: "ct_attached ?t = ct_attached t0" "ct_out ?t = ct_out t0" using gr by (simp_all add: grown_def)
  have nodes: "\<forall>a \<in> set (v_newNodes v). a < length (ct_nodes ?t) \<and> cn_parent (cnode ?t a) = Some 0"
    using new cshape_child [OF sh 0] by blast
  have tops: "tops_sent (v_newNodes v) ?t"
    unfolding tops_sent_def
  proof
    fix c assume c: "c \<in> set (cn_children (cnode ?t 0))"
    show "cn_xmitted (cnode ?t c) \<or> c \<in> set (v_newNodes v)"
    proof (cases "c \<in> set (cn_children (cnode t0 0))")
      case True
      then have "cn_xmitted (cnode t0 c)" "c < length (ct_nodes t0)"
        using inv0(2) cshape_child [OF inv0(1) 00] by (auto simp: tops_sent_def)
      then show ?thesis using gr by (simp add: grown_def)
    qed (use c new in blast)
  qed
  obtain t1 msgs where t1: "commit query v = Some (t1\<lparr>ct_pending := [],
        ct_attached := ct_attached t1 @ [(query, v_qtNodes v)]\<rparr>)"
      "length (ct_nodes t1) = length (ct_nodes ?t)" "ct_attached t1 = ct_attached ?t"
      "ct_out t1 = ct_out ?t @ msgs" "add_message ?t (v_newNodes v) (ct_pending ?t) msgs"
      "same_proto ?t t1"
      "\<forall>x < length (ct_nodes ?t). cnode t1 x =
        (if x \<in> set (v_newNodes v) then (cnode ?t x)\<lparr>cn_xmitted := True\<rparr> else cnode ?t x)"
  proof (cases "v_newNodes v = []")
    case True
    then show ?thesis using that [of ?t "[]"] by (simp add: commit_def add_message_def same_proto_def)
  next
    case False
    have "cn_id (cnode ?t 0) = 0" using inv by (simp add: ct_inv_with_def top_xmit_def)
    from build_mutations_result [OF sh this nodes] obtain t1 muts
      where b: "build_mutations (v_newNodes v) ?t = Some (t1, muts)" "list_all2 (announces ?t) (v_newNodes v) muts"
        "rest_same ?t t1" "same_proto ?t t1" "\<forall>x < length (ct_nodes ?t). cnode t1 x =
        (if x \<in> set (v_newNodes v) then (cnode ?t x)\<lparr>cn_xmitted := True\<rparr> else cnode ?t x)"
      by blast
    let ?msg = "\<lparr>tm_query_id = 0, tm_node_mutation = muts, tm_variables = ct_pending t1, tm_unknown = []\<rparr>"
    show ?thesis
      by (rule that [of "t1\<lparr>ct_out := ct_out t1 @ [?msg]\<rparr>" "[?msg]"])
         (use b False in \<open>simp_all add: commit_def add_message_def rest_same_def same_proto_def\<close>)
  qed
  let ?t' = "t1\<lparr>ct_pending := [], ct_attached := ct_attached t1 @ [(query, v_qtNodes v)]\<rparr>"
  note mk = mark_inv [OF inv tops t1(2,3,7) nodes]
  have "query \<notin> fst ` set (ct_attached t0)" using assms(3) by (simp add: map_of_eq_None_iff)
  then have "ct_inv_with [] ?t'"
    using mk(1) att t1(3) nodes_cong [of ?t' t1] by (auto simp: ct_inv_with_def attached_nodes_def closed_def)
  then have "ct_inv n ?t'"
    using mk(2) assms(4) att t1(3) nodes_cong [of ?t' t1] by (simp add: ct_inv_def attached_nodes_def)
  moreover have "objs_ok env ?t'" using obj t1(2,7) by (auto simp: objs_ok_def)
  moreover have "add_message ?t' (v_newNodes v) (ct_pending ?t) msgs"
  proof -
    have "same_proto ?t ?t'" using t1(6) by (simp add: same_proto_def)
    from buildProto_same [OF this] t1(2) have "announces ?t' = announces ?t" by (simp add: announces_def fun_eq_iff)
    then show ?thesis using t1(5) by (simp add: add_message_def)
  qed
  moreover have "set (cn_children (cnode ?t' 0)) = set (cn_children (cnode ?t 0))"
    using t1(6) by (simp add: same_proto_def)
  ultimately show ?thesis using t1(1,3,4) att new
    by (intro exI [of _ ?t'] exI [of _ msgs]) simp
qed

lemma Attach_result:
  assumes "ct_inv (length events + n) t" and "env_ok env" and "objs_ok env t"
    and "map_of (ct_attached t) query = None"
  shows "(\<exists>t' e. Attach env query events t = Some (t', Some e) \<and> ct_inv (length events + n) t' \<and>
        objs_ok env t' \<and> rolled_back t t') \<or>
     (\<exists>t' nodes xs vars msgs. Attach env query events t = Some (t', None) \<and> ct_inv n t' \<and> objs_ok env t' \<and>
        ct_attached t' = ct_attached t @ [(query, nodes)] \<and> length nodes \<le> length events \<and>
        ct_pending t' = [] \<and> ct_out t' = ct_out t @ msgs \<and> add_message t' xs vars msgs \<and> distinct xs \<and>
        set xs = set (cn_children (cnode t' 0)) - set (cn_children (cnode t 0)))"
proof -
  let ?v = "\<lparr>v_tree = t, v_qnode = 0, v_newNodeDepth = 0, v_newNodes = [], v_qtNodes = []\<rparr>"
  have inv: "ct_inv_with [] t" and room: "length (attached_nodes t) + (length events + n) < 2 ^ 32"
    using assms(1) by (simp_all add: ct_inv_def)
  then have "ct_nodes t \<noteq> []" by (simp add: ct_inv_with_def cshape_def)
  then have v0: "visiting env t ?v" using inv assms(3) by (simp add: visiting_def)
  have "length (attached_nodes t @ v_qtNodes ?v) + length events < 2 ^ 32" using room by simp
  from visit_result [OF assms(2) v0 this] obtain v e
    where v: "visit env events ?v = Some (v, e)" "visiting env t v" "length (v_qtNodes v) \<le> length events"
    by auto
  show ?thesis
  proof (cases e)
    case (Some err)
    from abort_result [OF assms(1) v(2)] show ?thesis
      using v(1) Some assms(4) by (auto simp: Attach_def)
  next
    case None
    have "length (attached_nodes t @ v_qtNodes v) + n < 2 ^ 32" using room v(3) by simp
    from commit_result [OF assms(1) v(2) assms(4) this] obtain t' msgs
      where t': "commit query v = Some t'" "ct_inv n t'" "objs_ok env t'"
        "ct_attached t' = ct_attached t @ [(query, v_qtNodes v)]" "ct_pending t' = []"
        "ct_out t' = ct_out t @ msgs" "add_message t' (v_newNodes v) (ct_pending (v_tree v)) msgs"
        "set (v_newNodes v) = set (cn_children (cnode t' 0)) - set (cn_children (cnode t 0))"
      by blast
    have idle: "gcSweep t' = Some t'"
      using t'(2) gcSweep_idle [of t'] cshape_root(2) [of t'] unfolding ct_inv_def ct_inv_with_def by blast
    have "Attach env query events t = Option.bind (commit query v)
        (\<lambda>t1. Option.bind (gcSweep t1) (\<lambda>t2. map_option (\<lambda>t3. (t3, None)) (gcSweep t2)))"
      using v(1) None assms(4) by (simp add: Attach_def commit_def bind_map_option comp_def split: option.split)
    then have "Attach env query events t = Some (t', None)" using t'(1) idle by simp
    moreover have "distinct (v_newNodes v)" using v(2) by (simp add: visiting_def Let_def)
    ultimately show ?thesis using t' v(3) by blast
  qed
qed

subsection \<open>Properties\<close>

lemma new_client_inv:
  assumes "NewQueryTree defs schema = Some t" and "n < 2 ^ 32"
    and "\<And>s r. schema = Some s \<Longrightarrow> ap_RootQuery (Definitions s) = Some r \<Longrightarrow> r < length (ce_defs env)"
  shows "ct_inv n t \<and> objs_ok env t"
  using assms
  by (auto simp: NewQueryTree_def ct_inv_def ct_inv_with_def cshape_def counts_def closed_def clean_def
      top_xmit_def tops_sent_def attached_nodes_def objs_ok_def newQtNode_def split: option.splits)


text \<open>
  C11: \<open>Detach\<close> never panics and preserves the same invariant, whether the query is attached or not.
\<close>

theorem detach_preserves_invariant:
  assumes "ct_inv n t"
  shows "\<exists>t'. Detach query t = Some t' \<and> ct_inv n t' \<and> map_of (ct_attached t') query = None"
proof (cases "map_of (ct_attached t) query")
  case None
  then show ?thesis using assms by (simp add: Detach_def)
next
  case (Some xs)
  from Detach_result [OF assms Some] show ?thesis
    by (auto simp: delete_conv')
qed




text \<open>
  C28: \<open>Detach\<close> announces exactly the children that the root has lost, and the root keeps exactly the
  children that some other query still holds. It sends no message when the root has lost none.
\<close>

theorem detach_announces_lost_roots:
  assumes "ct_inv n t" and "Detach query t = Some t'" and "map_of (ct_attached t) query \<noteq> None"
  shows "\<exists>cbs. ct_out t' = ct_out t @ delete_message t cbs \<and>
     set cbs = set (cn_children (cnode t 0)) - set (cn_children (cnode t' 0)) \<and>
     set (cn_children (cnode t' 0)) = {c \<in> set (cn_children (cnode t 0)). c \<in> set (attached_nodes t')}"
proof -
  obtain xs where "map_of (ct_attached t) query = Some xs" using assms(3) by blast
  from Detach_result [OF assms(1) this] show ?thesis using assms(2) by (auto simp: drops_def)
qed

text \<open>
  C29: Detaching the only query that is attached leaves a root without children.
\<close>

theorem detaching_the_last_query_empties_the_tree:
  assumes "ct_inv n t" and "ct_attached t = [(query, xs)]" and "Detach query t = Some t'"
  shows "ct_attached t' = [] \<and> cn_children (cnode t' 0) = []"
proof -
  have "map_of (ct_attached t) query = Some xs" using assms(2) by simp
  from Detach_result [OF assms(1) this] show ?thesis
    using assms(2,3) by (auto simp: drops_def attached_nodes_def)
qed

subsection \<open>Witnesses\<close>

text \<open>
  A root object with a scalar and an object field, and four queries: \<open>{ self { name } }\<close>,
  \<open>{ self { self } }\<close>, \<open>{ name }\<close> and \<open>{ name, nope }\<close>.
\<close>

definition client_defs :: definitions where
  "client_defs = [ObjectDefinition (Some ''Query'')
     [FieldDefinition (Some ''name'') [] (Named (Some ''String'')),
      FieldDefinition (Some ''self'') [] (NonNull (Named (Some ''Query'')))]]"

definition sample_env :: client_env where
  "sample_env = \<lparr>ce_defs = client_defs,
     ce_lookup = (\<lambda>t. if UnwrapASTType t = Named (Some ''Query'') then Some 0 else None),
     ce_order = (\<lambda>_. []), ce_parse_float = (\<lambda>_. None)\<rparr>"

abbreviation field :: "string \<Rightarrow> ast_field" where
  "field s \<equiv> \<lparr>f_name = Some s, f_arguments = []\<rparr>"

definition nested :: "string \<Rightarrow> visit_event list" where
  "nested s = [EnterField (field ''self''), EnterField (field s), LeaveField (field s), LeaveField (field ''self'')]"

definition flat :: "string list \<Rightarrow> visit_event list" where
  "flat ss = concat (map (\<lambda>s. [EnterField (field s), LeaveField (field s)]) ss)"

definition client0 :: QueryTree where
  "client0 = the (NewQueryTree client_defs
     (Some \<lparr>Document = [], Definitions = new_parts\<lparr>ap_RootQuery := Some 0\<rparr>\<rparr>))"

definition client1 :: QueryTree where
  "client1 = fst (the (Attach sample_env 1 (nested ''name'') client0))"

definition client2 :: QueryTree where
  "client2 = fst (the (Attach sample_env 2 (nested ''self'') client1))"

lemma sample_env_ok: "env_ok sample_env"
  by (simp add: env_ok_def sample_env_def client_defs_def UnwrapASTType.simps)

lemma client0_inv: "ct_inv 100 client0" "objs_ok sample_env client0"
proof -
  have "NewQueryTree client_defs (Some \<lparr>Document = [], Definitions = new_parts\<lparr>ap_RootQuery := Some 0\<rparr>\<rparr>) =
      Some client0" by code_simp
  then have "ct_inv 100 client0 \<and> objs_ok sample_env client0"
    by (rule new_client_inv) (auto simp: sample_env_def client_defs_def)
  then show "ct_inv 100 client0" "objs_ok sample_env client0" by auto
qed

lemma client_runs:
  "Attach sample_env 1 (nested ''name'') client0 = Some (client1, None)"
  "Attach sample_env 2 (nested ''self'') client1 = Some (client2, None)"
  "map_of (ct_attached client0) 1 = None" "map_of (ct_attached client1) 2 = None"
  "length (nested ''name'') = 4" "length (nested ''self'') = 4"
  by code_simp+

lemma client1_inv: "ct_inv 96 client1 \<and> objs_ok sample_env client1"
proof -
  have "ct_inv (length (nested ''name'') + 96) client0" using client0_inv by (simp add: client_runs)
  from Attach_result [OF this sample_env_ok client0_inv(2) client_runs(3)] show ?thesis
    using client_runs(1) by auto
qed

lemma client1_facts:
  "ct_attached client1 = [(1, [1, 2])]" "length (ct_nodes client1) = 3" "length (ct_nodes client2) = 4"
  "cn_children (cnode client2 0) = cn_children (cnode client1 0)" "length (flat [''name'', ''nope'']) = 4"
  by code_simp+


lemma detach_preserves_invariant_witness:
  "\<exists>t'. Detach 1 client1 = Some t' \<and> ct_inv 96 t' \<and> map_of (ct_attached t') 1 = None"
  using detach_preserves_invariant [of 96 client1 1] client1_inv by blast




lemma detach_announces_lost_roots_witness:
  "\<exists>t' cbs. Detach 1 client1 = Some t' \<and> ct_out t' = ct_out client1 @ delete_message client1 cbs \<and>
     set cbs = set (cn_children (cnode client1 0)) - set (cn_children (cnode t' 0))"
proof -
  have "Detach 1 client1 = Some (the (Detach 1 client1))" by code_simp
  then show ?thesis
    using detach_announces_lost_roots [of 96 client1 1 "the (Detach 1 client1)"] client1_inv
    by (auto simp: client1_facts)
qed

lemma detaching_the_last_query_empties_the_tree_witness:
  "\<exists>t'. Detach 1 client1 = Some t' \<and> ct_attached t' = [] \<and> cn_children (cnode t' 0) = []"
proof -
  have "Detach 1 client1 = Some (the (Detach 1 client1))" by code_simp
  then show ?thesis
    using detaching_the_last_query_empties_the_tree [of 96 client1 1 "[1, 2]" "the (Detach 1 client1)"] client1_inv
    by (auto simp: client1_facts)
qed

end
