(* ===== verification/Resolver.thy ===== *)
theory Resolver
  imports QTree
begin

text \<open>
  \<open>resolver/*.go\<close>: the contexts in which resolvers run, the values that they write, observables,
  and the loop that resolves the fields of an object. Contexts are objects in a list, addressed
  by their index. A \<open>context.Context\<close> made by \<open>WithCancel\<close> is a flag and the context that it
  derives from: it is done once it or one that it derives from is cancelled. The value writer
  is a log of the values offered to it, each with the context at which it is written.

  An operation returns \<open>None\<close> where the code panics on a nil pointer. The fuel of the walks
  along the parents bounds the length of the chain.
\<close>

subsection \<open>Values (value.go)\<close>

record Value =
  val_Value :: "RGQLPrimitive option"
  val_Error :: "string option"

definition GetPrimValueFuncName :: "i32 \<Rightarrow> string" where
  "GetPrimValueFuncName primKind =
     (if primKind = PRIMITIVE_KIND_INT then ''BuildIntValue''
      else if primKind = PRIMITIVE_KIND_BOOL then ''BuildBoolValue''
      else if primKind = PRIMITIVE_KIND_STRING then ''BuildStringValue''
      else if primKind = PRIMITIVE_KIND_FLOAT then ''BuildFloatValue''
      else if primKind = PRIMITIVE_KIND_NULL then ''BuildNullValue''
      else '''')"

definition BuildErrorValue :: "string \<Rightarrow> Value" where
  "BuildErrorValue err = \<lparr>val_Value = None, val_Error = Some err\<rparr>"

definition BuildStringValue :: "string \<Rightarrow> Value" where
  "BuildStringValue val = \<lparr>val_Value = Some (zero_primitive\<lparr>Kind := PRIMITIVE_KIND_STRING, StringValue := val\<rparr>),
     val_Error = None\<rparr>"

definition BuildIntValue :: "i32 \<Rightarrow> Value" where
  "BuildIntValue val = \<lparr>val_Value = Some (zero_primitive\<lparr>Kind := PRIMITIVE_KIND_INT, IntValue := val\<rparr>),
     val_Error = None\<rparr>"

definition BuildFloatValue :: "u64 \<Rightarrow> Value" where
  "BuildFloatValue val = \<lparr>val_Value = Some (zero_primitive\<lparr>Kind := PRIMITIVE_KIND_FLOAT, FloatValue := val\<rparr>),
     val_Error = None\<rparr>"

definition BuildBoolValue :: "bool \<Rightarrow> Value" where
  "BuildBoolValue val = \<lparr>val_Value = Some (zero_primitive\<lparr>Kind := PRIMITIVE_KIND_BOOL, BoolValue := val\<rparr>),
     val_Error = None\<rparr>"

definition BuildNullValue :: Value where
  "BuildNullValue = \<lparr>val_Value = Some (zero_primitive\<lparr>Kind := PRIMITIVE_KIND_NULL\<rparr>), val_Error = None\<rparr>"

subsection \<open>Contexts (context.go)\<close>

record rctx =
  rc_cancelled :: bool
  rc_derived :: "addr option"
  rc_QNode :: "addr option"
  rc_PathParent :: "addr option"
  rc_PathComponent :: "RGQLValue option"
  rc_IsFinal :: bool
  rc_ActiveChildren :: int

record rstate =
  rs_ctxs :: "rctx list"
  rs_written :: "(addr \<times> Value) list"

definition NewContext :: "addr option \<Rightarrow> rstate" where
  "NewContext qnode =
     \<lparr>rs_ctxs = [\<lparr>rc_cancelled = False, rc_derived = None, rc_QNode = qnode, rc_PathParent = None,
        rc_PathComponent = None, rc_IsFinal = False, rc_ActiveChildren = 0\<rparr>], rs_written = []\<rparr>"

primrec markChildFinal :: "nat \<Rightarrow> addr \<Rightarrow> rctx list \<Rightarrow> rctx list option" where
  "markChildFinal 0 c s = None"
| "markChildFinal (Suc fuel) c s =
     (let s1 = (if 0 < rc_ActiveChildren (s ! c)
                then upd_at c (\<lambda>x. x\<lparr>rc_ActiveChildren := rc_ActiveChildren x - 1\<rparr>) s else s)
      in if rc_ActiveChildren (s1 ! c) = 0 then
           let s2 = upd_at c (\<lambda>x. x\<lparr>rc_IsFinal := True\<rparr>) s1
           in case rc_PathParent (s2 ! c) of None \<Rightarrow> Some s2 | Some p \<Rightarrow> markChildFinal fuel p s2
         else Some s1)"

definition MarkFinal :: "addr \<Rightarrow> rctx list \<Rightarrow> rctx list option" where
  "MarkFinal c s =
     (if rc_IsFinal (s ! c) then Some s
      else let s1 = upd_at c (\<lambda>x. x\<lparr>rc_IsFinal := True\<rparr>) s
           in case rc_PathParent (s1 ! c) of None \<Rightarrow> Some s1 | Some p \<Rightarrow> markChildFinal (length s1) p s1)"

primrec WriteValue :: "nat \<Rightarrow> addr \<Rightarrow> Value \<Rightarrow> bool \<Rightarrow> rstate \<Rightarrow> rstate option" where
  "WriteValue 0 c val isFinal s = None"
| "WriteValue (Suc fuel) c val isFinal s =
     (case rc_PathComponent (rs_ctxs s ! c) of
        None \<Rightarrow> (case rc_PathParent (rs_ctxs s ! c) of
                   None \<Rightarrow> None
                 | Some p \<Rightarrow> WriteValue fuel p val isFinal s)
      | Some _ \<Rightarrow>
          map_option (\<lambda>cs. s\<lparr>rs_ctxs := cs, rs_written := rs_written s @ [(c, val)]\<rparr>)
            (if isFinal then MarkFinal c (rs_ctxs s) else Some (rs_ctxs s)))"

definition SetError :: "nat \<Rightarrow> addr \<Rightarrow> string \<Rightarrow> rstate \<Rightarrow> rstate option" where
  "SetError fuel c err s = WriteValue fuel c (BuildErrorValue err) True s"

definition baseChild :: "addr \<Rightarrow> RGQLValue option \<Rightarrow> rctx list \<Rightarrow> rctx list \<times> addr" where
  "baseChild c pathComponent s =
     (s @ [\<lparr>rc_cancelled = False, rc_derived = Some c, rc_QNode = rc_QNode (s ! c),
        rc_PathParent = (if rc_PathComponent (s ! c) \<noteq> None then Some c else rc_PathParent (s ! c)),
        rc_PathComponent = pathComponent, rc_IsFinal = False, rc_ActiveChildren = 1\<rparr>], length s)"

definition FieldChild :: "QTree \<Rightarrow> addr \<Rightarrow> addr \<Rightarrow> rctx list \<Rightarrow> rctx list \<times> addr" where
  "FieldChild t c qnode s =
     (case baseChild c (Some (zero_value\<lparr>rv_query_node_id := tn_Id (node t qnode)\<rparr>)) s of
        (s', child) \<Rightarrow> (upd_at child (\<lambda>x. x\<lparr>rc_QNode := Some qnode\<rparr>) s', child))"

definition ArrayChild :: "addr \<Rightarrow> u32 \<Rightarrow> rctx list \<Rightarrow> rctx list \<times> addr" where
  "ArrayChild c index s = baseChild c (Some (zero_value\<lparr>rv_array_index := index + 1\<rparr>)) s"

definition VirtualChild :: "addr \<Rightarrow> rctx list \<Rightarrow> rctx list \<times> addr" where
  "VirtualChild c s = baseChild c None s"

definition GetQueryArgument :: "QTree \<Rightarrow> addr \<Rightarrow> string \<Rightarrow> rctx list \<Rightarrow> addr option" where
  "GetQueryArgument t c argName s =
     (case rc_QNode (s ! c) of None \<Rightarrow> None | Some q \<Rightarrow> map_of (tn_Arguments (node t q)) argName)"

definition Purge :: "addr \<Rightarrow> rctx list \<Rightarrow> rctx list" where
  "Purge c s = upd_at c (\<lambda>x. x\<lparr>rc_cancelled := True\<rparr>) s"

text \<open>\<open>ctx.Done()\<close>: the context or one that it derives from was cancelled.\<close>

primrec done_within :: "nat \<Rightarrow> rctx list \<Rightarrow> addr \<Rightarrow> bool" where
  "done_within 0 s c = False"
| "done_within (Suc fuel) s c =
     (rc_cancelled (s ! c) \<or> (case rc_derived (s ! c) of None \<Rightarrow> False | Some p \<Rightarrow> done_within fuel s p))"

definition ctx_done :: "rctx list \<Rightarrow> addr \<Rightarrow> bool" where
  "ctx_done s c = done_within (length s) s c"

subsection \<open>Resolving values (resolve-error.go, resolve-value.go, resolve-slice.go, resolve-value-slice.go)\<close>

datatype go_error = Canceled | GoError string

definition ResolveError :: "nat \<Rightarrow> addr \<Rightarrow> go_error option \<Rightarrow> rstate \<Rightarrow> rstate option" where
  "ResolveError fuel c err s =
     (case err of
        Some (GoError e) \<Rightarrow> SetError fuel c e s
      | _ \<Rightarrow> map_option (\<lambda>cs. s\<lparr>rs_ctxs := cs\<rparr>) (MarkFinal c (rs_ctxs s)))"

definition ErrValueOverflow :: string where
  "ErrValueOverflow = ''value overflow''"

definition ResolveValOverflowError :: "nat \<Rightarrow> addr \<Rightarrow> rstate \<Rightarrow> rstate option" where
  "ResolveValOverflowError fuel c s = SetError fuel c ErrValueOverflow s"

definition ResolveValue :: "nat \<Rightarrow> addr \<Rightarrow> bool \<Rightarrow> Value \<Rightarrow> rstate \<Rightarrow> rstate option" where
  "ResolveValue fuel c isFinal v s = WriteValue fuel c v isFinal s"

text \<open>The loop from \<open>i\<close>, with \<open>rounds\<close> elements to go.\<close>

primrec slice_loop ::
  "(addr \<Rightarrow> nat \<Rightarrow> rstate \<Rightarrow> rstate option) \<Rightarrow> addr \<Rightarrow> nat \<Rightarrow> nat \<Rightarrow> rstate \<Rightarrow> rstate option" where
  "slice_loop f c 0 i s = Some s"
| "slice_loop f c (Suc rounds) i s =
     (case ArrayChild c (word_of_nat i) (rs_ctxs s) of
        (cs, ictx) \<Rightarrow> Option.bind (f ictx i (s\<lparr>rs_ctxs := cs\<rparr>)) (slice_loop f c rounds (Suc i)))"

definition ResolveSlice ::
  "addr \<Rightarrow> nat \<Rightarrow> (addr \<Rightarrow> nat \<Rightarrow> rstate \<Rightarrow> rstate option) \<Rightarrow> rstate \<Rightarrow> rstate option" where
  "ResolveSlice c sliceLen resolveFunc s = slice_loop resolveFunc c sliceLen 0 s"

definition ResolveValueSlice :: "addr \<Rightarrow> nat \<Rightarrow> (nat \<Rightarrow> Value) \<Rightarrow> rstate \<Rightarrow> rstate option" where
  "ResolveValueSlice c sliceLen indexResolver s =
     slice_loop (\<lambda>ictx i s'. WriteValue 1 ictx (indexResolver i) (i + 1 = sliceLen) s') c sliceLen 0 s"

subsection \<open>Observables (observable.go)\<close>

text \<open>
  A subscription is known by a name, and \<open>isCanceled\<close> asks the environment. The values are of
  any type; the empty value is \<open>None\<close>. \<open>emitted\<close> logs the calls of \<open>emitValue\<close>.
\<close>

record ('v, 's) Observable =
  o_val :: "'v option"
  o_subs :: "'s list"
  o_emitted :: "('s \<times> 'v option) list"

definition NewObservable :: "'v option \<Rightarrow> ('v, 's) Observable" where
  "NewObservable val = \<lparr>o_val = val, o_subs = [], o_emitted = []\<rparr>"

text \<open>Each round of the loop advances \<open>i\<close> or shortens the slice.\<close>

fun set_loop :: "('s \<Rightarrow> bool) \<Rightarrow> 'v option \<Rightarrow> nat \<Rightarrow> nat \<Rightarrow> ('v, 's) Observable \<Rightarrow> ('v, 's) Observable" where
  "set_loop isCanceled val i 0 ob = ob"
| "set_loop isCanceled val i (Suc rounds) ob =
     (let sub = o_subs ob ! i
      in if isCanceled sub
         then set_loop isCanceled val i rounds (ob\<lparr>o_subs := swap_remove i (o_subs ob)\<rparr>)
         else set_loop isCanceled val (Suc i) rounds (ob\<lparr>o_emitted := o_emitted ob @ [(sub, val)]\<rparr>))"

definition Observable_Set :: "('s \<Rightarrow> bool) \<Rightarrow> 'v option \<Rightarrow> ('v, 's) Observable \<Rightarrow> ('v, 's) Observable" where
  "Observable_Set isCanceled val ob = set_loop isCanceled val 0 (length (o_subs ob)) (ob\<lparr>o_val := val\<rparr>)"

definition Observable_Get :: "('v, 's) Observable \<Rightarrow> 'v option" where
  "Observable_Get ob = o_val ob"

definition Observable_Subscribe :: "'s \<Rightarrow> ('v, 's) Observable \<Rightarrow> ('v, 's) Observable" where
  "Observable_Subscribe s ob =
     ob\<lparr>o_emitted := o_emitted ob @ (if o_val ob \<noteq> None then [(s, o_val ob)] else []),
        o_subs := o_subs ob @ [s]\<rparr>"

subsection \<open>Resolving an object (resolve-object.go)\<close>

text \<open>
  The state of one call of \<open>ResolveObject\<close>: the contexts, the cancel functions by node id (each
  is the \<open>Purge\<close> of a context), the resolvers started with \<open>go\<close>, each with its context, and
  whether the call has returned.
\<close>

record 'r object_run =
  or_ctxs :: "rctx list"
  or_cancels :: "(u32 \<times> addr) list"
  or_started :: "(addr \<times> 'r) list"
  or_returned :: bool

definition processChild ::
  "QTree \<Rightarrow> (string \<Rightarrow> 'r option) \<Rightarrow> addr \<Rightarrow> addr \<Rightarrow> 'r object_run \<Rightarrow> 'r object_run" where
  "processChild t lookupFieldResolver c nod st =
     (case lookupFieldResolver (tn_FieldName (node t nod)) of
        None \<Rightarrow> st
      | Some fr \<Rightarrow>
          (case FieldChild t c nod (or_ctxs st) of
             (cs, child) \<Rightarrow>
               st\<lparr>or_ctxs := cs, or_cancels := AList.update (tn_Id (node t nod)) child (or_cancels st),
                  or_started := or_started st @ [(child, fr)]\<rparr>))"

definition object_change ::
  "QTree \<Rightarrow> (string \<Rightarrow> 'r option) \<Rightarrow> addr \<Rightarrow> QTNodeUpdate \<Rightarrow> 'r object_run \<Rightarrow> 'r object_run option" where
  "object_change t lookupFieldResolver c qs st =
     (case upd_Operation qs of
        Operation_AddChild \<Rightarrow>
          map_option (\<lambda>nod. processChild t lookupFieldResolver c nod st) (upd_Child qs)
      | Operation_DelChild \<Rightarrow>
          map_option (\<lambda>nod.
            (case map_of (or_cancels st) (tn_Id (node t nod)) of
               None \<Rightarrow> st
             | Some a \<Rightarrow> st\<lparr>or_ctxs := Purge a (or_ctxs st),
                   or_cancels := AList.delete (tn_Id (node t nod)) (or_cancels st)\<rparr>)) (upd_Child qs)
      | Operation_Delete \<Rightarrow> Some (st\<lparr>or_ctxs := Purge c (or_ctxs st), or_returned := True\<rparr>)
      | Operation_Error \<Rightarrow> Some st)"

text \<open>
  The loop as a step relation on the run and the updates that wait in the channel: \<open>select\<close>
  takes an update or notices that the context is done, in any order when both are possible.
\<close>

inductive object_step ::
  "QTree \<Rightarrow> (string \<Rightarrow> 'r option) \<Rightarrow> addr \<Rightarrow> 'r object_run \<times> QTNodeUpdate list \<Rightarrow>
     'r object_run \<times> QTNodeUpdate list \<Rightarrow> bool" for t lookup c where
  change: "\<not> or_returned st \<Longrightarrow> object_change t lookup c u st = Some st' \<Longrightarrow>
     object_step t lookup c (st, u # us) (st', us)"
| finished: "\<not> or_returned st \<Longrightarrow> ctx_done (or_ctxs st) c \<Longrightarrow>
     object_step t lookup c (st, us) (st\<lparr>or_returned := True\<rparr>, us)"

inductive_cases object_stepE: "object_step t lookup c s s'"

text \<open>The start of the call; \<open>None\<close> is the panic of a context without a query node.\<close>

definition object_start ::
  "QTree \<Rightarrow> (string \<Rightarrow> 'r option) \<Rightarrow> addr \<Rightarrow> rctx list \<Rightarrow> 'r object_run option" where
  "object_start t lookup c cs =
     map_option (\<lambda>q. fold (processChild t lookup c) (tn_Children (node t q))
         \<lparr>or_ctxs = cs, or_cancels = [], or_started = [], or_returned = False\<rparr>)
       (rc_QNode (cs ! c))"

subsection \<open>The invariant of the contexts\<close>

text \<open>
  Parents lead to earlier contexts, a path parent has a path component, and every context but
  the root counts one active child until it is final: \<open>baseChild\<close> increments the counter of the
  child, not that of the parent.
\<close>

definition ctxs_ok :: "rctx list \<Rightarrow> bool" where
  "ctxs_ok s \<longleftrightarrow> (\<forall>c < length s.
     (\<forall>p. rc_PathParent (s ! c) = Some p \<longrightarrow> p < c \<and> rc_PathComponent (s ! p) \<noteq> None) \<and>
     (\<forall>p. rc_derived (s ! c) = Some p \<longrightarrow> p < c) \<and>
     rc_ActiveChildren (s ! c) \<in> {0, 1})"

lemma ctxs_okD:
  assumes "ctxs_ok s" and "c < length s"
  shows "rc_PathParent (s ! c) = Some p \<Longrightarrow> p < c \<and> rc_PathComponent (s ! p) \<noteq> None"
    and "rc_derived (s ! c) = Some p \<Longrightarrow> p < c" and "rc_ActiveChildren (s ! c) \<in> {0, 1}"
  using assms by (auto simp: ctxs_ok_def)

lemma upd_ctx_ok:
  assumes "ctxs_ok s"
    and "\<And>x. rc_PathParent (f x) = rc_PathParent x" "\<And>x. rc_PathComponent (f x) = rc_PathComponent x"
    and "\<And>x. rc_derived (f x) = rc_derived x"
    and "c < length s \<Longrightarrow> rc_ActiveChildren (f (s ! c)) \<in> {0, 1}"
  shows "ctxs_ok (upd_at c f s)"
proof -
  have "rc_PathParent (upd_at c f s ! x) = rc_PathParent (s ! x)"
    "rc_PathComponent (upd_at c f s ! x) = rc_PathComponent (s ! x)"
    "rc_derived (upd_at c f s ! x) = rc_derived (s ! x)" for x
    by (rule nth_upd_at_field, simp add: assms(2-4))+
  then show ?thesis
    using assms(1,5) by (auto simp: ctxs_ok_def nth_upd_at assms(2-4))
qed

text \<open>Marking contexts final only changes the two fields that record it.\<close>

definition same_path :: "rctx list \<Rightarrow> rctx list \<Rightarrow> bool" where
  "same_path s s' \<longleftrightarrow> length s' = length s \<and> (\<forall>x < length s.
     rc_cancelled (s' ! x) = rc_cancelled (s ! x) \<and> rc_derived (s' ! x) = rc_derived (s ! x) \<and>
     rc_QNode (s' ! x) = rc_QNode (s ! x) \<and> rc_PathParent (s' ! x) = rc_PathParent (s ! x) \<and>
     rc_PathComponent (s' ! x) = rc_PathComponent (s ! x) \<and>
     (rc_IsFinal (s ! x) \<longrightarrow> rc_IsFinal (s' ! x)))"

lemma same_path_refl [simp]: "same_path s s"
  by (simp add: same_path_def)

lemma same_path_trans: "same_path a b \<Longrightarrow> same_path b c \<Longrightarrow> same_path a c"
  by (simp add: same_path_def)

lemma same_path_final: "same_path s (upd_at c (\<lambda>x. x\<lparr>rc_IsFinal := True\<rparr>) s)"
  by (simp add: same_path_def nth_upd_at)

lemma same_path_active: "same_path s (upd_at c (\<lambda>x. x\<lparr>rc_ActiveChildren := f x\<rparr>) s)"
  by (simp add: same_path_def nth_upd_at)

definition path_up :: "rctx list \<Rightarrow> addr \<Rightarrow> addr option" where
  "path_up s c = (if c < length s then rc_PathParent (s ! c) else None)"

lemma path_up_same: "same_path s s' \<Longrightarrow> path_up s' = path_up s"
  by (auto simp: path_up_def same_path_def fun_eq_iff)

lemma path_up_decreasing: "ctxs_ok s \<Longrightarrow> decreasing (path_up s)"
  using ctxs_okD(1) by (fastforce simp: decreasing_def path_up_def)

lemma markChildFinal_result:
  assumes "ctxs_ok s" and "c < length s" and "c < fuel"
  shows "\<exists>s'. markChildFinal fuel c s = Some s' \<and> ctxs_ok s' \<and> same_path s s' \<and>
     (\<forall>b. tree_anc (path_up s) b c \<longrightarrow> rc_IsFinal (s' ! b))"
  using assms
proof (induction fuel arbitrary: c s)
  case (Suc fuel)
  define s1 where "s1 = (if 0 < rc_ActiveChildren (s ! c)
      then upd_at c (\<lambda>x. x\<lparr>rc_ActiveChildren := rc_ActiveChildren x - 1\<rparr>) s else s)"
  define s2 where "s2 = upd_at c (\<lambda>x. x\<lparr>rc_IsFinal := True\<rparr>) s1"
  have act: "rc_ActiveChildren (s ! c) \<in> {0, 1}" using ctxs_okD(3) Suc.prems(1,2) .
  have s1: "ctxs_ok s1" "same_path s s1" "rc_ActiveChildren (s1 ! c) = 0" "length s1 = length s"
    using upd_ctx_ok [OF Suc.prems(1)] act same_path_active [of s c] Suc.prems(1,2)
    by (auto simp: s1_def)
  have s2: "ctxs_ok s2" "same_path s s2" "length s2 = length s" "rc_IsFinal (s2 ! c)"
    "path_up s2 = path_up s"
    using upd_ctx_ok [OF s1(1)] ctxs_okD(3) [OF s1(1)] same_path_trans [OF s1(2) same_path_final] s1(4) Suc.prems(2)
      path_up_same [OF same_path_trans [OF s1(2) same_path_final]]
    by (simp_all add: s2_def)
  have eq: "markChildFinal (Suc fuel) c s =
      (case rc_PathParent (s2 ! c) of None \<Rightarrow> Some s2 | Some p \<Rightarrow> markChildFinal fuel p s2)"
    using s1(3) by (simp add: Let_def s1_def [symmetric] s2_def [symmetric])
  have par: "path_up s c = rc_PathParent (s2 ! c)"
    using s2(5) Suc.prems(2) s2(3) by (metis path_up_def)
  show ?case
  proof (cases "rc_PathParent (s2 ! c)")
    case None
    then have "b = c" if "tree_anc (path_up s) b c" for b using tree_anc_last [OF that] par by auto
    then show ?thesis using None eq s2 by auto
  next
    case (Some p)
    then have p: "p < c" using ctxs_okD(1) [OF s2(1)] s2(3) Suc.prems(2) by simp
    then obtain s' where s': "markChildFinal fuel p s2 = Some s'" "ctxs_ok s'" "same_path s2 s'"
        "\<forall>b. tree_anc (path_up s2) b p \<longrightarrow> rc_IsFinal (s' ! b)"
      using Suc.IH [OF s2(1), of p] Suc.prems(2,3) s2(3) by auto
    have "rc_IsFinal (s' ! b)" if b: "tree_anc (path_up s) b c" for b
    proof (cases "b = c")
      case True
      then show ?thesis using s'(3) s2(3,4) Suc.prems(2) by (simp add: same_path_def)
    next
      case False
      then show ?thesis using tree_anc_last [OF b] par Some s'(4) s2(5) by auto
    qed
    then show ?thesis using Some eq s'(1,2) same_path_trans [OF s2(2) s'(3)] by auto
  qed
qed simp

lemma MarkFinal_result:
  assumes "ctxs_ok s" and "c < length s"
  shows "\<exists>s'. MarkFinal c s = Some s' \<and> ctxs_ok s' \<and> same_path s s' \<and> rc_IsFinal (s' ! c) \<and>
     (\<not> rc_IsFinal (s ! c) \<longrightarrow> (\<forall>b. tree_anc (path_up s) b c \<longrightarrow> rc_IsFinal (s' ! b)))"
proof (cases "rc_IsFinal (s ! c)")
  case True
  then show ?thesis using assms by (simp add: MarkFinal_def)
next
  case False
  define s1 where "s1 = upd_at c (\<lambda>x. x\<lparr>rc_IsFinal := True\<rparr>) s"
  have s1: "ctxs_ok s1" "same_path s s1" "length s1 = length s" "rc_IsFinal (s1 ! c)"
    using upd_ctx_ok [OF assms(1)] ctxs_okD(3) [OF assms] same_path_final assms(2) by (simp_all add: s1_def)
  have up: "path_up s1 = path_up s" using path_up_same [OF s1(2)] .
  have par: "path_up s c = rc_PathParent (s1 ! c)" using up assms(2) s1(3) by (metis path_up_def)
  have eq: "MarkFinal c s = (case rc_PathParent (s1 ! c) of None \<Rightarrow> Some s1
      | Some p \<Rightarrow> markChildFinal (length s1) p s1)"
    using False by (simp add: MarkFinal_def Let_def s1_def [symmetric])
  show ?thesis
  proof (cases "rc_PathParent (s1 ! c)")
    case None
    then have "b = c" if "tree_anc (path_up s) b c" for b using tree_anc_last [OF that] par by auto
    then show ?thesis using None eq s1 by auto
  next
    case (Some p)
    then have p: "p < c" using ctxs_okD(1) [OF s1(1)] s1(3) assms(2) by simp
    then obtain s' where s': "markChildFinal (length s1) p s1 = Some s'" "ctxs_ok s'" "same_path s1 s'"
        "\<forall>b. tree_anc (path_up s1) b p \<longrightarrow> rc_IsFinal (s' ! b)"
      using markChildFinal_result [OF s1(1), of p "length s1"] s1(3) assms(2) by auto
    have c: "rc_IsFinal (s' ! c)" using s'(3) s1(3,4) assms(2) by (simp add: same_path_def)
    have "rc_IsFinal (s' ! b)" if b: "tree_anc (path_up s) b c" for b
      using tree_anc_last [OF b] par Some s'(4) up c by (cases "b = c") auto
    then show ?thesis using Some eq s'(1,2) same_path_trans [OF s1(2) s'(3)] c by auto
  qed
qed

subsection \<open>Writing values\<close>

text \<open>The context at which a value written at \<open>c\<close> goes out.\<close>

definition write_target :: "rctx list \<Rightarrow> addr \<Rightarrow> addr option" where
  "write_target s c = (if rc_PathComponent (s ! c) \<noteq> None then Some c else rc_PathParent (s ! c))"

lemma WriteValue_result:
  assumes "ctxs_ok (rs_ctxs s)" and "c < length (rs_ctxs s)"
  shows "case write_target (rs_ctxs s) c of
     None \<Rightarrow> WriteValue (Suc (Suc fuel)) c val isFinal s = None
   | Some b \<Rightarrow> \<exists>s'. WriteValue (Suc (Suc fuel)) c val isFinal s = Some s' \<and>
       rs_written s' = rs_written s @ [(b, val)] \<and> ctxs_ok (rs_ctxs s') \<and>
       same_path (rs_ctxs s) (rs_ctxs s') \<and>
       (if isFinal then MarkFinal b (rs_ctxs s) = Some (rs_ctxs s') else rs_ctxs s' = rs_ctxs s)"
proof -
  have wr: "\<exists>s'. WriteValue (Suc n) b val isFinal s = Some s' \<and>
       rs_written s' = rs_written s @ [(b, val)] \<and> ctxs_ok (rs_ctxs s') \<and>
       same_path (rs_ctxs s) (rs_ctxs s') \<and>
       (if isFinal then MarkFinal b (rs_ctxs s) = Some (rs_ctxs s') else rs_ctxs s' = rs_ctxs s)"
    if b: "b < length (rs_ctxs s)" "rc_PathComponent (rs_ctxs s ! b) \<noteq> None" for b n
  proof (cases isFinal)
    case True
    from MarkFinal_result [OF assms(1) b(1)] obtain cs
      where "MarkFinal b (rs_ctxs s) = Some cs" "ctxs_ok cs" "same_path (rs_ctxs s) cs" by blast
    then show ?thesis using True b(2) by auto
  qed (use b(2) assms(1) in auto)
  show ?thesis
  proof (cases "rc_PathComponent (rs_ctxs s ! c)")
    case None
    show ?thesis
    proof (cases "rc_PathParent (rs_ctxs s ! c)")
      case (Some p)
      have "p < length (rs_ctxs s)" "rc_PathComponent (rs_ctxs s ! p) \<noteq> None"
        using ctxs_okD(1) [OF assms Some] assms(2) by simp_all
      note this = wr [OF this, of fuel]
      moreover have "WriteValue (Suc (Suc fuel)) c val isFinal s = WriteValue (Suc fuel) p val isFinal s"
        by (subst WriteValue.simps(2)) (simp add: None Some del: WriteValue.simps)
      ultimately show ?thesis using None Some by (simp add: write_target_def del: WriteValue.simps)
    qed (simp add: None write_target_def)
  next
    case (Some pc)
    then show ?thesis using wr [OF assms(2), of "Suc fuel"] by (simp add: write_target_def)
  qed
qed

lemma baseChild_ok:
  assumes "ctxs_ok s" and "c < length s" and "baseChild c pc s = (s', child)"
  shows "ctxs_ok s'" and "child = length s" and "length s' = Suc (length s)"
    and "\<And>x. x < length s \<Longrightarrow> s' ! x = s ! x"
    and "rc_PathComponent (s' ! child) = pc" and "rc_PathParent (s' ! child) = write_target s c"
    and "rc_derived (s' ! child) = Some c" and "\<not> rc_IsFinal (s' ! child)" and "\<not> rc_cancelled (s' ! child)"
proof -
  have eqs: "child = length s" "length s' = Suc (length s)"
    and old: "\<And>x. x < length s \<Longrightarrow> s' ! x = s ! x"
    and new: "s' ! length s = \<lparr>rc_cancelled = False, rc_derived = Some c, rc_QNode = rc_QNode (s ! c),
        rc_PathParent = write_target s c, rc_PathComponent = pc, rc_IsFinal = False, rc_ActiveChildren = 1\<rparr>"
    using assms(3) by (auto simp: baseChild_def write_target_def nth_append)
  have tgt: "p < length s \<and> rc_PathComponent (s ! p) \<noteq> None" if "write_target s c = Some p" for p
    using that ctxs_okD(1) [OF assms(1,2), of p] assms(2) by (auto simp: write_target_def split: if_splits)
  show "ctxs_ok s'"
    unfolding ctxs_ok_def
  proof (intro allI impI)
    fix x assume x: "x < length s'"
    show "(\<forall>p. rc_PathParent (s' ! x) = Some p \<longrightarrow> p < x \<and> rc_PathComponent (s' ! p) \<noteq> None) \<and>
        (\<forall>p. rc_derived (s' ! x) = Some p \<longrightarrow> p < x) \<and> rc_ActiveChildren (s' ! x) \<in> {0, 1}"
    proof (cases "x = length s")
      case True
      then show ?thesis using new tgt old assms(2) by auto
    next
      case False
      then have xl: "x < length s" using x eqs(2) by simp
      have "p < x \<and> rc_PathComponent (s' ! p) \<noteq> None" if "rc_PathParent (s ! x) = Some p" for p
        using ctxs_okD(1) [OF assms(1) xl that] old [of p] xl by simp
      then show ?thesis using old [OF xl] ctxs_okD(2,3) [OF assms(1) xl] by simp
    qed
  qed
qed (use assms(3) in \<open>auto simp: baseChild_def write_target_def nth_append\<close>)

lemma FieldChild_ok:
  assumes "ctxs_ok s" and "c < length s" and "FieldChild t c q s = (s', child)"
  shows "ctxs_ok s'" and "child = length s" and "length s' = Suc (length s)"
    and "\<And>x. x < length s \<Longrightarrow> s' ! x = s ! x"
    and "rc_PathComponent (s' ! child) = Some (zero_value\<lparr>rv_query_node_id := tn_Id (node t q)\<rparr>)"
    and "rc_PathParent (s' ! child) = write_target s c"
    and "rc_derived (s' ! child) = Some c" and "\<not> rc_IsFinal (s' ! child)" and "\<not> rc_cancelled (s' ! child)"
    and "rc_QNode (s' ! child) = Some q"
proof -
  obtain s1 where b: "baseChild c (Some (zero_value\<lparr>rv_query_node_id := tn_Id (node t q)\<rparr>)) s = (s1, child)"
    and s': "s' = upd_at child (\<lambda>x. x\<lparr>rc_QNode := Some q\<rparr>) s1"
    using assms(3) by (auto simp: FieldChild_def split: prod.splits)
  note ok = baseChild_ok [OF assms(1,2) b]
  show "ctxs_ok s'" using upd_ctx_ok [OF ok(1)] ctxs_okD(3) [OF ok(1)] by (simp add: s')
  show "child = length s" "length s' = Suc (length s)" using ok(2,3) by (simp_all add: s')
  show "s' ! x = s ! x" if "x < length s" for x using ok(2,4) that by (simp add: s')
qed (use baseChild_ok [OF assms(1,2)] assms(3) in \<open>auto simp: FieldChild_def split: prod.splits\<close>)

subsection \<open>What a program can reach through the operations\<close>

inductive contexts_run :: "QTree \<Rightarrow> rstate \<Rightarrow> bool" for t where
  new: "contexts_run t (NewContext q)"
| writes: "contexts_run t s \<Longrightarrow> c < length (rs_ctxs s) \<Longrightarrow>
    WriteValue (Suc (Suc fuel)) c val isFinal s = Some s' \<Longrightarrow> contexts_run t s'"
| mark: "contexts_run t s \<Longrightarrow> c < length (rs_ctxs s) \<Longrightarrow> MarkFinal c (rs_ctxs s) = Some cs \<Longrightarrow>
    contexts_run t (s\<lparr>rs_ctxs := cs\<rparr>)"
| field: "contexts_run t s \<Longrightarrow> c < length (rs_ctxs s) \<Longrightarrow> FieldChild t c q (rs_ctxs s) = (cs, child) \<Longrightarrow>
    contexts_run t (s\<lparr>rs_ctxs := cs\<rparr>)"
| array: "contexts_run t s \<Longrightarrow> c < length (rs_ctxs s) \<Longrightarrow> ArrayChild c i (rs_ctxs s) = (cs, child) \<Longrightarrow>
    contexts_run t (s\<lparr>rs_ctxs := cs\<rparr>)"
| virtual: "contexts_run t s \<Longrightarrow> c < length (rs_ctxs s) \<Longrightarrow> VirtualChild c (rs_ctxs s) = (cs, child) \<Longrightarrow>
    contexts_run t (s\<lparr>rs_ctxs := cs\<rparr>)"
| purge: "contexts_run t s \<Longrightarrow> contexts_run t (s\<lparr>rs_ctxs := Purge c (rs_ctxs s)\<rparr>)"

lemma contexts_run_ok: "contexts_run t s \<Longrightarrow> ctxs_ok (rs_ctxs s) \<and> rs_ctxs s \<noteq> []"
proof (induction rule: contexts_run.induct)
  case (writes s c fuel val isFinal s')
  then show ?case
    using WriteValue_result [of s c fuel val isFinal]
    by (auto simp: same_path_def split: option.splits simp del: WriteValue.simps)
next
  case (mark s c cs)
  then show ?case using MarkFinal_result [of "rs_ctxs s" c] by (auto simp: same_path_def)
next
  case (field s c q cs child)
  then show ?case using FieldChild_ok [of "rs_ctxs s" c t q cs child] by auto
next
  case (array s c i cs child)
  then show ?case using baseChild_ok [of "rs_ctxs s" c _ cs child] by (force simp: ArrayChild_def)
next
  case (virtual s c cs child)
  then show ?case using baseChild_ok [of "rs_ctxs s" c _ cs child] by (force simp: VirtualChild_def)
next
  case (purge s c)
  then show ?case using upd_ctx_ok [of "rs_ctxs s"] ctxs_okD(3) [of "rs_ctxs s" c]
    by (auto simp: Purge_def upd_at_def)
qed (simp add: NewContext_def ctxs_ok_def)

subsection \<open>Slices\<close>

lemma value_slice_loop:
  assumes "ctxs_ok (rs_ctxs s)" and "c < length (rs_ctxs s)"
  shows "\<exists>s'. slice_loop (\<lambda>ictx i s'. WriteValue 1 ictx (f i) (i + 1 = n) s') c k i s = Some s' \<and>
     rs_written s' = rs_written s @ map (\<lambda>j. (length (rs_ctxs s) + j, f (i + j))) [0..<k] \<and>
     length (rs_ctxs s') = length (rs_ctxs s) + k \<and> ctxs_ok (rs_ctxs s') \<and>
     (\<forall>x < length (rs_ctxs s). rc_PathComponent (rs_ctxs s' ! x) = rc_PathComponent (rs_ctxs s ! x) \<and>
        rc_PathParent (rs_ctxs s' ! x) = rc_PathParent (rs_ctxs s ! x)) \<and>
     (\<forall>j < k. rc_PathComponent (rs_ctxs s' ! (length (rs_ctxs s) + j)) =
          Some (zero_value\<lparr>rv_array_index := word_of_nat (i + j) + 1\<rparr>) \<and>
        rc_PathParent (rs_ctxs s' ! (length (rs_ctxs s) + j)) = write_target (rs_ctxs s) c)"
  using assms
proof (induction k arbitrary: i s)
  case (Suc k)
  let ?L = "length (rs_ctxs s)"
  let ?pc = "Some (zero_value\<lparr>rv_array_index := word_of_nat i + 1\<rparr>) :: RGQLValue option"
  obtain cs ictx where ac: "ArrayChild c (word_of_nat i) (rs_ctxs s) = (cs, ictx)" by fastforce
  then have "baseChild c ?pc (rs_ctxs s) = (cs, ictx)" by (simp add: ArrayChild_def)
  note bc = baseChild_ok [OF Suc.prems this]
  let ?s = "s\<lparr>rs_ctxs := cs\<rparr>"
  have "\<exists>s1. WriteValue 1 ictx (f i) (i + 1 = n) ?s = Some s1 \<and>
      rs_written s1 = rs_written s @ [(ictx, f i)] \<and> ctxs_ok (rs_ctxs s1) \<and> same_path cs (rs_ctxs s1)"
  proof (cases "i + 1 = n")
    case True
    from MarkFinal_result [OF bc(1), of ictx] bc(2,3) obtain cs'
      where "MarkFinal ictx cs = Some cs'" "ctxs_ok cs'" "same_path cs cs'" by auto
    then show ?thesis using True bc(5) by simp
  qed (use bc(1,5) in simp)
  then obtain s1 where s1: "WriteValue 1 ictx (f i) (i + 1 = n) ?s = Some s1"
      "rs_written s1 = rs_written s @ [(ictx, f i)]" "ctxs_ok (rs_ctxs s1)" "same_path cs (rs_ctxs s1)"
    by blast
  have len1: "length (rs_ctxs s1) = Suc ?L" using s1(4) bc(3) by (simp add: same_path_def)
  have c1: "c < length (rs_ctxs s1)" using len1 Suc.prems(2) by simp
  have keep: "rc_PathComponent (rs_ctxs s1 ! x) = rc_PathComponent (cs ! x) \<and>
      rc_PathParent (rs_ctxs s1 ! x) = rc_PathParent (cs ! x)" if "x < Suc ?L" for x
    using s1(4) bc(3) that by (simp add: same_path_def)
  have tgt: "write_target (rs_ctxs s1) c = write_target (rs_ctxs s) c"
    using keep [of c] bc(4) [OF Suc.prems(2)] Suc.prems(2) by (simp add: write_target_def)
  from Suc.IH [OF s1(3) c1, of "Suc i"] obtain s' where s':
    "slice_loop (\<lambda>ictx i s'. WriteValue 1 ictx (f i) (i + 1 = n) s') c k (Suc i) s1 = Some s'"
    "rs_written s' = rs_written s1 @ map (\<lambda>j. (Suc ?L + j, f (Suc i + j))) [0..<k]"
    "length (rs_ctxs s') = Suc ?L + k" "ctxs_ok (rs_ctxs s')"
    "\<forall>x < Suc ?L. rc_PathComponent (rs_ctxs s' ! x) = rc_PathComponent (rs_ctxs s1 ! x) \<and>
        rc_PathParent (rs_ctxs s' ! x) = rc_PathParent (rs_ctxs s1 ! x)"
    "\<forall>j < k. rc_PathComponent (rs_ctxs s' ! (Suc ?L + j)) =
          Some (zero_value\<lparr>rv_array_index := word_of_nat (Suc i + j) + 1\<rparr>) \<and>
        rc_PathParent (rs_ctxs s' ! (Suc ?L + j)) = write_target (rs_ctxs s1) c"
    unfolding len1 by blast
  have "map (\<lambda>j. (?L + j, f (i + j))) [0..<Suc k] = (?L, f i) # map (\<lambda>j. (Suc ?L + j, f (Suc i + j))) [0..<k]"
    by (simp add: upt_conv_Cons map_Suc_upt [symmetric] del: upt_Suc)
  then have "rs_written s' = rs_written s @ map (\<lambda>j. (?L + j, f (i + j))) [0..<Suc k]"
    using s'(2) s1(2) bc(2) by simp
  moreover have "rc_PathComponent (rs_ctxs s' ! (?L + j)) = Some (zero_value\<lparr>rv_array_index := word_of_nat (i + j) + 1\<rparr>) \<and>
      rc_PathParent (rs_ctxs s' ! (?L + j)) = write_target (rs_ctxs s) c" if "j < Suc k" for j
  proof (cases j)
    case 0
    then show ?thesis using s'(5) keep [of ?L] bc(2,5,6) by simp
  next
    case (Suc j')
    then show ?thesis using s'(6) that tgt by simp
  qed
  moreover have "slice_loop (\<lambda>ictx i s'. WriteValue 1 ictx (f i) (i + 1 = n) s') c (Suc k) i s = Some s'"
    using ac s1(1) s'(1) by simp
  ultimately show ?case
    using s'(3-5) keep bc(4) by auto
qed simp

subsection \<open>Observables\<close>

lemma set_loop_result:
  assumes "i + rounds = length (o_subs ob)" and "distinct (o_subs ob)"
    and "\<forall>s \<in> set (take i (o_subs ob)). \<not> isCanceled s"
  shows "let ob' = set_loop isCanceled val i rounds ob
    in o_val ob' = o_val ob \<and> distinct (o_subs ob') \<and>
       set (o_subs ob') = {s \<in> set (o_subs ob). \<not> isCanceled s} \<and>
       (\<exists>es. o_emitted ob' = o_emitted ob @ map (\<lambda>s. (s, val)) es \<and> distinct es \<and>
          set es = {s \<in> set (drop i (o_subs ob)). \<not> isCanceled s})"
  using assms
proof (induction rounds arbitrary: i ob)
  case 0
  then show ?case by (auto simp: Let_def)
next
  case (Suc rounds)
  let ?xs = "o_subs ob"
  have i: "i < length ?xs" using Suc.prems(1) by simp
  have drop: "drop i ?xs = ?xs ! i # drop (Suc i) ?xs" using i by (rule Cons_nth_drop_Suc [symmetric])
  have split: "set ?xs = set (take i ?xs) \<union> set (drop i ?xs)" by (metis append_take_drop_id set_append)
  have dist: "distinct (drop i ?xs)" using Suc.prems(2) by simp
  show ?case
  proof (cases "isCanceled (?xs ! i)")
    case True
    let ?ob = "ob\<lparr>o_subs := swap_remove i ?xs\<rparr>"
    note sr = distinct_swap_remove [OF Suc.prems(2) i]
    have "\<forall>s \<in> set (take i (o_subs ?ob)). \<not> isCanceled s"
      using Suc.prems(3) take_swap_remove [OF i] by simp
    moreover have "{s \<in> set (swap_remove i ?xs). \<not> isCanceled s} = {s \<in> set ?xs. \<not> isCanceled s}"
      using sr(2) True by auto
    moreover have "{s \<in> set (drop i (swap_remove i ?xs)). \<not> isCanceled s} = {s \<in> set (drop i ?xs). \<not> isCanceled s}"
      using set_drop_swap_remove [OF Suc.prems(2) i] drop True by auto
    moreover have "i + rounds = length (o_subs ?ob)" using Suc.prems(1) i by simp
    ultimately show ?thesis
      using Suc.IH [of i ?ob] sr(1) True by (simp add: Let_def)
  next
    case False
    let ?ob = "ob\<lparr>o_emitted := o_emitted ob @ [(?xs ! i, val)]\<rparr>"
    have "\<forall>s \<in> set (take (Suc i) (o_subs ?ob)). \<not> isCanceled s"
      using Suc.prems(3) False i by (auto simp: take_Suc_conv_app_nth)
    from Suc.IH [of "Suc i" ?ob, OF _ _ this] Suc.prems(1,2) obtain es where es:
      "o_emitted (set_loop isCanceled val (Suc i) rounds ?ob) =
         o_emitted ob @ [(?xs ! i, val)] @ map (\<lambda>s. (s, val)) es"
      "distinct es" "set es = {s \<in> set (drop (Suc i) ?xs). \<not> isCanceled s}"
      and rest: "o_val (set_loop isCanceled val (Suc i) rounds ?ob) = o_val ob"
      "distinct (o_subs (set_loop isCanceled val (Suc i) rounds ?ob))"
      "set (o_subs (set_loop isCanceled val (Suc i) rounds ?ob)) = {s \<in> set ?xs. \<not> isCanceled s}"
      by (auto simp: Let_def)
    have "distinct (?xs ! i # es)" using es(2,3) dist drop by auto
    moreover have "set (?xs ! i # es) = {s \<in> set (drop i ?xs). \<not> isCanceled s}"
      using es(3) drop False by auto
    ultimately have "\<exists>es. o_emitted (set_loop isCanceled val (Suc i) rounds ?ob) =
        o_emitted ob @ map (\<lambda>s. (s, val)) es \<and> distinct es \<and>
        set es = {s \<in> set (drop i ?xs). \<not> isCanceled s}"
      using es(1) by (intro exI [of _ "?xs ! i # es"]) simp
    then show ?thesis using rest False by (simp add: Let_def)
  qed
qed

subsection \<open>The run of an object\<close>

lemma done_enough:
  assumes "ctxs_ok s"
  shows "c < length s \<Longrightarrow> c < n \<Longrightarrow> c < m \<Longrightarrow> done_within n s c = done_within m s c"
proof (induction n arbitrary: c m)
  case (Suc n)
  obtain m' where m: "m = Suc m'" using Suc.prems(3) by (cases m) auto
  have "done_within n s p = done_within m' s p" if "rc_derived (s ! c) = Some p" for p
    using Suc ctxs_okD(2) [OF assms _ that] m by (intro Suc.IH) auto
  then show ?case by (simp add: m split: option.split)
qed simp

lemma ctx_done_step:
  assumes "ctxs_ok s" and "c < length s"
  shows "ctx_done s c = (rc_cancelled (s ! c) \<or>
    (case rc_derived (s ! c) of None \<Rightarrow> False | Some p \<Rightarrow> ctx_done s p))"
proof -
  have "ctx_done s c = done_within (Suc (length s)) s c"
    unfolding ctx_done_def by (rule done_enough) (use assms in auto)
  then show ?thesis by (simp add: ctx_done_def split: option.split)
qed

lemma ctx_done_cancelled: "ctxs_ok s \<Longrightarrow> c < length s \<Longrightarrow> rc_cancelled (s ! c) \<Longrightarrow> ctx_done s c"
  by (simp add: ctx_done_step)

lemma ctx_done_derived:
  "ctxs_ok s \<Longrightarrow> c < length s \<Longrightarrow> rc_derived (s ! c) = Some p \<Longrightarrow> ctx_done s p \<Longrightarrow> ctx_done s c"
  using ctx_done_step [of s c] by simp

text \<open>Cancelling more contexts, or adding some, leaves a done context done.\<close>

lemma done_mono:
  assumes "\<forall>x < length s. (rc_cancelled (s ! x) \<longrightarrow> rc_cancelled (s' ! x)) \<and> rc_derived (s' ! x) = rc_derived (s ! x)"
    and "ctxs_ok s"
  shows "c < length s \<Longrightarrow> done_within n s c \<Longrightarrow> done_within n s' c"
proof (induction n arbitrary: c)
  case (Suc n)
  show ?case
  proof (cases "rc_cancelled (s ! c)")
    case False
    then obtain p where p: "rc_derived (s ! c) = Some p" "done_within n s p"
      using Suc.prems(2) by (auto split: option.splits)
    then have "p < length s" using ctxs_okD(2) [OF assms(2) Suc.prems(1) p(1)] Suc.prems(1) by simp
    then show ?thesis using Suc.IH p assms(1) Suc.prems(1) by simp
  qed (use assms(1) Suc.prems(1) in simp)
qed simp

text \<open>
  Every resolver that was started runs in a context derived from the object's; it is the one
  that the cancel function of its node id cancels, or is cancelled already. When the call has
  returned the object's context is done.
\<close>

definition object_inv :: "QTree \<Rightarrow> (string \<Rightarrow> 'r option) \<Rightarrow> addr \<Rightarrow> 'r object_run \<Rightarrow> bool" where
  "object_inv t lookup c st \<longleftrightarrow>
     ctxs_ok (or_ctxs st) \<and> c < length (or_ctxs st) \<and>
     (\<forall>(a, fr) \<in> set (or_started st). a < length (or_ctxs st) \<and> a \<noteq> c \<and> rc_derived (or_ctxs st ! a) = Some c \<and>
        (\<exists>q. rc_QNode (or_ctxs st ! a) = Some q \<and> lookup (tn_FieldName (node t q)) = Some fr \<and>
           (map_of (or_cancels st) (tn_Id (node t q)) = Some a \<or> rc_cancelled (or_ctxs st ! a)))) \<and>
     (\<forall>(i, a) \<in> set (or_cancels st). a < length (or_ctxs st)) \<and>
     distinct (map fst (or_cancels st)) \<and>
     (or_returned st \<longrightarrow> ctx_done (or_ctxs st) c)"

lemma processChild_inv:
  assumes "object_inv t lookup c st" and "map_of (or_cancels st) (tn_Id (node t nod)) = None" and "\<not> or_returned st"
  shows "object_inv t lookup c (processChild t lookup c nod st)"
    and "fst ` set (or_cancels (processChild t lookup c nod st)) \<subseteq>
       insert (tn_Id (node t nod)) (fst ` set (or_cancels st))"
    and "\<not> or_returned (processChild t lookup c nod st)"
proof -
  show "fst ` set (or_cancels (processChild t lookup c nod st)) \<subseteq>
       insert (tn_Id (node t nod)) (fst ` set (or_cancels st))"
    by (auto simp: processChild_def fst_alist_update split: option.splits prod.splits)
  show "\<not> or_returned (processChild t lookup c nod st)"
    using assms(3) by (simp add: processChild_def split: option.splits prod.splits)
  show "object_inv t lookup c (processChild t lookup c nod st)"
  proof (cases "lookup (tn_FieldName (node t nod))")
    case None
    then show ?thesis using assms(1) by (simp add: processChild_def)
  next
    case (Some fr)
    obtain cs child where fc: "FieldChild t c nod (or_ctxs st) = (cs, child)" by fastforce
    have ok: "ctxs_ok (or_ctxs st)" "c < length (or_ctxs st)" using assms(1) by (simp_all add: object_inv_def)
    note fok = FieldChild_ok [OF ok fc]
    let ?i = "tn_Id (node t nod)"
    have st': "processChild t lookup c nod st = st\<lparr>or_ctxs := cs,
        or_cancels := AList.update ?i child (or_cancels st), or_started := or_started st @ [(child, fr)]\<rparr>"
      using Some fc by (simp add: processChild_def)
    have old: "map_of (AList.update ?i child (or_cancels st)) j = Some a"
      if "map_of (or_cancels st) j = Some a" for j a
      using that assms(2) by (auto simp: update_conv')
    have "\<forall>x \<in> set (or_cancels st). snd x < length (or_ctxs st)" using assms(1) by (auto simp: object_inv_def)
    then have K: "\<forall>(i, a) \<in> set (AList.update ?i child (or_cancels st)). a < length cs"
      using set_alist_update [of ?i child "or_cancels st"] fok(2,3) by fastforce
    have D: "distinct (map fst (AList.update ?i child (or_cancels st)))"
      using assms(1) by (simp add: object_inv_def distinct_update)
    have S: "a < length cs \<and> a \<noteq> c \<and> rc_derived (cs ! a) = Some c \<and>
        (\<exists>q. rc_QNode (cs ! a) = Some q \<and> lookup (tn_FieldName (node t q)) = Some f \<and>
           (map_of (AList.update ?i child (or_cancels st)) (tn_Id (node t q)) = Some a \<or> rc_cancelled (cs ! a)))"
      if "(a, f) \<in> set (or_started st @ [(child, fr)])" for a f
    proof (cases "(a, f) \<in> set (or_started st)")
      case True
      then have a: "a < length (or_ctxs st)" "a \<noteq> c" "rc_derived (or_ctxs st ! a) = Some c"
          "\<exists>q. rc_QNode (or_ctxs st ! a) = Some q \<and> lookup (tn_FieldName (node t q)) = Some f \<and>
             (map_of (or_cancels st) (tn_Id (node t q)) = Some a \<or> rc_cancelled (or_ctxs st ! a))"
        using assms(1) by (auto simp: object_inv_def)
      then show ?thesis using fok(3) fok(4) [OF a(1)] old by auto
    next
      case False
      then show ?thesis
        using that fok Some ok(2) by (auto simp: update_conv')
    qed
    have S: "\<forall>(a, f) \<in> set (or_started st @ [(child, fr)]). a < length cs \<and> a \<noteq> c \<and>
        rc_derived (cs ! a) = Some c \<and> (\<exists>q. rc_QNode (cs ! a) = Some q \<and> lookup (tn_FieldName (node t q)) = Some f \<and>
           (map_of (AList.update ?i child (or_cancels st)) (tn_Id (node t q)) = Some a \<or> rc_cancelled (cs ! a)))"
      using S by blast
    have c: "c < length cs" using fok(3) ok(2) by simp
    show ?thesis
      unfolding object_inv_def st' using S D K c fok(1) assms(3)
      by simp
  qed
qed

lemma purge_ok: "ctxs_ok s \<Longrightarrow> ctxs_ok (Purge a s)"
  using upd_ctx_ok [of s] ctxs_okD(3) [of s a] by (auto simp: Purge_def)

lemma Purge_fields:
  "length (Purge a s) = length s" "rc_derived (Purge a s ! x) = rc_derived (s ! x)"
  "rc_QNode (Purge a s ! x) = rc_QNode (s ! x)"
  "x < length s \<Longrightarrow> rc_cancelled (Purge a s ! x) = (rc_cancelled (s ! x) \<or> x = a)"
  by (simp_all add: Purge_def nth_upd_at nth_upd_at_field [where g = rc_derived]
      nth_upd_at_field [where g = rc_QNode])

lemma purge_inv:
  assumes "object_inv t lookup c st" and "\<not> or_returned st" and "map_of (or_cancels st) i = Some a"
  shows "object_inv t lookup c (st\<lparr>or_ctxs := Purge a (or_ctxs st), or_cancels := AList.delete i (or_cancels st)\<rparr>)"
proof -
  have "map_of (AList.delete i (or_cancels st)) j = Some x \<or> x = a" if "map_of (or_cancels st) j = Some x" for j x
    using that assms(3) by (cases "j = i") (auto simp: delete_conv')
  then have "\<exists>q. rc_QNode (Purge a (or_ctxs st) ! x) = Some q \<and> lookup (tn_FieldName (node t q)) = Some fr \<and>
      (map_of (AList.delete i (or_cancels st)) (tn_Id (node t q)) = Some x \<or> rc_cancelled (Purge a (or_ctxs st) ! x))"
    if "(x, fr) \<in> set (or_started st)" for x fr
    using assms(1) that by (fastforce simp: object_inv_def Purge_fields)
  moreover have "distinct (map fst (AList.delete i (or_cancels st)))"
    using assms(1) by (simp add: object_inv_def distinct_delete)
  ultimately show ?thesis
    using assms(1,2) purge_ok [of "or_ctxs st" a]
    by (auto simp: object_inv_def Purge_fields set_alist_delete split: prod.splits)
qed

text \<open>The updates of a channel name no child twice without a removal in between.\<close>

fun fresh_updates :: "QTree \<Rightarrow> u32 set \<Rightarrow> QTNodeUpdate list \<Rightarrow> bool" where
  "fresh_updates t live [] = True"
| "fresh_updates t live (u # us) =
     (case (upd_Operation u, upd_Child u) of
        (Operation_AddChild, Some nod) \<Rightarrow>
          tn_Id (node t nod) \<notin> live \<and> fresh_updates t (insert (tn_Id (node t nod)) live) us
      | (Operation_DelChild, Some nod) \<Rightarrow> fresh_updates t (live - {tn_Id (node t nod)}) us
      | _ \<Rightarrow> fresh_updates t live us)"

definition tracked :: "'r object_run \<Rightarrow> u32 set" where
  "tracked st = fst ` set (or_cancels st)"

lemma change_inv:
  assumes "object_inv t lookup c st" and "\<not> or_returned st" and "object_change t lookup c u st = Some st'"
    and "tracked st \<subseteq> live" and "fresh_updates t live (u # us)"
  shows "object_inv t lookup c st' \<and> (\<exists>live'. tracked st' \<subseteq> live' \<and> fresh_updates t live' us)"
proof (cases "upd_Operation u")
  case Operation_AddChild
  then obtain nod where n: "upd_Child u = Some nod" "st' = processChild t lookup c nod st"
    using assms(3) by (auto simp: object_change_def)
  then have "map_of (or_cancels st) (tn_Id (node t nod)) = None"
    using assms(4,5) Operation_AddChild by (auto simp: tracked_def map_of_eq_None_iff)
  note pc = processChild_inv [OF assms(1) this assms(2)]
  have "tracked st' \<subseteq> insert (tn_Id (node t nod)) live" using pc(2) n(2) assms(4) by (auto simp: tracked_def)
  moreover have "fresh_updates t (insert (tn_Id (node t nod)) live) us"
    using assms(5) Operation_AddChild n(1) by simp
  ultimately show ?thesis using pc(1) n(2) by blast
next
  case Operation_DelChild
  then obtain nod where n: "upd_Child u = Some nod" using assms(3) by (auto simp: object_change_def)
  let ?i = "tn_Id (node t nod)"
  have fr: "fresh_updates t (live - {?i}) us" using assms(5) Operation_DelChild n by simp
  show ?thesis
  proof (cases "map_of (or_cancels st) ?i")
    case None
    then have "?i \<notin> tracked st" by (simp add: tracked_def map_of_eq_None_iff)
    then have "tracked st \<subseteq> live - {?i}" using assms(4) by blast
    moreover have "st' = st" using assms(3) None n Operation_DelChild by (simp add: object_change_def)
    ultimately show ?thesis using assms(1) fr by blast
  next
    case (Some a)
    then have "st' = st\<lparr>or_ctxs := Purge a (or_ctxs st), or_cancels := AList.delete ?i (or_cancels st)\<rparr>"
      using assms(3) n Operation_DelChild by (simp add: object_change_def)
    moreover from this have "tracked st' \<subseteq> live - {?i}"
      using assms(4) by (auto simp: tracked_def set_alist_delete)
    ultimately show ?thesis using purge_inv [OF assms(1,2) Some] fr by blast
  qed
next
  case Operation_Delete
  then have st': "st' = st\<lparr>or_ctxs := Purge c (or_ctxs st), or_returned := True\<rparr>"
    using assms(3) by (simp add: object_change_def)
  have ok: "ctxs_ok (or_ctxs st)" "c < length (or_ctxs st)" using assms(1) by (simp_all add: object_inv_def)
  have "ctx_done (Purge c (or_ctxs st)) c"
    using ctx_done_cancelled [OF purge_ok [OF ok(1)]] ok(2) by (simp add: Purge_fields)
  then have "object_inv t lookup c st'"
    using assms(1) purge_ok [OF ok(1)] by (fastforce simp: st' object_inv_def Purge_fields)
  then show ?thesis using assms(4,5) Operation_Delete st' by (auto simp: tracked_def)
next
  case Operation_Error
  then show ?thesis using assms by (auto simp: object_change_def)
qed

lemma disjoint_step: "A \<subseteq> insert x B \<Longrightarrow> x \<notin> I \<Longrightarrow> B \<inter> insert x I = {} \<Longrightarrow> A \<inter> I = {}"
  by blast

lemma children_inv:
  assumes "object_inv t lookup c st" and "\<not> or_returned st" and "distinct (map (\<lambda>a. tn_Id (node t a)) ns)"
    and "tracked st \<inter> (\<lambda>a. tn_Id (node t a)) ` set ns = {}"
  shows "object_inv t lookup c (fold (processChild t lookup c) ns st) \<and>
     \<not> or_returned (fold (processChild t lookup c) ns st) \<and>
     tracked (fold (processChild t lookup c) ns st) \<subseteq> tracked st \<union> (\<lambda>a. tn_Id (node t a)) ` set ns"
  using assms
proof (induction ns arbitrary: st)
  case (Cons n ns)
  let ?f = "\<lambda>a. tn_Id (node t a)" and ?st = "processChild t lookup c n st"
  have "set (n # ns) = insert n (set ns)" by simp
  note prems = Cons.prems(4) [unfolded this image_insert]
  have "?f n \<notin> tracked st" using prems by blast
  then have "map_of (or_cancels st) (?f n) = None" by (simp add: tracked_def map_of_eq_None_iff)
  note pc = processChild_inv [OF Cons.prems(1) this Cons.prems(2)]
  have sub: "tracked ?st \<subseteq> insert (?f n) (tracked st)" using pc(2) by (simp only: tracked_def)
  have ns: "distinct (map ?f ns)" "?f n \<notin> ?f ` set ns" using Cons.prems(3) by simp_all
  have "tracked ?st \<inter> ?f ` set ns = {}" by (rule disjoint_step [OF sub ns(2) prems])
  note IH = Cons.IH [OF pc(1,3) ns(1) this]
  have "tracked (fold (processChild t lookup c) ns ?st) \<subseteq> tracked st \<union> insert (?f n) (?f ` set ns)"
    using subset_trans [OF conjunct2 [OF conjunct2 [OF IH]] Un_mono [OF sub subset_refl]]
    by (simp only: Un_insert_left Un_insert_right)
  then show ?case
    using conjunct1 [OF IH] conjunct1 [OF conjunct2 [OF IH]]
    by (simp only: fold_Cons comp_apply list.set image_insert simp_thms)
qed simp

lemma object_steps_inv:
  assumes "(object_step t lookup c)\<^sup>*\<^sup>* (st, us) (st', us')" and "object_inv t lookup c st"
    and "tracked st \<subseteq> live" and "fresh_updates t live us"
  shows "object_inv t lookup c st' \<and> (\<exists>live'. tracked st' \<subseteq> live' \<and> fresh_updates t live' us')"
  using assms(1)
proof (induction "(st', us')" arbitrary: st' us' rule: rtranclp_induct)
  case base
  then show ?case using assms(2-4) by blast
next
  case (step y)
  obtain st1 us1 where y: "y = (st1, us1)" by fastforce
  from step(3) [OF y] obtain live1 where IH: "object_inv t lookup c st1" "tracked st1 \<subseteq> live1" "fresh_updates t live1 us1"
    by blast
  from step(2) [unfolded y] show ?case
  proof (cases rule: object_step.cases)
    case change
    then show ?thesis using change_inv [OF IH(1) _ _ IH(2)] IH(3) by blast
  next
    case finished
    then show ?thesis using IH by (auto simp: object_inv_def tracked_def)
  qed
qed

subsection \<open>Properties\<close>

text \<open>
  C30: A value written at a context goes out at the nearest context with a path component, which is
  the context itself or its path parent, and the write ends; it panics exactly when there is
  none, which is so for the context of a query's root and for virtual children of it.
\<close>

theorem values_go_out_at_the_nearest_component:
  assumes "contexts_run t s" and "c < length (rs_ctxs s)"
  shows "(WriteValue (Suc (Suc fuel)) c val isFinal s = None \<longleftrightarrow> write_target (rs_ctxs s) c = None) \<and>
     (case write_target (rs_ctxs s) c of None \<Rightarrow> True
      | Some b \<Rightarrow> rc_PathComponent (rs_ctxs s ! b) \<noteq> None \<and>
          map_option rs_written (WriteValue (Suc (Suc fuel)) c val isFinal s) = Some (rs_written s @ [(b, val)]))"
proof -
  have ok: "ctxs_ok (rs_ctxs s)" using contexts_run_ok [OF assms(1)] by simp
  have "rc_PathComponent (rs_ctxs s ! b) \<noteq> None" if "write_target (rs_ctxs s) c = Some b" for b
    using that ctxs_okD(1) [OF ok assms(2), of b] by (auto simp: write_target_def split: if_splits)
  then show ?thesis
    using WriteValue_result [OF ok assms(2), of fuel val isFinal]
    by (auto split: option.splits simp del: WriteValue.simps)
qed

text \<open>
  The counter of active children does not count children: as soon as one context is marked final,
  every context above it is final, whatever their other children still have to write.
\<close>

theorem one_final_child_finalizes_all_ancestors:
  assumes "contexts_run t s" and "c < length (rs_ctxs s)" and "\<not> rc_IsFinal (rs_ctxs s ! c)"
  shows "\<exists>cs. MarkFinal c (rs_ctxs s) = Some cs \<and> (\<forall>b. tree_anc (path_up (rs_ctxs s)) b c \<longrightarrow> rc_IsFinal (cs ! b))"
  using MarkFinal_result [OF conjunct1 [OF contexts_run_ok [OF assms(1)]] assms(2)] assms(3) by blast

text \<open>
  A slice of values is written element by element, each at a new context with its index, counted
  from 1, below the context of the slice. An empty slice writes nothing at all.
\<close>

theorem value_slice_writes_its_elements:
  assumes "contexts_run t s" and "c < length (rs_ctxs s)"
  shows "\<exists>s'. ResolveValueSlice c n f s = Some s' \<and>
     rs_written s' = rs_written s @ map (\<lambda>i. (length (rs_ctxs s) + i, f i)) [0..<n] \<and>
     (\<forall>i < n. rc_PathComponent (rs_ctxs s' ! (length (rs_ctxs s) + i)) =
          Some (zero_value\<lparr>rv_array_index := word_of_nat i + 1\<rparr>) \<and>
        rc_PathParent (rs_ctxs s' ! (length (rs_ctxs s) + i)) = write_target (rs_ctxs s) c)"
  using value_slice_loop [OF conjunct1 [OF contexts_run_ok [OF assms(1)]] assms(2), of f n n 0]
  unfolding ResolveValueSlice_def add_0 by blast

text \<open>
  C31: Setting an observable emits the value once to every subscription that is not cancelled and to no
  other, and drops exactly the cancelled ones.
\<close>

theorem observable_set_reaches_live_subscriptions:
  assumes "distinct (o_subs ob)"
  shows "\<exists>es. o_emitted (Observable_Set isCanceled val ob) = o_emitted ob @ map (\<lambda>s. (s, val)) es \<and> distinct es \<and>
     set es = {s \<in> set (o_subs ob). \<not> isCanceled s} \<and>
     set (o_subs (Observable_Set isCanceled val ob)) = set es \<and>
     Observable_Get (Observable_Set isCanceled val ob) = val"
  using set_loop_result [of 0 "length (o_subs ob)" "ob\<lparr>o_val := val\<rparr>" isCanceled val] assms
  by (auto simp: Observable_Set_def Observable_Get_def Let_def)


subsection \<open>Witnesses\<close>

text \<open>The contexts of the root, its field and a field of that in the sample tree of \<open>QTree\<close>.\<close>

definition run0 :: rstate where
  "run0 = NewContext (Some 0)"

definition run1 :: rstate where
  "run1 = run0\<lparr>rs_ctxs := fst (FieldChild sample_tree 0 1 (rs_ctxs run0))\<rparr>"

definition run2 :: rstate where
  "run2 = run1\<lparr>rs_ctxs := fst (FieldChild sample_tree 1 2 (rs_ctxs run1))\<rparr>"

lemma run_facts:
  "length (rs_ctxs run0) = 1" "length (rs_ctxs run1) = 2" "length (rs_ctxs run2) = 3"
  "\<not> rc_IsFinal (rs_ctxs run2 ! 2)" "write_target (rs_ctxs run2) 2 = Some 2" "write_target (rs_ctxs run2) 0 = None"
  "path_up (rs_ctxs run2) 2 = Some 1"
  by code_simp+

lemma run_reach: "contexts_run sample_tree run0" "contexts_run sample_tree run1" "contexts_run sample_tree run2"
proof -
  show r0: "contexts_run sample_tree run0" unfolding run0_def by (rule contexts_run.new)
  have step: "contexts_run sample_tree (s\<lparr>rs_ctxs := fst (FieldChild sample_tree c q (rs_ctxs s))\<rparr>)"
    if "contexts_run sample_tree s" "c < length (rs_ctxs s)" for s c q
    using contexts_run.field [OF that] by (metis prod.collapse)
  show r1: "contexts_run sample_tree run1" unfolding run1_def by (rule step [OF r0]) (simp add: run_facts)
  show "contexts_run sample_tree run2" unfolding run2_def by (rule step [OF r1]) (simp add: run_facts)
qed

lemma values_go_out_at_the_nearest_component_witness:
  "WriteValue (Suc (Suc 0)) 0 BuildNullValue True run2 = None \<and>
   map_option rs_written (WriteValue (Suc (Suc 0)) 2 BuildNullValue True run2) = Some (rs_written run2 @ [(2, BuildNullValue)])"
  using values_go_out_at_the_nearest_component [OF run_reach(3), of 0 0 BuildNullValue True]
    values_go_out_at_the_nearest_component [OF run_reach(3), of 2 0 BuildNullValue True]
  by (simp add: run_facts del: WriteValue.simps)

lemma one_final_child_finalizes_all_ancestors_witness:
  "\<exists>cs. MarkFinal 2 (rs_ctxs run2) = Some cs \<and> rc_IsFinal (cs ! 1)"
  using one_final_child_finalizes_all_ancestors [OF run_reach(3), of 2]
    tree_anc_child [where par = "path_up (rs_ctxs run2)" and c = 2 and a = 1, OF run_facts(7)] by (auto simp: run_facts)

lemma value_slice_writes_its_elements_witness:
  "\<exists>s'. ResolveValueSlice 2 3 (\<lambda>i. BuildIntValue (word_of_nat i)) run2 = Some s' \<and>
     rs_written s' = rs_written run2 @
       [(3, BuildIntValue 0), (4, BuildIntValue 1), (5, BuildIntValue 2)]"
  using value_slice_writes_its_elements [OF run_reach(3), of 2 3 "\<lambda>i. BuildIntValue (word_of_nat i)"]
  by (auto simp: run_facts upt_rec numeral_3_eq_3)

lemma observable_set_reaches_live_subscriptions_witness:
  "\<exists>es. o_emitted (Observable_Set (\<lambda>s. s = 1) (Some True) \<lparr>o_val = None, o_subs = [0, 1, 2 :: nat], o_emitted = []\<rparr>) =
     map (\<lambda>s. (s, Some True)) es \<and> distinct es \<and> set es = {0, 2}"
proof -
  have "{s \<in> {0, 1, 2}. \<not> s = 1} = {0, 2 :: nat}" by auto
  then show ?thesis
    using observable_set_reaches_live_subscriptions
      [of "\<lparr>o_val = None, o_subs = [0, 1, 2 :: nat], o_emitted = []\<rparr>" "\<lambda>s. s = 1" "Some True"]
    by auto
qed

definition object_run0 :: "unit object_run" where
  "object_run0 = the (object_start sample_tree (\<lambda>_. Some ()) 0 (rs_ctxs run0))"

definition object_run1 :: "unit object_run" where
  "object_run1 = the (object_change sample_tree (\<lambda>_. Some ()) 0
     \<lparr>upd_Operation = Operation_DelChild, upd_Child = Some 1\<rparr> object_run0)"


end
