(* ===== verification/Encoder.thy ===== *)
theory Encoder
  imports Resolver
begin

text \<open>
  \<open>encoder/encoder.go\<close>, \<open>encoder/path-cache.go\<close>: the server's half of the result stream. A value
  is sent as the segments of its path, from the nearest context that the client knows by a label
  down to the context of the value. A segment is modelled as the message that \<open>MarshalVT\<close>
  serialises. The cache of labels is an LRU cache of a library: its \<open>Add\<close> is the parameter
  \<open>lru\<close>, which returns the new cache and the entry that it evicted. When the encoder's context
  is done in the middle of a value the stream is a prefix of the one here.

  \<open>None\<close> is a panic: a nil path component, or the index \<open>-1\<close> that a value at a labelled
  context leads to.
\<close>

subsection \<open>State\<close>

type_synonym 'c lru_add = "u32 \<Rightarrow> addr \<Rightarrow> 'c \<Rightarrow> 'c \<times> (u32 \<times> addr) option"

record 'c enc_state =
  es_ctxs :: "rctx list"
  es_id :: u32
  es_cache :: 'c

text \<open>\<open>NewResultEncoder\<close> with \<open>NewPathCache\<close>, on an empty cache.\<close>

definition NewResultEncoder :: "rctx list \<Rightarrow> 'c \<Rightarrow> 'c enc_state" where
  "NewResultEncoder ctxs cache = \<lparr>es_ctxs = ctxs, es_id = 1, es_cache = cache\<rparr>"

abbreviation comp :: "'c enc_state \<Rightarrow> addr \<Rightarrow> RGQLValue option" where
  "comp s c \<equiv> rc_PathComponent (es_ctxs s ! c)"

definition set_comp :: "addr \<Rightarrow> RGQLValue \<Rightarrow> 'c enc_state \<Rightarrow> 'c enc_state" where
  "set_comp c pc s = s\<lparr>es_ctxs := upd_at c (\<lambda>x. x\<lparr>rc_PathComponent := Some pc\<rparr>) (es_ctxs s)\<rparr>"

subsection \<open>The cache (path-cache.go)\<close>

definition onEvicted :: "u32 \<Rightarrow> addr \<Rightarrow> 'c enc_state \<Rightarrow> 'c enc_state" where
  "onEvicted i c s =
     (case comp s c of
        None \<Rightarrow> s
      | Some pc \<Rightarrow> if i \<noteq> rv_pos_identifier pc then s else set_comp c (pc\<lparr>rv_pos_identifier := 0\<rparr>) s)"

text \<open>
  \<open>Put\<close>. The new identifier is assigned to a variable of an inner block, so the cache gets the
  key 0, and 0 is returned.
\<close>

definition PathCache_Put :: "'c lru_add \<Rightarrow> addr \<Rightarrow> 'c enc_state \<Rightarrow> ('c enc_state \<times> bool \<times> u32) option" where
  "PathCache_Put lru c s =
     (case comp s c of
        None \<Rightarrow> None
      | Some pc \<Rightarrow>
          let i = rv_pos_identifier pc;
              s1 = (if i = 0
                    then (set_comp c (pc\<lparr>rv_pos_identifier := es_id s\<rparr>) s)\<lparr>es_id := es_id s + 1\<rparr> else s);
              s2 = s1\<lparr>es_cache := fst (lru i c (es_cache s1))\<rparr>
          in Some (case snd (lru i c (es_cache s1)) of None \<Rightarrow> s2 | Some (k, x) \<Rightarrow> onEvicted k x s2, i = 0, i))"

subsection \<open>Labels (labelPathComponents)\<close>

fun label_loop :: "'c lru_add \<Rightarrow> addr list \<Rightarrow> 'c enc_state \<Rightarrow> 'c enc_state option" where
  "label_loop lru [] s = Some s"
| "label_loop lru (c # cs) s =
     (if rc_IsFinal (es_ctxs s ! c) then label_loop lru cs s
      else map_option fst (PathCache_Put lru c s))"

definition labelPathComponents :: "'c lru_add \<Rightarrow> addr list \<Rightarrow> 'c enc_state \<Rightarrow> 'c enc_state option" where
  "labelPathComponents lru components s = label_loop lru (butlast components) s"

subsection \<open>The path (Run)\<close>

definition isPathRoot :: "'c lru_add \<Rightarrow> addr \<Rightarrow> 'c enc_state \<Rightarrow> ('c enc_state \<times> bool) option" where
  "isPathRoot lru c s =
     (case comp s c of
        Some pc \<Rightarrow>
          if rv_pos_identifier pc \<noteq> 0 then map_option (\<lambda>(s', _). (s', True)) (PathCache_Put lru c s)
          else Some (s, rc_PathParent (es_ctxs s ! c) = None)
      | None \<Rightarrow> Some (s, rc_PathParent (es_ctxs s ! c) = None))"

text \<open>The fuel bounds the length of the path.\<close>

primrec path_components ::
  "nat \<Rightarrow> 'c lru_add \<Rightarrow> addr \<Rightarrow> 'c enc_state \<Rightarrow> ('c enc_state \<times> addr list) option" where
  "path_components 0 lru c s = None"
| "path_components (Suc fuel) lru c s =
     (case isPathRoot lru c s of
        None \<Rightarrow> None
      | Some (s', True) \<Rightarrow> Some (s', [c])
      | Some (s', False) \<Rightarrow>
          (case rc_PathParent (es_ctxs s' ! c) of
             None \<Rightarrow> None
           | Some p \<Rightarrow> map_option (\<lambda>(s'', cs). (s'', c # cs)) (path_components fuel lru p s')))"

subsection \<open>The segments (Run)\<close>

definition merge_pos :: "addr list \<Rightarrow> 'c enc_state \<Rightarrow> bool option" where
  "merge_pos components s =
     (case comp s (last components) of
        None \<Rightarrow> None
      | Some start \<Rightarrow>
          if rv_pos_identifier start = 0 then Some False
          else if length components = 1 then None
          else map_option (\<lambda>pc. rv_pos_identifier pc = 0) (comp s (components ! (length components - 2))))"

definition segment ::
  "addr list \<Rightarrow> bool \<Rightarrow> Value \<Rightarrow> nat \<Rightarrow> 'c enc_state \<Rightarrow> ('c enc_state \<times> RGQLValue) option" where
  "segment components merge val i s =
     (let cmp = components ! i; n = length components; merging = merge \<and> i = n - 2;
          plc = (case comp s (last components) of None \<Rightarrow> 0 | Some p \<Rightarrow> rv_pos_identifier p)
      in case comp s cmp of
           None \<Rightarrow> if merging \<or> i = n - 1 \<or> i = 0 then None else Some (s, zero_value)
         | Some pc \<Rightarrow>
             let fresh = (\<not> merging \<and> i = n - 1 \<and> rv_pos_identifier pc \<noteq> 0);
                 base = (if merging \<and> plc \<noteq> 0 then pc\<lparr>rv_pos_identifier := plc\<rparr>
                         else if fresh then zero_value\<lparr>rv_pos_identifier := rv_pos_identifier pc\<rparr> else pc);
                 msg = (if i = 0 then (case val_Error val of
                                         Some e \<Rightarrow> base\<lparr>rv_error := e\<rparr>
                                       | None \<Rightarrow> base\<lparr>rv_value := val_Value val\<rparr>) else base);
                 reset = (if i = 0 then msg\<lparr>rv_value := None, rv_error := ''''\<rparr> else msg);
                 restore = (if merging \<and> plc \<noteq> 0 then rv_pos_identifier pc + 1 else 0);
                 stored = (if restore \<noteq> 0 then reset\<lparr>rv_pos_identifier := restore - 1\<rparr> else reset)
             in Some (if fresh then s else set_comp cmp stored s, msg))"

text \<open>The segments from \<open>i\<close> down to 0.\<close>

primrec emit_loop ::
  "addr list \<Rightarrow> bool \<Rightarrow> Value \<Rightarrow> nat \<Rightarrow> 'c enc_state \<Rightarrow> ('c enc_state \<times> RGQLValue list) option" where
  "emit_loop components merge val 0 s =
     map_option (\<lambda>(s', m). (s', [m])) (segment components merge val 0 s)"
| "emit_loop components merge val (Suc i) s =
     (case segment components merge val (Suc i) s of
        None \<Rightarrow> None
      | Some (s', m) \<Rightarrow> map_option (\<lambda>(s'', ms). (s'', m # ms)) (emit_loop components merge val i s'))"

definition encode_value ::
  "'c lru_add \<Rightarrow> addr \<Rightarrow> Value \<Rightarrow> 'c enc_state \<Rightarrow> ('c enc_state \<times> RGQLValue list) option" where
  "encode_value lru c val s =
     (case path_components (length (es_ctxs s)) lru c s of
        None \<Rightarrow> None
      | Some (s1, components) \<Rightarrow>
          (case labelPathComponents lru components s1 of
             None \<Rightarrow> None
           | Some s2 \<Rightarrow>
               (case merge_pos components s2 of
                  None \<Rightarrow> None
                | Some merge \<Rightarrow>
                    emit_loop components merge val
                      (length components - (if merge then 2 else 1)) s2)))"

text \<open>The stream for a sequence of values, each with its context.\<close>

fun Run ::
  "'c lru_add \<Rightarrow> (addr option \<times> Value) list \<Rightarrow> 'c enc_state \<Rightarrow> ('c enc_state \<times> RGQLValue list) option" where
  "Run lru [] s = Some (s, [])"
| "Run lru ((None, val) # vals) s = Run lru vals s"
| "Run lru ((Some c, val) # vals) s =
     (case encode_value lru c val s of
        None \<Rightarrow> None
      | Some (s', ms) \<Rightarrow> map_option (\<lambda>(s'', ms'). (s'', ms @ ms')) (Run lru vals s'))"

subsection \<open>Paths and the meaning of a stream\<close>

text \<open>
  The path of a context from the root: the query node ids and array indices of the path
  components above it.
\<close>

type_synonym path = "(u32 \<times> u32) list"

definition step_of :: "RGQLValue \<Rightarrow> path" where
  "step_of m = (if rv_query_node_id m = 0 \<and> rv_array_index m = 0 then []
     else [(rv_query_node_id m, rv_array_index m)])"

primrec path_within :: "nat \<Rightarrow> rctx list \<Rightarrow> addr \<Rightarrow> path" where
  "path_within 0 s c = []"
| "path_within (Suc fuel) s c =
     (case rc_PathParent (s ! c) of None \<Rightarrow> [] | Some p \<Rightarrow> path_within fuel s p) @
     (case rc_PathComponent (s ! c) of None \<Rightarrow> [] | Some pc \<Rightarrow> step_of pc)"

definition path_of :: "rctx list \<Rightarrow> addr \<Rightarrow> path" where
  "path_of s c = path_within (Suc c) s c"

text \<open>
  The protocol, as a reference decoder. The first segment of a path may refer to a label; any
  other segment with an identifier defines it as a label of the path so far. A segment with a
  value or an error ends the path. The state is what the labels stand for and the path so far.
\<close>

type_synonym item = "path \<times> RGQLPrimitive option \<times> string"

definition dec_step :: "(u32 \<rightharpoonup> path) \<times> path option \<Rightarrow> RGQLValue \<Rightarrow>
    (((u32 \<rightharpoonup> path) \<times> path option) \<times> item list) option" where
  "dec_step st m =
     (case st of (labels, cur) \<Rightarrow>
        (case (case cur of Some p \<Rightarrow> Some p
               | None \<Rightarrow> if rv_pos_identifier m = 0 then Some [] else labels (rv_pos_identifier m)) of
           None \<Rightarrow> None
         | Some base \<Rightarrow>
             let p = base @ step_of m;
                 labels' = (if cur \<noteq> None \<and> rv_pos_identifier m \<noteq> 0 then labels(rv_pos_identifier m \<mapsto> p)
                            else labels)
             in if rv_value m \<noteq> None \<or> rv_error m \<noteq> ''''
                then Some ((labels', None), [(p, rv_value m, rv_error m)])
                else Some ((labels', Some p), [])))"

fun decode :: "(u32 \<rightharpoonup> path) \<times> path option \<Rightarrow> RGQLValue list \<Rightarrow>
    (((u32 \<rightharpoonup> path) \<times> path option) \<times> item list) option" where
  "decode st [] = Some (st, [])"
| "decode st (m # ms) =
     (case dec_step st m of
        None \<Rightarrow> None
      | Some (st', is) \<Rightarrow> map_option (\<lambda>(st'', is'). (st'', is @ is')) (decode st' ms))"

subsection \<open>What labelling changes\<close>

definition pos_of :: "'c enc_state \<Rightarrow> addr \<Rightarrow> u32" where
  "pos_of s c = (case comp s c of None \<Rightarrow> 0 | Some pc \<Rightarrow> rv_pos_identifier pc)"

lemma set_comp_simps [simp]:
  "es_cache (set_comp c pc s) = es_cache s" "es_id (set_comp c pc s) = es_id s"
  "length (es_ctxs (set_comp c pc s)) = length (es_ctxs s)"
  by (simp_all add: set_comp_def)

text \<open>Only identifiers may differ.\<close>

definition relabel :: "'c enc_state \<Rightarrow> 'c enc_state \<Rightarrow> bool" where
  "relabel s s' \<longleftrightarrow> length (es_ctxs s') = length (es_ctxs s) \<and> (\<forall>x < length (es_ctxs s).
     rc_PathParent (es_ctxs s' ! x) = rc_PathParent (es_ctxs s ! x) \<and>
     rc_derived (es_ctxs s' ! x) = rc_derived (es_ctxs s ! x) \<and>
     rc_ActiveChildren (es_ctxs s' ! x) = rc_ActiveChildren (es_ctxs s ! x) \<and>
     rc_IsFinal (es_ctxs s' ! x) = rc_IsFinal (es_ctxs s ! x) \<and>
     map_option (\<lambda>m. m\<lparr>rv_pos_identifier := 0\<rparr>) (comp s' x) = map_option (\<lambda>m. m\<lparr>rv_pos_identifier := 0\<rparr>) (comp s x))"

definition weaker :: "'c enc_state \<Rightarrow> 'c enc_state \<Rightarrow> bool" where
  "weaker s s' \<longleftrightarrow> relabel s s' \<and> (\<forall>x < length (es_ctxs s). pos_of s' x = pos_of s x \<or> pos_of s' x = 0)"

lemma relabel_refl [simp]: "relabel s s"
  by (simp add: relabel_def)

lemma relabel_trans: "relabel a b \<Longrightarrow> relabel b c \<Longrightarrow> relabel a c"
  by (simp add: relabel_def)

lemma weaker_refl [simp]: "weaker s s"
  by (simp add: weaker_def)

lemma relabel_comp:
  assumes "relabel s s'" and "x < length (es_ctxs s)"
  shows "comp s' x = map_option (\<lambda>m. m\<lparr>rv_pos_identifier := pos_of s' x\<rparr>) (comp s x)"
proof -
  have "map_option (\<lambda>m. m\<lparr>rv_pos_identifier := 0\<rparr>) (comp s' x) = map_option (\<lambda>m. m\<lparr>rv_pos_identifier := 0\<rparr>) (comp s x)"
    using assms by (simp add: relabel_def)
  then show ?thesis
    by (cases "comp s x"; cases "comp s' x") (auto simp: pos_of_def RGQLValue.splits)
qed

lemma relabel_set_comp:
  assumes "comp s c = Some pc"
  shows "relabel s (set_comp c (pc\<lparr>rv_pos_identifier := i\<rparr>) s)"
  using assms by (auto simp: relabel_def set_comp_def nth_upd_at)

lemma pos_set_comp:
  assumes "x < length (es_ctxs s)"
  shows "pos_of (set_comp c pc s) x = (if x = c then rv_pos_identifier pc else pos_of s x)"
  using assms by (simp add: pos_of_def set_comp_def nth_upd_at)

lemma onEvicted_weaker:
  shows "weaker s (onEvicted k x s)" and "y < length (es_ctxs s) \<Longrightarrow> pos_of s y \<noteq> k \<Longrightarrow> pos_of (onEvicted k x s) y = pos_of s y"
    and "es_id (onEvicted k x s) = es_id s" and "es_cache (onEvicted k x s) = es_cache s"
proof -
  show "weaker s (onEvicted k x s)"
    using relabel_set_comp [of s x _ 0] pos_set_comp [of _ s x]
    by (auto simp: onEvicted_def weaker_def split: option.split)
  show "pos_of (onEvicted k x s) y = pos_of s y" if "y < length (es_ctxs s)" "pos_of s y \<noteq> k"
  proof (cases "comp s x")
    case (Some pc)
    then have "pos_of s x = rv_pos_identifier pc" by (simp add: pos_of_def)
    then show ?thesis using Some that pos_set_comp [OF that(1), of x] by (auto simp: onEvicted_def)
  qed (simp add: onEvicted_def)
qed (simp_all add: onEvicted_def set_comp_def split: option.split)

text \<open>What the operations rely on of the cache: an \<open>Add\<close> evicts neither the key that it adds nor the
  key of the \<open>Add\<close> before it, which is so for an LRU cache of two or more entries.\<close>

definition keeps_recent :: "'c lru_add \<Rightarrow> bool" where
  "keeps_recent lru \<longleftrightarrow>
     (\<forall>k a c k' x. snd (lru k a c) = Some (k', x) \<longrightarrow> k' \<noteq> k) \<and>
     (\<forall>k1 a1 k2 a2 c k' x. snd (lru k2 a2 (fst (lru k1 a1 c))) = Some (k', x) \<longrightarrow> k' \<noteq> k1)"

lemma keeps_recentD:
  assumes "keeps_recent lru"
  shows "snd (lru k a c) = Some (k', x) \<Longrightarrow> k' \<noteq> k"
    and "snd (lru k2 a2 (fst (lru k1 a1 c))) = Some (k', x) \<Longrightarrow> k' \<noteq> k1"
  using assms unfolding keeps_recent_def by blast+

lemma cache_only [simp]:
  "pos_of (s\<lparr>es_cache := c\<rparr>) x = pos_of s x" "relabel (s\<lparr>es_cache := c\<rparr>) s' = relabel s s'"
  "pos_of (s\<lparr>es_id := i\<rparr>) x = pos_of s x" "relabel (s\<lparr>es_id := i\<rparr>) s' = relabel s s'"
  "relabel s (s'\<lparr>es_cache := c\<rparr>) = relabel s s'" "relabel s (s'\<lparr>es_id := i\<rparr>) = relabel s s'"
  "weaker (s\<lparr>es_cache := c\<rparr>) s' = weaker s s'" "weaker (s\<lparr>es_id := i\<rparr>) s' = weaker s s'"
  "weaker s (s'\<lparr>es_cache := c\<rparr>) = weaker s s'" "weaker s (s'\<lparr>es_id := i\<rparr>) = weaker s s'"
  by (simp_all add: pos_of_def relabel_def weaker_def)

lemma Put_renew:
  assumes "keeps_recent lru" and "c < length (es_ctxs s)" and "pos_of s c \<noteq> 0"
  shows "\<exists>s'. PathCache_Put lru c s = Some (s', False, pos_of s c) \<and> weaker s s' \<and> pos_of s' c = pos_of s c \<and>
     es_id s' = es_id s \<and> es_cache s' = fst (lru (pos_of s c) c (es_cache s))"
proof -
  obtain pc where pc: "comp s c = Some pc" "rv_pos_identifier pc = pos_of s c"
    using assms(3) by (auto simp: pos_of_def split: option.splits)
  let ?s = "s\<lparr>es_cache := fst (lru (pos_of s c) c (es_cache s))\<rparr>"
  have p: "PathCache_Put lru c s = Some (case snd (lru (pos_of s c) c (es_cache s)) of None \<Rightarrow> ?s
      | Some (k, x) \<Rightarrow> onEvicted k x ?s, False, pos_of s c)"
    using pc assms(3) by (simp add: PathCache_Put_def Let_def)
  show ?thesis
  proof (cases "snd (lru (pos_of s c) c (es_cache s))")
    case None
    then show ?thesis using p by simp
  next
    case (Some kx)
    obtain k x where kx: "kx = (k, x)" by fastforce
    then have "pos_of s c \<noteq> k" using keeps_recentD(1) [OF assms(1)] Some by metis
    then have "pos_of (onEvicted k x ?s) c = pos_of s c"
      using onEvicted_weaker(2) [of c ?s k x] assms(2) by simp
    then show ?thesis using p Some kx onEvicted_weaker(1) [of ?s k x] onEvicted_weaker(3,4) [of k x ?s] by simp
  qed
qed

lemma Put_new:
  assumes "c < length (es_ctxs s)" and "comp s c \<noteq> None" and "pos_of s c = 0"
  shows "\<exists>s'. PathCache_Put lru c s = Some (s', True, 0) \<and> relabel s s' \<and> es_id s' = es_id s + 1 \<and>
     (pos_of s' c = es_id s \<or> pos_of s' c = 0) \<and>
     (\<forall>x < length (es_ctxs s). x \<noteq> c \<longrightarrow> pos_of s' x = pos_of s x \<or> pos_of s' x = 0) \<and>
     es_cache s' = fst (lru 0 c (es_cache s)) \<and>
     (\<forall>x < length (es_ctxs s). x \<noteq> c \<longrightarrow> (\<forall>y. snd (lru 0 c (es_cache s)) \<noteq> Some (pos_of s x, y)) \<longrightarrow>
        pos_of s' x = pos_of s x)"
proof -
  obtain pc where pc: "comp s c = Some pc" "rv_pos_identifier pc = 0"
    using assms(2,3) by (auto simp: pos_of_def)
  let ?s1 = "(set_comp c (pc\<lparr>rv_pos_identifier := es_id s\<rparr>) s)\<lparr>es_id := es_id s + 1\<rparr>"
  let ?s2 = "?s1\<lparr>es_cache := fst (lru 0 c (es_cache s))\<rparr>"
  have p: "PathCache_Put lru c s = Some (case snd (lru 0 c (es_cache s)) of None \<Rightarrow> ?s2
      | Some (k, x) \<Rightarrow> onEvicted k x ?s2, True, 0)"
    using pc by (simp add: PathCache_Put_def Let_def cong: option.case_cong)
  have r: "relabel s ?s2" using relabel_set_comp [OF pc(1)] by simp
  have pos: "pos_of ?s2 x = (if x = c then es_id s else pos_of s x)" if "x < length (es_ctxs s)" for x
    using pos_set_comp [OF that] by simp
  have len: "length (es_ctxs ?s2) = length (es_ctxs s)" by (simp add: set_comp_def)
  show ?thesis
  proof (cases "snd (lru 0 c (es_cache s))")
    case None
    then show ?thesis using p r pos assms(1) by (simp add: set_comp_def)
  next
    case (Some kx)
    obtain k x where kx: "kx = (k, x)" by fastforce
    note ev = onEvicted_weaker(1) [of ?s2 k x] onEvicted_weaker(3,4) [of k x ?s2]
    define s3 where "s3 = onEvicted k x ?s2"
    have p3: "PathCache_Put lru c s = Some (s3, True, 0)" using p Some kx by (simp add: s3_def)
    have r3: "relabel s s3" using relabel_trans [OF r] ev(1) by (simp add: weaker_def s3_def)
    have A: "pos_of s3 y = (if y = c then es_id s else pos_of s y) \<or> pos_of s3 y = 0"
      if "y < length (es_ctxs s)" for y
      using ev(1) that len pos [OF that] unfolding weaker_def s3_def by metis
    have B: "pos_of s3 y = (if y = c then es_id s else pos_of s y)"
      if "y < length (es_ctxs s)" "(if y = c then es_id s else pos_of s y) \<noteq> k" for y
      using onEvicted_weaker(2) [of y ?s2 k x] that len pos [OF that(1)] unfolding s3_def by simp
    have ids: "es_id s3 = es_id s + 1" "es_cache s3 = fst (lru 0 c (es_cache s))"
      using ev(2,3) by (simp_all add: s3_def)
    have k: "(\<forall>y. snd (lru 0 c (es_cache s)) \<noteq> Some (pos_of s x, y)) \<longleftrightarrow> pos_of s x \<noteq> k" for x
      using Some kx by auto
    have Ac: "pos_of s3 c = es_id s \<or> pos_of s3 c = 0" using A [OF assms(1)] by simp
    have A': "pos_of s3 y = pos_of s y \<or> pos_of s3 y = 0" if "y < length (es_ctxs s)" "y \<noteq> c" for y
      using A [OF that(1)] that(2) by simp
    have B': "pos_of s3 y = pos_of s y" if "y < length (es_ctxs s)" "y \<noteq> c" "pos_of s y \<noteq> k" for y
      using B [OF that(1)] that(2,3) by simp
    show ?thesis unfolding k using p3 r3 ids Ac A' B' by blast
  qed
qed

subsection \<open>The path of a value\<close>

fun chain :: "rctx list \<Rightarrow> addr list \<Rightarrow> bool" where
  "chain s [] = False"
| "chain s [c] = (c < length s)"
| "chain s (c # p # cs) = (c < length s \<and> rc_PathParent (s ! c) = Some p \<and> chain s (p # cs))"

lemma chain_bound: "chain s cs \<Longrightarrow> c \<in> set cs \<Longrightarrow> c < length s"
  by (induction s cs rule: chain.induct) auto

lemma chain_nth: "chain s cs \<Longrightarrow> Suc i < length cs \<Longrightarrow> rc_PathParent (s ! (cs ! i)) = Some (cs ! Suc i)"
proof (induction s cs arbitrary: i rule: chain.induct)
  case (3 s c p cs)
  then show ?case by (cases i) auto
qed auto

lemma chain_below: "ctxs_ok s \<Longrightarrow> chain s (c # cs) \<Longrightarrow> x \<in> set cs \<Longrightarrow> x < c"
proof (induction cs arbitrary: c)
  case (Cons p cs)
  then have p: "c < length s" "rc_PathParent (s ! c) = Some p" "chain s (p # cs)" by simp_all
  then have "p < c" using ctxs_okD(1) [OF Cons.prems(1)] by blast
  then show ?case using Cons.IH [OF Cons.prems(1) p(3)] Cons.prems(3) by auto
qed simp

lemma chain_distinct: "ctxs_ok s \<Longrightarrow> chain s cs \<Longrightarrow> distinct cs"
proof (induction s cs rule: chain.induct)
  case (3 s c p cs)
  then have "c \<notin> set (p # cs)" using chain_below [of s c "p # cs" c] by auto
  then show ?case using 3 by simp
qed auto

lemma path_within_enough:
  assumes "ctxs_ok s"
  shows "c < length s \<Longrightarrow> c < n \<Longrightarrow> c < m \<Longrightarrow> path_within n s c = path_within m s c"
proof (induction n arbitrary: c m)
  case (Suc n)
  obtain m' where m: "m = Suc m'" using Suc.prems(3) by (cases m) auto
  have "path_within n s p = path_within m' s p" if "rc_PathParent (s ! c) = Some p" for p
    using Suc ctxs_okD(1) [OF assms _ that] m by (intro Suc.IH) auto
  then show ?case by (simp add: m split: option.split)
qed simp

lemma path_of_step:
  assumes "ctxs_ok s" and "c < length s"
  shows "path_of s c = (case rc_PathParent (s ! c) of None \<Rightarrow> [] | Some p \<Rightarrow> path_of s p) @
     (case rc_PathComponent (s ! c) of None \<Rightarrow> [] | Some pc \<Rightarrow> step_of pc)"
proof -
  have "path_within c s p = path_of s p" if "rc_PathParent (s ! c) = Some p" for p
    unfolding path_of_def by (rule path_within_enough [OF assms(1)]) (use ctxs_okD(1) [OF assms that] assms(2) in auto)
  then show ?thesis by (simp add: path_of_def split: option.split)
qed

lemma relabel_path:
  assumes "relabel s s'" and "ctxs_ok (es_ctxs s)"
  shows "c < length (es_ctxs s) \<Longrightarrow> path_within n (es_ctxs s') c = path_within n (es_ctxs s) c"
proof (induction n arbitrary: c)
  case (Suc n)
  have "rc_PathParent (es_ctxs s' ! c) = rc_PathParent (es_ctxs s ! c)"
    using assms(1) Suc.prems by (simp add: relabel_def)
  moreover have "p < length (es_ctxs s)" if "rc_PathParent (es_ctxs s ! c) = Some p" for p
    using ctxs_okD(1) [OF assms(2) Suc.prems that] Suc.prems by simp
  moreover have "(case comp s' c of None \<Rightarrow> [] | Some pc \<Rightarrow> step_of pc) = (case comp s c of None \<Rightarrow> [] | Some pc \<Rightarrow> step_of pc)"
    unfolding relabel_comp [OF assms(1) Suc.prems] by (simp add: step_of_def split: option.split)
  ultimately show ?case using Suc.IH by (simp split: option.split)
qed simp

lemma relabel_ok:
  assumes "relabel s s'" and "ctxs_ok (es_ctxs s)"
  shows "ctxs_ok (es_ctxs s')"
  unfolding ctxs_ok_def
proof (intro allI impI)
  fix c assume c: "c < length (es_ctxs s')"
  then have cl: "c < length (es_ctxs s)" using assms(1) by (simp add: relabel_def)
  note same = assms(1) [unfolded relabel_def, THEN conjunct2, rule_format, OF cl]
  note ok = ctxs_okD [OF assms(2) cl]
  have "p < c \<and> comp s' p \<noteq> None" if "rc_PathParent (es_ctxs s' ! c) = Some p" for p
  proof -
    have p: "p < c" "comp s p \<noteq> None" using ok(1) [of p] that same by simp_all
    then show ?thesis using relabel_comp [OF assms(1), of p] cl by simp
  qed
  then show "(\<forall>p. rc_PathParent (es_ctxs s' ! c) = Some p \<longrightarrow> p < c \<and> comp s' p \<noteq> None) \<and>
      (\<forall>p. rc_derived (es_ctxs s' ! c) = Some p \<longrightarrow> p < c) \<and> rc_ActiveChildren (es_ctxs s' ! c) \<in> {0, 1}"
    using ok(2,3) same by simp
qed

lemma relabel_chain: "relabel s s' \<Longrightarrow> chain (es_ctxs s) cs \<Longrightarrow> chain (es_ctxs s') cs"
  by (induction "es_ctxs s" cs rule: chain.induct) (auto simp: relabel_def)

lemma path_components_result:
  assumes "keeps_recent lru" and "ctxs_ok (es_ctxs s)" and "c < length (es_ctxs s)" and "c < fuel"
  shows "\<exists>s' cs. path_components fuel lru c s = Some (s', cs) \<and> weaker s s' \<and> es_id s' = es_id s \<and>
     chain (es_ctxs s) cs \<and> hd cs = c \<and> (\<forall>x \<in> set (butlast cs). pos_of s x = 0) \<and>
     (pos_of s (last cs) = 0 \<longrightarrow> rc_PathParent (es_ctxs s ! last cs) = None \<and> s' = s) \<and>
     (pos_of s (last cs) \<noteq> 0 \<longrightarrow> pos_of s' (last cs) = pos_of s (last cs) \<and>
        (\<exists>cache. es_cache s' = fst (lru (pos_of s (last cs)) (last cs) cache)))"
  using assms(3,4)
proof (induction fuel arbitrary: c)
  case (Suc fuel)
  show ?case
  proof (cases "pos_of s c = 0")
    case False
    from Put_renew [OF assms(1) Suc.prems(1) False] obtain s' where s':
      "PathCache_Put lru c s = Some (s', False, pos_of s c)" "weaker s s'" "pos_of s' c = pos_of s c"
      "es_id s' = es_id s" "es_cache s' = fst (lru (pos_of s c) c (es_cache s))" by blast
    obtain pc where "comp s c = Some pc" "rv_pos_identifier pc \<noteq> 0"
      using False by (auto simp: pos_of_def split: option.splits)
    then have "path_components (Suc fuel) lru c s = Some (s', [c])"
      using s'(1) by (simp add: isPathRoot_def)
    then show ?thesis using s' Suc.prems(1) False by auto
  next
    case True
    have root: "isPathRoot lru c s = Some (s, rc_PathParent (es_ctxs s ! c) = None)"
      using True by (auto simp: isPathRoot_def pos_of_def split: option.splits)
    show ?thesis
    proof (cases "rc_PathParent (es_ctxs s ! c)")
      case None
      then show ?thesis using root True Suc.prems(1) by simp
    next
      case (Some p)
      have p: "p < c" using ctxs_okD(1) [OF assms(2) Suc.prems(1) Some] by simp
      then have "p < length (es_ctxs s)" "p < fuel" using Suc.prems by simp_all
      from Suc.IH [OF this] obtain s' cs where IH: "path_components fuel lru p s = Some (s', cs)"
        "weaker s s'" "es_id s' = es_id s" "chain (es_ctxs s) cs" "hd cs = p" "\<forall>x \<in> set (butlast cs). pos_of s x = 0"
        "pos_of s (last cs) = 0 \<longrightarrow> rc_PathParent (es_ctxs s ! last cs) = None \<and> s' = s"
        "pos_of s (last cs) \<noteq> 0 \<longrightarrow> pos_of s' (last cs) = pos_of s (last cs) \<and>
           (\<exists>cache. es_cache s' = fst (lru (pos_of s (last cs)) (last cs) cache))" by blast
      obtain ds where ds: "cs = p # ds" using IH(4,5) by (cases cs) auto
      have "path_components (Suc fuel) lru c s = Some (s', c # cs)" using root Some IH(1) by simp
      moreover have "chain (es_ctxs s) (c # cs)" using IH(4) ds Some Suc.prems(1) by simp
      moreover have "\<forall>x \<in> set (butlast (c # cs)). pos_of s x = 0" using IH(6) ds True by simp
      moreover have "last (c # cs) = last cs" using ds by simp
      ultimately show ?thesis using IH(2,3,7,8) by (intro exI [of _ s'] exI [of _ "c # cs"]) simp
    qed
  qed
qed simp

subsection \<open>Labelling a path\<close>

lemma label_loop_result:
  assumes "\<forall>c \<in> set cs. c < length (es_ctxs s) \<and> comp s c \<noteq> None \<and> pos_of s c = 0"
  shows "\<exists>s'. label_loop lru cs s = Some s' \<and>
     (s' = s \<and> (\<forall>c \<in> set cs. rc_IsFinal (es_ctxs s ! c)) \<or>
      (\<exists>c \<in> set cs. \<not> rc_IsFinal (es_ctxs s ! c) \<and> PathCache_Put lru c s = Some (s', True, 0)))"
  using assms
proof (induction cs)
  case (Cons c cs)
  show ?case
  proof (cases "rc_IsFinal (es_ctxs s ! c)")
    case True
    then show ?thesis using Cons by auto
  next
    case False
    from Put_new [of c s lru] Cons.prems obtain s' where "PathCache_Put lru c s = Some (s', True, 0)" by auto
    then show ?thesis using False by auto
  qed
qed simp

text \<open>
  The first context that is not final gets the label, unless the cache evicts it at once.
\<close>

lemma label_first:
  assumes "\<not> rc_IsFinal (es_ctxs s ! c)"
  shows "label_loop lru (c # cs) s = map_option fst (PathCache_Put lru c s)"
  using assms by simp

subsection \<open>The segments of a path\<close>

text \<open>Between two values the components carry neither a value nor an error.\<close>

definition clean_comps :: "'c enc_state \<Rightarrow> bool" where
  "clean_comps s \<longleftrightarrow> (\<forall>c < length (es_ctxs s). \<forall>pc. comp s c = Some pc \<longrightarrow> rv_value pc = None \<and> rv_error pc = '''')"

definition emits :: "Value \<Rightarrow> bool" where
  "emits val \<longleftrightarrow> (case val_Error val of Some e \<Rightarrow> e \<noteq> '''' | None \<Rightarrow> val_Value val \<noteq> None)"

definition item_of :: "path \<Rightarrow> Value \<Rightarrow> item" where
  "item_of p val = (case val_Error val of Some e \<Rightarrow> (p, None, e) | None \<Rightarrow> (p, val_Value val, ''''))"

definition fill :: "Value \<Rightarrow> RGQLValue \<Rightarrow> RGQLValue" where
  "fill val base = (case val_Error val of Some e \<Rightarrow> base\<lparr>rv_error := e\<rparr> | None \<Rightarrow> base\<lparr>rv_value := val_Value val\<rparr>)"

lemma fill_simps [simp]:
  "rv_pos_identifier (fill val m) = rv_pos_identifier m" "step_of (fill val m) = step_of m"
  "rv_value m = None \<Longrightarrow> rv_error m = '''' \<Longrightarrow> (fill val m)\<lparr>rv_value := None, rv_error := ''''\<rparr> = m"
  by (cases m; simp add: fill_def step_of_def split: option.split)+

lemma fill_item:
  assumes "emits val" and "rv_value m = None" and "rv_error m = ''''"
  shows "rv_value (fill val m) \<noteq> None \<or> rv_error (fill val m) \<noteq> ''''"
    and "(p, rv_value (fill val m), rv_error (fill val m)) = item_of p val"
  using assms by (auto simp: emits_def fill_def item_of_def split: option.splits)

lemma set_comp_same: "comp s c = Some pc \<Longrightarrow> set_comp c pc s = s"
  by (cases "c < length (es_ctxs s)")
     (auto simp: set_comp_def upd_at_def list_update_same_conv list_update_beyond intro!: enc_state.equality)

text \<open>An ordinary segment is the component itself.\<close>

lemma segment_plain:
  assumes "clean_comps s" and "components ! i < length (es_ctxs s)" and "comp s (components ! i) = Some pc"
    and "\<not> (merge \<and> i = length components - 2)" and "i = length components - 1 \<longrightarrow> rv_pos_identifier pc = 0"
  shows "segment components merge val i s = Some (s, if i = 0 then fill val pc else pc)"
proof -
  have "rv_value pc = None" "rv_error pc = ''''" using assms(1-3) by (auto simp: clean_comps_def)
  then have "(fill val pc)\<lparr>rv_value := None, rv_error := ''''\<rparr> = pc" by simp
  moreover have "set_comp (components ! i) pc s = s" using set_comp_same [OF assms(3)] .
  moreover have m: "(merge \<and> i = length components - 2) = False" using assms(4) by simp
  moreover have f: "(\<not> False \<and> i = length components - 1 \<and> rv_pos_identifier pc \<noteq> 0) = False"
    using assms(5) by simp
  ultimately show ?thesis
    unfolding segment_def Let_def assms(3) option.case m f fill_def [symmetric] by (cases "i = 0") simp_all
qed

text \<open>The segment that refers to a label, and the segment that carries the label of its parent.\<close>

lemma segment_root:
  assumes "comp s (components ! i) = Some pc" and "rv_pos_identifier pc \<noteq> 0" and "i = length components - 1"
    and "i \<noteq> 0" and "\<not> merge"
  shows "segment components merge val i s = Some (s, zero_value\<lparr>rv_pos_identifier := rv_pos_identifier pc\<rparr>)"
  using assms by (simp add: segment_def Let_def)

lemma segment_merged:
  assumes "clean_comps s" and "components ! i < length (es_ctxs s)" and "comp s (components ! i) = Some pc"
    and "rv_pos_identifier pc = 0" and "i = length components - 2" and "pos_of s (last components) \<noteq> 0"
  shows "segment components True val i s =
     Some (s, let m = pc\<lparr>rv_pos_identifier := pos_of s (last components)\<rparr> in if i = 0 then fill val m else m)"
proof -
  have v: "rv_value pc = None" "rv_error pc = ''''" using assms(1-3) by (auto simp: clean_comps_def)
  obtain plc where plc: "comp s (last components) = Some plc" "rv_pos_identifier plc = pos_of s (last components)"
    using assms(6) by (auto simp: pos_of_def split: option.splits)
  let ?p = "pos_of s (last components)"
  have same: "set_comp (components ! i) pc s = s" using set_comp_same [OF assms(3)] .
  have "(fill val (pc\<lparr>rv_pos_identifier := ?p\<rparr>))\<lparr>rv_value := None, rv_error := ''''\<rparr> = pc\<lparr>rv_pos_identifier := ?p\<rparr>"
    using v by simp
  moreover have "pc\<lparr>rv_pos_identifier := 0\<rparr> = pc" using assms(4) by (cases pc) simp
  then have same0: "set_comp (components ! i) (pc\<lparr>rv_pos_identifier := 0\<rparr>) s = s" by (simp only: same)
  moreover have m: "(True \<and> i = length components - 2) = True" using assms(5) by simp
  ultimately show ?thesis
    using assms(4,6) same0 unfolding segment_def Let_def assms(3) plc(1) option.case m fill_def [symmetric] plc(2)
    by (cases "i = 0") simp_all
qed

text \<open>The labels that the segments from \<open>i\<close> down to 0 define.\<close>

definition define_label :: "'c enc_state \<Rightarrow> addr \<Rightarrow> (u32 \<rightharpoonup> path) \<Rightarrow> u32 \<rightharpoonup> path" where
  "define_label s c lab = (if pos_of s c \<noteq> 0 then lab(pos_of s c \<mapsto> path_of (es_ctxs s) c) else lab)"

primrec define_labels :: "'c enc_state \<Rightarrow> addr list \<Rightarrow> nat \<Rightarrow> (u32 \<rightharpoonup> path) \<Rightarrow> u32 \<rightharpoonup> path" where
  "define_labels s cs 0 lab = define_label s (cs ! 0) lab"
| "define_labels s cs (Suc i) lab = define_labels s cs i (define_label s (cs ! Suc i) lab)"

lemma emit_below:
  assumes "ctxs_ok (es_ctxs s)" and "clean_comps s" and "chain (es_ctxs s) cs" and "emits val"
    and "\<forall>c \<in> set cs. comp s c \<noteq> None"
  shows "Suc i < length cs \<Longrightarrow> \<not> (merge \<and> i = length cs - 2) \<Longrightarrow>
    \<exists>ms. emit_loop cs merge val i s = Some (s, ms) \<and>
      decode (lab, Some (path_of (es_ctxs s) (cs ! Suc i))) ms =
        Some ((define_labels s cs i lab, None), [item_of (path_of (es_ctxs s) (cs ! 0)) val])"
proof (induction i arbitrary: lab)
  case 0
  have c: "cs ! 0 < length (es_ctxs s)" by (rule chain_bound [OF assms(3) nth_mem]) (use 0 in linarith)
  have "comp s (cs ! 0) \<noteq> None" by (rule bspec [OF assms(5) nth_mem]) (use 0 in linarith)
  then obtain pc where pc: "comp s (cs ! 0) = Some pc" by blast
  have par: "rc_PathParent (es_ctxs s ! (cs ! 0)) = Some (cs ! Suc 0)" using chain_nth [OF assms(3)] 0 by simp
  have seg: "segment cs merge val 0 s = Some (s, fill val pc)"
    using segment_plain [OF assms(2) c pc, of merge val] 0 by auto
  have path: "path_of (es_ctxs s) (cs ! 0) = path_of (es_ctxs s) (cs ! Suc 0) @ step_of pc"
    using path_of_step [OF assms(1) c] par pc by simp
  have clean: "rv_value pc = None" "rv_error pc = ''''" using assms(2) c pc by (auto simp: clean_comps_def)
  note item = fill_item [OF assms(4) clean]
  have pos: "pos_of s (cs ! 0) = rv_pos_identifier pc" using pc by (simp add: pos_of_def)
  have "dec_step (lab, Some (path_of (es_ctxs s) (cs ! Suc 0))) (fill val pc) =
      Some ((define_label s (cs ! 0) lab, None), [item_of (path_of (es_ctxs s) (cs ! 0)) val])"
    unfolding item(2) [symmetric] path using item(1)
    by (simp add: dec_step_def Let_def define_label_def pos path)
  then show ?case using seg by simp
next
  case (Suc i)
  let ?c = "cs ! Suc i"
  have c: "?c < length (es_ctxs s)" by (rule chain_bound [OF assms(3) nth_mem]) (use Suc.prems in simp)
  have "comp s ?c \<noteq> None" by (rule bspec [OF assms(5) nth_mem]) (use Suc.prems in simp)
  then obtain pc where pc: "comp s ?c = Some pc" by blast
  have par: "rc_PathParent (es_ctxs s ! ?c) = Some (cs ! Suc (Suc i))" using chain_nth [OF assms(3)] Suc.prems by simp
  have seg: "segment cs merge val (Suc i) s = Some (s, pc)"
  proof -
    have "Suc i \<noteq> length cs - 1" using Suc.prems by linarith
    then have "Suc i = length cs - 1 \<longrightarrow> rv_pos_identifier pc = 0" by (rule impI [OF notE])
    from segment_plain [OF assms(2) c pc Suc.prems(2) this] show ?thesis by simp
  qed
  have path: "path_of (es_ctxs s) ?c = path_of (es_ctxs s) (cs ! Suc (Suc i)) @ step_of pc"
    using path_of_step [OF assms(1) c] par pc by simp
  have clean: "rv_value pc = None" "rv_error pc = ''''" using assms(2) c pc by (auto simp: clean_comps_def)
  have pos: "pos_of s ?c = rv_pos_identifier pc" using pc by (simp add: pos_of_def)
  have "Suc i < length cs" "\<not> (merge \<and> i = length cs - 2)" using Suc.prems by auto
  from Suc.IH [OF this, of "define_label s ?c lab"] obtain ms where
    "emit_loop cs merge val i s = Some (s, ms)"
    "decode (define_label s ?c lab, Some (path_of (es_ctxs s) ?c)) ms =
       Some ((define_labels s cs (Suc i) lab, None), [item_of (path_of (es_ctxs s) (cs ! 0)) val])" by auto
  moreover have "dec_step (lab, Some (path_of (es_ctxs s) (cs ! Suc (Suc i)))) pc =
      Some ((define_label s ?c lab, Some (path_of (es_ctxs s) ?c)), [])"
    using clean by (simp add: dec_step_def Let_def define_label_def pos path)
  ultimately show ?case using seg by (intro exI [of _ "pc # ms"]) simp
qed

lemma define_labels_one:
  assumes "\<forall>k \<le> i. k \<noteq> j \<longrightarrow> pos_of s (cs ! k) = 0"
  shows "define_labels s cs i lab = (if j \<le> i then define_label s (cs ! j) lab else lab)"
  using assms
proof (induction i arbitrary: lab)
  case 0
  then show ?case by (auto simp: define_label_def)
next
  case (Suc i)
  then have "define_labels s cs i lab' = (if j \<le> i then define_label s (cs ! j) lab' else lab')" for lab' by simp
  moreover have "define_label s (cs ! Suc i) lab = lab" if "j \<noteq> Suc i"
    using Suc.prems that by (simp add: define_label_def)
  ultimately show ?case by (cases "j = Suc i") auto
qed

subsection \<open>The round trip\<close>

text \<open>What the client knows: every label in use stands for the path of its context.\<close>

definition enc_inv :: "'c enc_state \<Rightarrow> (u32 \<rightharpoonup> path) \<Rightarrow> bool" where
  "enc_inv s labels \<longleftrightarrow> ctxs_ok (es_ctxs s) \<and> clean_comps s \<and> es_id s \<noteq> 0 \<and>
     (\<forall>c < length (es_ctxs s). pos_of s c \<noteq> 0 \<longrightarrow>
        labels (pos_of s c) = Some (path_of (es_ctxs s) c) \<and> pos_of s c < es_id s)"

lemma enc_invD:
  assumes "enc_inv s labels"
  shows "ctxs_ok (es_ctxs s)" and "clean_comps s" and "es_id s \<noteq> 0"
    and "c < length (es_ctxs s) \<Longrightarrow> pos_of s c \<noteq> 0 \<Longrightarrow> labels (pos_of s c) = Some (path_of (es_ctxs s) c)"
    and "c < length (es_ctxs s) \<Longrightarrow> pos_of s c \<noteq> 0 \<Longrightarrow> pos_of s c < es_id s"
  using assms unfolding enc_inv_def by blast+

lemma relabel_clean:
  assumes "relabel s s'" and "clean_comps s"
  shows "clean_comps s'"
  unfolding clean_comps_def
proof (intro allI impI)
  fix c pc assume c: "c < length (es_ctxs s')" "comp s' c = Some pc"
  then have cl: "c < length (es_ctxs s)" using assms(1) by (simp add: relabel_def)
  obtain pc0 where "comp s c = Some pc0" "pc = pc0\<lparr>rv_pos_identifier := pos_of s' c\<rparr>"
    using relabel_comp [OF assms(1) cl] unfolding c(2) by (cases "comp s c") auto
  moreover from this(1) have "rv_value pc0 = None \<and> rv_error pc0 = ''''"
    using assms(2) cl unfolding clean_comps_def by blast
  ultimately show "rv_value pc = None \<and> rv_error pc = ''''" by simp
qed

definition labelled_one :: "addr list \<Rightarrow> 'c enc_state \<Rightarrow> 'c enc_state \<Rightarrow> bool" where
  "labelled_one cs s s2 \<longleftrightarrow>
     es_id s2 = es_id s \<and> (\<forall>x < length (es_ctxs s). pos_of s2 x = pos_of s x \<or> pos_of s2 x = 0) \<or>
     (\<exists>j \<in> set (butlast cs). \<not> rc_IsFinal (es_ctxs s ! j) \<and> es_id s2 = es_id s + 1 \<and>
        (pos_of s2 j = es_id s \<or> pos_of s2 j = 0) \<and>
        (\<forall>x < length (es_ctxs s). x \<noteq> j \<longrightarrow> pos_of s2 x = pos_of s x \<or> pos_of s2 x = 0))"

lemma weaker_relabel: "weaker s s' \<Longrightarrow> relabel s s'"
  and weaker_pos: "weaker s s' \<Longrightarrow> x < length (es_ctxs s) \<Longrightarrow> pos_of s' x = pos_of s x \<or> pos_of s' x = 0"
  and relabel_length: "relabel s s' \<Longrightarrow> length (es_ctxs s') = length (es_ctxs s)"
  by (simp_all add: weaker_def relabel_def)

lemma prepared:
  assumes lru: "keeps_recent lru" and ok: "ctxs_ok (es_ctxs s)" and c: "c < length (es_ctxs s)" "comp s c \<noteq> None"
  obtains s1 cs s2 where "path_components (length (es_ctxs s)) lru c s = Some (s1, cs)"
    and "labelPathComponents lru cs s1 = Some s2" and "relabel s s2" and "chain (es_ctxs s) cs" and "hd cs = c"
    and "\<forall>x \<in> set (butlast cs). pos_of s x = 0"
    and "pos_of s (last cs) = 0 \<longrightarrow> rc_PathParent (es_ctxs s ! last cs) = None"
    and "pos_of s2 (last cs) = pos_of s (last cs)" and "labelled_one cs s s2"
proof -
  from path_components_result [OF lru ok c(1) c(1)] obtain s1 cs where
    pcs: "path_components (length (es_ctxs s)) lru c s = Some (s1, cs)" "weaker s s1" "es_id s1 = es_id s"
      "chain (es_ctxs s) cs" "hd cs = c" "\<forall>x \<in> set (butlast cs). pos_of s x = 0"
      "pos_of s (last cs) = 0 \<longrightarrow> rc_PathParent (es_ctxs s ! last cs) = None \<and> s1 = s"
      "pos_of s (last cs) \<noteq> 0 \<longrightarrow> pos_of s1 (last cs) = pos_of s (last cs) \<and>
        (\<exists>cache. es_cache s1 = fst (lru (pos_of s (last cs)) (last cs) cache))" by blast
  have ne: "cs \<noteq> []" using pcs(4) by auto
  note rel = weaker_relabel [OF pcs(2)]
  note len = relabel_length [OF rel]
  have bound: "x < length (es_ctxs s)" if "x \<in> set cs" for x using chain_bound [OF pcs(4) that] .
  have nolast: "x \<noteq> last cs" if "x \<in> set (butlast cs)" for x
    using chain_distinct [OF ok pcs(4)] that ne
    by (metis append_butlast_last_id disjoint_insert(1) distinct_append list.set(2))
  have lastpos1: "pos_of s1 (last cs) = pos_of s (last cs)" using pcs(7,8) by (cases "pos_of s (last cs) = 0") auto
  have comps: "comp s1 x \<noteq> None" if "x \<in> set (butlast cs)" for x
  proof (cases "x = c")
    case True
    then show ?thesis using relabel_comp [OF rel c(1)] c(2) by auto
  next
    case False
    from that obtain i where i: "i < length cs" "cs ! i = x" by (meson in_set_butlastD in_set_conv_nth)
    have "i \<noteq> 0" using False i(2) pcs(5) ne by (metis hd_conv_nth)
    then obtain k where k: "i = Suc k" by (cases i) auto
    have "rc_PathParent (es_ctxs s ! (cs ! k)) = Some x" using chain_nth [OF pcs(4), of k] i k by simp
    moreover have "cs ! k < length (es_ctxs s)" using bound i(1) k by simp
    ultimately have "comp s x \<noteq> None" using ctxs_okD(1) [OF ok] by blast
    then show ?thesis using relabel_comp [OF rel, of x] bound in_set_butlastD [OF that] by simp
  qed
  have zero1: "pos_of s1 x = 0" if "x \<in> set (butlast cs)" for x
    using weaker_pos [OF pcs(2), of x] pcs(6) that bound in_set_butlastD [OF that] by auto
  have "\<forall>x \<in> set (butlast cs). x < length (es_ctxs s1) \<and> comp s1 x \<noteq> None \<and> pos_of s1 x = 0"
    using comps zero1 bound len in_set_butlastD by fastforce
  from label_loop_result [OF this, of lru] obtain s2 where s2: "labelPathComponents lru cs s1 = Some s2"
    "s2 = s1 \<or> (\<exists>j \<in> set (butlast cs). \<not> rc_IsFinal (es_ctxs s1 ! j) \<and> PathCache_Put lru j s1 = Some (s2, True, 0))"
    unfolding labelPathComponents_def by blast
  from s2(2) show thesis
  proof
    assume "s2 = s1"
    moreover have "labelled_one cs s s1" using pcs(3) weaker_pos [OF pcs(2)] by (auto simp: labelled_one_def)
    ultimately show thesis using that [OF pcs(1) s2(1)] rel pcs(4-7) lastpos1 by blast
  next
    assume "\<exists>j \<in> set (butlast cs). \<not> rc_IsFinal (es_ctxs s1 ! j) \<and> PathCache_Put lru j s1 = Some (s2, True, 0)"
    then obtain j where j: "j \<in> set (butlast cs)" "PathCache_Put lru j s1 = Some (s2, True, 0)"
      "\<not> rc_IsFinal (es_ctxs s1 ! j)" by blast
    have live: "\<not> rc_IsFinal (es_ctxs s ! j)"
      using j(3) rel bound in_set_butlastD [OF j(1)] unfolding relabel_def by simp
    have jb: "j < length (es_ctxs s1)" using bound in_set_butlastD [OF j(1)] len by simp
    from Put_new [OF jb comps [OF j(1)] zero1 [OF j(1)], of lru] j(2)
    have new: "relabel s1 s2" "es_id s2 = es_id s1 + 1" "pos_of s2 j = es_id s1 \<or> pos_of s2 j = 0"
      "\<And>x. x < length (es_ctxs s1) \<Longrightarrow> x \<noteq> j \<Longrightarrow> pos_of s2 x = pos_of s1 x \<or> pos_of s2 x = 0"
      "\<And>x. x < length (es_ctxs s1) \<Longrightarrow> x \<noteq> j \<Longrightarrow> (\<forall>y. snd (lru 0 j (es_cache s1)) \<noteq> Some (pos_of s1 x, y)) \<Longrightarrow>
         pos_of s2 x = pos_of s1 x" by auto
    have lb: "last cs < length (es_ctxs s1)" using bound [OF last_in_set [OF ne]] len by simp
    note nl = nolast [OF j(1)]
    have "pos_of s2 (last cs) = pos_of s (last cs)"
    proof (cases "pos_of s (last cs) = 0")
      case True
      then show ?thesis using new(4) [OF lb nl [symmetric]] lastpos1 by auto
    next
      case False
      with pcs(8) obtain cache where "es_cache s1 = fst (lru (pos_of s (last cs)) (last cs) cache)" by blast
      then have "\<forall>y. snd (lru 0 j (es_cache s1)) \<noteq> Some (pos_of s1 (last cs), y)"
        using keeps_recentD(2) [OF lru] lastpos1 by metis
      then show ?thesis using new(5) [OF lb nl [symmetric]] lastpos1 by simp
    qed
    moreover have "labelled_one cs s s2"
    proof -
      have "pos_of s2 x = pos_of s x \<or> pos_of s2 x = 0" if "x < length (es_ctxs s)" "x \<noteq> j" for x
        using weaker_pos [OF pcs(2) that(1)] new(4) [of x] that len by auto
      then show ?thesis using j(1) live new(2,3) pcs(3) unfolding labelled_one_def by auto
    qed
    ultimately show thesis using that [OF pcs(1) s2(1) relabel_trans [OF rel new(1)]] pcs(4-7) by blast
  qed
qed

lemma relabel_path_of:
  "relabel s s' \<Longrightarrow> ctxs_ok (es_ctxs s) \<Longrightarrow> c < length (es_ctxs s) \<Longrightarrow> path_of (es_ctxs s') c = path_of (es_ctxs s) c"
  unfolding path_of_def by (rule relabel_path)

lemma zero_value_step [simp]:
  "rv_value zero_value = None" "rv_error zero_value = ''''" "step_of (zero_value\<lparr>rv_pos_identifier := i\<rparr>) = []"
  by (simp_all add: zero_value_def step_of_def)

lemma labelled_one_inv:
  assumes inv: "enc_inv s labels" and rel: "relabel s s2" and one: "labelled_one cs s s2" and ch: "chain (es_ctxs s) cs"
    and id: "es_id s \<noteq> - 1" and zero: "\<forall>x \<in> set (butlast cs). pos_of s x = 0"
    and k: "k < length cs" "k \<ge> length cs - 2"
    and last: "k < length cs - 1 \<or> pos_of s2 (last cs) = 0"
  shows "enc_inv s2 (define_labels s2 cs k labels)"
proof -
  note ok = enc_invD(1) [OF inv]
  have len: "length (es_ctxs s2) = length (es_ctxs s)" using relabel_length [OF rel] .
  have ne: "cs \<noteq> []" using ch by auto
  have nth: "cs ! i \<in> set (butlast cs)" if "i < length cs - 1" for i
    using that by (metis length_butlast nth_butlast nth_mem)
  note path = relabel_path_of [OF rel ok]
  show ?thesis
    using one unfolding labelled_one_def
  proof
    assume old: "es_id s2 = es_id s \<and> (\<forall>x < length (es_ctxs s). pos_of s2 x = pos_of s x \<or> pos_of s2 x = 0)"
    have "pos_of s2 (cs ! i) = 0" if "i \<le> k" for i
    proof (cases "i < length cs - 1")
      case True
      then show ?thesis using old zero nth [OF True] chain_bound [OF ch in_set_butlastD] by metis
    next
      case False
      then have "i = length cs - 1" using that k(1) by linarith
      then show ?thesis using last that ne by (auto simp: last_conv_nth)
    qed
    then have "define_labels s2 cs k labels = labels" using define_labels_one [of k "Suc k" s2 cs] by simp
    then show ?thesis unfolding enc_inv_def
      using relabel_ok [OF rel ok] relabel_clean [OF rel enc_invD(2) [OF inv]] enc_invD(3) [OF inv] old
        enc_invD(4,5) [OF inv] path len by metis
  next
    assume "\<exists>j \<in> set (butlast cs). \<not> rc_IsFinal (es_ctxs s ! j) \<and> es_id s2 = es_id s + 1 \<and>
        (pos_of s2 j = es_id s \<or> pos_of s2 j = 0) \<and> (\<forall>x < length (es_ctxs s). x \<noteq> j \<longrightarrow> pos_of s2 x = pos_of s x \<or> pos_of s2 x = 0)"
    then obtain j where j: "j \<in> set (butlast cs)" "es_id s2 = es_id s + 1" "pos_of s2 j = es_id s \<or> pos_of s2 j = 0"
      "\<And>x. x < length (es_ctxs s) \<Longrightarrow> x \<noteq> j \<Longrightarrow> pos_of s2 x = pos_of s x \<or> pos_of s2 x = 0" by blast
    obtain i0 where i0: "i0 < length cs - 1" "cs ! i0 = j"
      using j(1) by (metis in_set_conv_nth length_butlast nth_butlast)
    have i0k: "i0 \<le> k" using i0(1) k(2) by linarith
    have "pos_of s2 (cs ! i) = 0" if "i \<le> k" "i \<noteq> i0" for i
    proof (cases "i < length cs - 1")
      case True
      have "cs ! i \<noteq> j" using chain_distinct [OF ok ch] i0 True that(2) k(1)
        by (auto simp: nth_eq_iff_index_eq)
      then show ?thesis using j(4) zero nth [OF True] chain_bound [OF ch in_set_butlastD] by metis
    next
      case False
      then have "i = length cs - 1" using that(1) k(1) by linarith
      then show ?thesis using last that(1) ne by (auto simp: last_conv_nth)
    qed
    then have labels: "define_labels s2 cs k labels = define_label s2 j labels"
      using define_labels_one [of k i0 s2 cs labels] i0(2) i0k by simp
    have newid: "es_id s2 \<noteq> 0" using j(2) id by (simp add: add_eq_0_iff2)
    have less: "es_id s < es_id s2" using id j(2) inc_less_eq_triv_imp [of "es_id s"] by fastforce
    have "define_label s2 j labels (pos_of s2 c) = Some (path_of (es_ctxs s2) c) \<and> pos_of s2 c < es_id s2"
      if c: "c < length (es_ctxs s2)" "pos_of s2 c \<noteq> 0" for c
    proof (cases "c = j")
      case True
      then show ?thesis using c j(3) less by (simp add: define_label_def)
    next
      case False
      have cl: "c < length (es_ctxs s)" using c(1) len by simp
      then have p: "pos_of s2 c = pos_of s c" using j(4) [OF _ False] c(2) by blast
      then have l: "labels (pos_of s2 c) = Some (path_of (es_ctxs s2) c)" "pos_of s2 c < es_id s"
        using enc_invD(4,5) [OF inv cl] c(2) path [OF cl] by simp_all
      then have "pos_of s2 j = 0 \<or> pos_of s2 j \<noteq> pos_of s2 c" using j(3) by auto
      then show ?thesis using l less by (auto simp: define_label_def)
    qed
    then show ?thesis unfolding enc_inv_def labels
      using relabel_ok [OF rel ok] relabel_clean [OF rel enc_invD(2) [OF inv]] newid by blast
  qed
qed

text \<open>The first segment, at the top of the path.\<close>

lemma emit_from_root:
  assumes ok: "ctxs_ok (es_ctxs s)" and cl: "clean_comps s" and ch: "chain (es_ctxs s) cs" and em: "emits val"
    and cm: "\<forall>c \<in> set cs. comp s c \<noteq> None" and zero: "pos_of s (last cs) = 0"
    and par: "rc_PathParent (es_ctxs s ! last cs) = None"
  shows "\<exists>ms. emit_loop cs False val (length cs - 1) s = Some (s, ms) \<and>
      decode (lab, None) ms =
        Some ((define_labels s cs (length cs - 1) lab, None), [item_of (path_of (es_ctxs s) (cs ! 0)) val])"
proof -
  define n where "n = length cs - 1"
  have nn: "length cs - Suc 0 = n" by (simp add: n_def)
  have ne: "cs \<noteq> []" using ch by auto
  have last: "last cs = cs ! n" using ne by (simp add: last_conv_nth n_def)
  have c: "cs ! n < length (es_ctxs s)" using chain_bound [OF ch last_in_set [OF ne]] last by simp
  obtain pc where pc: "comp s (cs ! n) = Some pc" using cm last_in_set [OF ne] last by auto
  have pos: "rv_pos_identifier pc = 0" "pos_of s (cs ! n) = 0" using zero pc by (simp_all add: last pos_of_def)
  have clean: "rv_value pc = None" "rv_error pc = ''''" using cl c pc by (auto simp: clean_comps_def)
  have path: "path_of (es_ctxs s) (cs ! n) = step_of pc" using path_of_step [OF ok c] par pc by (simp add: last)
  have seg: "segment cs False val n s = Some (s, if n = 0 then fill val pc else pc)"
    using segment_plain [OF cl c pc, of False val] pos(1) by simp
  note item = fill_item [OF em clean]
  show ?thesis
  proof (cases n)
    case 0
    have "dec_step (lab, None) (fill val pc) = Some ((lab, None), [item_of (path_of (es_ctxs s) (cs ! 0)) val])"
      unfolding item(2) [symmetric] using item(1) path pos(1) by (simp add: dec_step_def Let_def 0)
    then show ?thesis using seg pos(2) by (simp add: nn 0 define_label_def)
  next
    case (Suc i)
    have "Suc i < length cs" using Suc n_def by linarith
    from emit_below [OF ok cl ch em cm this, of False lab] obtain ms where
      "emit_loop cs False val i s = Some (s, ms)"
      "decode (lab, Some (path_of (es_ctxs s) (cs ! n))) ms =
        Some ((define_labels s cs i lab, None), [item_of (path_of (es_ctxs s) (cs ! 0)) val])" by (auto simp: Suc)
    moreover have "dec_step (lab, None) pc = Some ((lab, Some (path_of (es_ctxs s) (cs ! n))), [])"
      using clean pos(1) path by (simp add: dec_step_def Let_def)
    moreover have "define_label s (cs ! Suc i) lab = lab" using pos(2) Suc by (simp add: define_label_def)
    ultimately show ?thesis using seg by (simp add: nn Suc)
  qed
qed

text \<open>The first segment refers to a label.\<close>

lemma emit_from_label:
  assumes ok: "ctxs_ok (es_ctxs s)" and cl: "clean_comps s" and ch: "chain (es_ctxs s) cs" and em: "emits val"
    and cm: "\<forall>c \<in> set cs. comp s c \<noteq> None" and len: "length cs = Suc (Suc m)"
    and lab: "pos_of s (last cs) \<noteq> 0" "lab (pos_of s (last cs)) = Some (path_of (es_ctxs s) (last cs))"
  shows "\<exists>merge ms. merge_pos cs s = Some merge \<and>
      emit_loop cs merge val (length cs - (if merge then 2 else 1)) s = Some (s, ms) \<and>
      decode (lab, None) ms =
        Some ((define_labels s cs m lab, None), [item_of (path_of (es_ctxs s) (cs ! 0)) val])"
proof -
  have ne: "cs \<noteq> []" using ch by auto
  have last: "last cs = cs ! Suc m" using ne by (simp add: last_conv_nth len)
  have c: "cs ! Suc m < length (es_ctxs s)" "cs ! m < length (es_ctxs s)" "cs ! m \<in> set cs"
    using chain_bound [OF ch nth_mem] len by simp_all
  obtain rc where rc: "comp s (cs ! Suc m) = Some rc" "rv_pos_identifier rc = pos_of s (last cs)"
    using lab(1) by (auto simp: pos_of_def last split: option.splits)
  obtain pc where pc: "comp s (cs ! m) = Some pc" using cm c(3) by blast
  have clean: "rv_value pc = None" "rv_error pc = ''''" using cl c pc by (auto simp: clean_comps_def)
  have par: "rc_PathParent (es_ctxs s ! (cs ! m)) = Some (cs ! Suc m)" using chain_nth [OF ch, of m] len by simp
  have path: "path_of (es_ctxs s) (cs ! m) = path_of (es_ctxs s) (last cs) @ step_of pc"
    using path_of_step [OF ok c(2)] par pc by (simp add: last)
  have pos: "pos_of s (cs ! m) = rv_pos_identifier pc" using pc by (simp add: pos_of_def)
  have mp: "merge_pos cs s = Some (rv_pos_identifier pc = 0)"
    using rc lab(1) pc by (simp add: merge_pos_def last len)
  note item = fill_item [OF em, of "pc\<lparr>rv_pos_identifier := pos_of s (last cs)\<rparr>"]
  show ?thesis
  proof (cases "rv_pos_identifier pc = 0")
    case False
    have seg: "segment cs False val (Suc m) s = Some (s, zero_value\<lparr>rv_pos_identifier := pos_of s (last cs)\<rparr>)"
      using segment_root [OF rc(1), of False val] rc(2) lab(1) len by simp
    have "Suc m < length cs" using len by simp
    from emit_below [OF ok cl ch em cm this, of False lab] obtain ms where
      "emit_loop cs False val m s = Some (s, ms)"
      "decode (lab, Some (path_of (es_ctxs s) (last cs))) ms =
        Some ((define_labels s cs m lab, None), [item_of (path_of (es_ctxs s) (cs ! 0)) val])" by (auto simp: last)
    moreover have "dec_step (lab, None) (zero_value\<lparr>rv_pos_identifier := pos_of s (last cs)\<rparr>) =
        Some ((lab, Some (path_of (es_ctxs s) (last cs))), [])"
      using lab by (simp add: dec_step_def Let_def)
    ultimately show ?thesis using seg mp False len
      by (intro exI [of _ False] exI [of _ "zero_value\<lparr>rv_pos_identifier := pos_of s (last cs)\<rparr> # ms"]) simp
  next
    case True
    let ?m = "pc\<lparr>rv_pos_identifier := pos_of s (last cs)\<rparr>"
    have st: "step_of ?m = step_of pc" by (simp add: step_of_def)
    have seg: "segment cs True val m s = Some (s, if m = 0 then fill val ?m else ?m)"
      using segment_merged [OF cl c(2) pc True _ lab(1), of val] len by (simp add: Let_def)
    have noop: "define_label s (cs ! m) lab = lab" using pos True by (simp add: define_label_def)
    show ?thesis
    proof (cases m)
      case 0
      have "dec_step (lab, None) (fill val ?m) = Some ((lab, None), [item_of (path_of (es_ctxs s) (cs ! 0)) val])"
        using item lab clean path st by (simp add: dec_step_def Let_def 0)
      then show ?thesis using seg mp True len noop by (intro exI [of _ True]) (simp add: 0)
    next
      case (Suc i)
      have "Suc i < length cs" "\<not> (True \<and> i = length cs - 2)" using Suc len by simp_all
      from emit_below [OF ok cl ch em cm this, of lab] obtain ms where
        "emit_loop cs True val i s = Some (s, ms)"
        "decode (lab, Some (path_of (es_ctxs s) (cs ! m))) ms =
          Some ((define_labels s cs i lab, None), [item_of (path_of (es_ctxs s) (cs ! 0)) val])" by (auto simp: Suc)
      moreover have "dec_step (lab, None) ?m = Some ((lab, Some (path_of (es_ctxs s) (cs ! m))), [])"
        using clean lab path st by (simp add: dec_step_def Let_def)
      ultimately show ?thesis using seg mp True len noop
        by (intro exI [of _ True] exI [of _ "?m # ms"]) (simp add: Suc)
    qed
  qed
qed

text \<open>One value.\<close>

lemma encode_one:
  assumes lru: "keeps_recent lru" and inv: "enc_inv s labels" and id: "es_id s \<noteq> - 1"
    and c: "c < length (es_ctxs s)" "comp s c \<noteq> None" and fresh: "pos_of s c = 0" and em: "emits val"
  obtains s' ms labels' cs where "encode_value lru c val s = Some (s', ms)"
    and "decode (labels, None) ms = Some ((labels', None), [item_of (path_of (es_ctxs s) c) val])"
    and "enc_inv s' labels'" and "relabel s s'" and "labelled_one cs s s'"
proof -
  note ok = enc_invD(1) [OF inv]
  from prepared [OF lru ok c] obtain s1 cs s2 where
    p: "path_components (length (es_ctxs s)) lru c s = Some (s1, cs)" "labelPathComponents lru cs s1 = Some s2"
      "relabel s s2" "chain (es_ctxs s) cs" "hd cs = c" "\<forall>x \<in> set (butlast cs). pos_of s x = 0"
      "pos_of s (last cs) = 0 \<longrightarrow> rc_PathParent (es_ctxs s ! last cs) = None"
      "pos_of s2 (last cs) = pos_of s (last cs)" "labelled_one cs s s2" .
  have ne: "cs \<noteq> []" using p(4) by auto
  have c0: "cs ! 0 = c" using p(5) ne by (simp add: hd_conv_nth)
  have ok2: "ctxs_ok (es_ctxs s2)" "clean_comps s2" "chain (es_ctxs s2) cs"
    using relabel_ok [OF p(3) ok] relabel_clean [OF p(3) enc_invD(2) [OF inv]] relabel_chain [OF p(3,4)] by simp_all
  have bound: "x < length (es_ctxs s)" if "x \<in> set cs" for x using chain_bound [OF p(4) that] .
  have comps: "\<forall>x \<in> set cs. comp s2 x \<noteq> None"
  proof
    fix x assume x: "x \<in> set cs"
    have "comp s x \<noteq> None"
    proof (cases "x = c")
      case False
      from x obtain i where i: "i < length cs" "cs ! i = x" by (meson in_set_conv_nth)
      then obtain k where k: "i = Suc k" using False c0 by (cases i) auto
      have "rc_PathParent (es_ctxs s ! (cs ! k)) = Some x" using chain_nth [OF p(4), of k] i k by simp
      moreover have "cs ! k < length (es_ctxs s)" using bound i(1) k by simp
      ultimately show ?thesis using ctxs_okD(1) [OF ok] by blast
    qed (use c(2) in simp)
    then show "comp s2 x \<noteq> None" using relabel_comp [OF p(3) bound [OF x]] by simp
  qed
  have lb: "last cs < length (es_ctxs s)" using bound [OF last_in_set [OF ne]] .
  have paths: "path_of (es_ctxs s2) c = path_of (es_ctxs s) c"
    "path_of (es_ctxs s2) (last cs) = path_of (es_ctxs s) (last cs)"
    using relabel_path_of [OF p(3) ok] c(1) lb by simp_all
  have enc: "encode_value lru c val s = Some (s2, ms)"
    if "merge_pos cs s2 = Some merge" "emit_loop cs merge val (length cs - (if merge then 2 else 1)) s2 = Some (s2, ms)"
    for merge ms
    using that p(1,2) by (simp add: encode_value_def)
  show thesis
  proof (cases "pos_of s (last cs) = 0")
    case True
    then have par: "rc_PathParent (es_ctxs s2 ! last cs) = None" and zero: "pos_of s2 (last cs) = 0"
      using p(3,7,8) lb by (auto simp: relabel_def)
    have "merge_pos cs s2 = Some False"
      using zero comps last_in_set [OF ne] by (auto simp: merge_pos_def pos_of_def split: option.splits)
    moreover from emit_from_root [OF ok2 em comps zero par, of labels] obtain ms where
      ms: "emit_loop cs False val (length cs - 1) s2 = Some (s2, ms)"
        "decode (labels, None) ms =
          Some ((define_labels s2 cs (length cs - 1) labels, None), [item_of (path_of (es_ctxs s2) (cs ! 0)) val])" by blast
    ultimately have "encode_value lru c val s = Some (s2, ms)" using enc [of False ms] by simp
    moreover have "enc_inv s2 (define_labels s2 cs (length cs - 1) labels)"
      by (rule labelled_one_inv [OF inv p(3,9,4) id p(6)]) (use zero ne in \<open>simp_all add: diff_le_mono2\<close>)
    ultimately show thesis using that [OF _ _ _ p(3,9)] ms(2) paths(1) unfolding c0 by metis
  next
    case False
    have two: "length cs \<noteq> 1"
    proof
      assume "length cs = 1"
      then have "last cs = c" using p(5) ne by (cases cs) auto
      then show False using False fresh by simp
    qed
    then obtain m where m: "length cs = Suc (Suc m)" using ne by (cases cs; cases "tl cs") auto
    have lab: "pos_of s2 (last cs) \<noteq> 0" "labels (pos_of s2 (last cs)) = Some (path_of (es_ctxs s2) (last cs))"
      using False p(8) enc_invD(4) [OF inv lb False] paths(2) by simp_all
    from emit_from_label [of s2 cs val m labels, OF ok2 em comps m lab] obtain merge ms where
      ms: "merge_pos cs s2 = Some merge" "emit_loop cs merge val (length cs - (if merge then 2 else 1)) s2 = Some (s2, ms)"
        "decode (labels, None) ms =
          Some ((define_labels s2 cs m labels, None), [item_of (path_of (es_ctxs s2) (cs ! 0)) val])" by blast
    have "enc_inv s2 (define_labels s2 cs m labels)"
      by (rule labelled_one_inv [OF inv p(3,9,4) id p(6)]) (simp_all add: m)
    then show thesis using that [OF enc [OF ms(1,2)] _ _ p(3,9)] ms(3) paths(1) unfolding c0 by metis
  qed
qed

lemma labelled_context_panics:
  assumes "keeps_recent lru" and "c < length (es_ctxs s)" and "pos_of s c \<noteq> 0"
  shows "encode_value lru c val s = None"
proof -
  from Put_renew [OF assms] obtain s' where s': "PathCache_Put lru c s = Some (s', False, pos_of s c)"
    "pos_of s' c = pos_of s c" by blast
  obtain pc where "comp s c = Some pc" "rv_pos_identifier pc \<noteq> 0"
    using assms(3) by (auto simp: pos_of_def split: option.splits)
  then have "path_components (length (es_ctxs s)) lru c s = Some (s', [c])"
    using s'(1) assms(2) by (cases "length (es_ctxs s)") (simp_all add: isPathRoot_def)
  moreover have "merge_pos [c] s' = None"
    using s'(2) assms(3) by (auto simp: merge_pos_def pos_of_def split: option.splits)
  ultimately show ?thesis by (simp add: encode_value_def labelPathComponents_def)
qed

text \<open>A context that is final is never labelled.\<close>

definition finals :: "'c enc_state \<Rightarrow> addr set" where
  "finals s = {c. c < length (es_ctxs s) \<and> rc_IsFinal (es_ctxs s ! c) \<and> comp s c \<noteq> None \<and> pos_of s c = 0}"

lemma labelled_one_finals:
  assumes "relabel s s2" and "labelled_one cs s s2" and "c \<in> finals s"
  shows "c \<in> finals s2"
proof -
  have c: "c < length (es_ctxs s)" "rc_IsFinal (es_ctxs s ! c)" "comp s c \<noteq> None" "pos_of s c = 0"
    using assms(3) by (simp_all add: finals_def)
  have "c < length (es_ctxs s2)" "rc_IsFinal (es_ctxs s2 ! c)" using assms(1) c(1,2) by (simp_all add: relabel_def)
  moreover have "comp s2 c \<noteq> None" using relabel_comp [OF assms(1) c(1)] c(3) by simp
  moreover have "pos_of s2 c = 0" using assms(2) c unfolding labelled_one_def by metis
  ultimately show ?thesis by (simp add: finals_def)
qed

lemma labelled_one_id: "labelled_one cs s s2 \<Longrightarrow> es_id s2 = es_id s \<or> es_id s2 = es_id s + 1"
  by (auto simp: labelled_one_def)

lemma decode_append:
  "decode st ms = Some (st', is) \<Longrightarrow> decode st (ms @ ms') = map_option (\<lambda>(st'', is'). (st'', is @ is')) (decode st' ms')"
proof (induction ms arbitrary: st "is")
  case (Cons m ms)
  obtain st1 is1 where d: "dec_step st m = Some (st1, is1)" using Cons.prems by (auto split: option.splits)
  then obtain is2 where "decode st1 ms = Some (st', is2)" "is = is1 @ is2" using Cons.prems by auto
  then show ?case using Cons.IH [of st1 is2] d by (simp add: option.map_comp o_def split_def)
qed (simp add: option.map_id)

definition item_at :: "rctx list \<Rightarrow> addr option \<times> Value \<Rightarrow> item list" where
  "item_at ctxs v = (case fst v of None \<Rightarrow> [] | Some c \<Rightarrow> [item_of (path_of ctxs c) (snd v)])"

lemma item_at_relabel:
  "relabel s s' \<Longrightarrow> ctxs_ok (es_ctxs s) \<Longrightarrow> (\<And>c. fst v = Some c \<Longrightarrow> c < length (es_ctxs s)) \<Longrightarrow>
    item_at (es_ctxs s') v = item_at (es_ctxs s) v"
  by (auto simp: item_at_def relabel_path_of split: option.split)

lemma final_stream:
  assumes "keeps_recent lru" and "enc_inv s labels" and "unat (es_id s) + length vals < 2 ^ 32"
    and "\<forall>(c, val) \<in> set vals. (\<forall>a. c = Some a \<longrightarrow> a \<in> finals s) \<and> emits val"
  shows "\<exists>s' ms labels'. Run lru vals s = Some (s', ms) \<and> enc_inv s' labels' \<and>
    decode (labels, None) ms = Some ((labels', None), concat (map (item_at (es_ctxs s)) vals))"
  using assms(2-4)
proof (induction vals arbitrary: s labels)
  case (Cons v vals)
  obtain co val where v: "v = (co, val)" by fastforce
  note ok = enc_invD(1) [OF Cons.prems(1)]
  show ?case
  proof (cases co)
    case None
    then show ?thesis using Cons v by (auto simp: item_at_def)
  next
    case (Some c)
    have em: "emits val" and c: "c \<in> finals s" using Cons.prems(3) v Some by auto
    have id: "es_id s \<noteq> - 1"
      by (rule u32_not_max) (use Cons.prems(2) in simp)
    have c1: "c < length (es_ctxs s)" "comp s c \<noteq> None" "pos_of s c = 0" using c by (simp_all add: finals_def)
    obtain s1 ms1 labels1 cs where
      one: "encode_value lru c val s = Some (s1, ms1)"
        "decode (labels, None) ms1 = Some ((labels1, None), [item_of (path_of (es_ctxs s) c) val])"
        "enc_inv s1 labels1" "relabel s s1" "labelled_one cs s s1"
      by (rule encode_one [OF assms(1) Cons.prems(1) id c1 em])
    have "unat (es_id s1) \<le> Suc (unat (es_id s))"
      using labelled_one_id [OF one(5)] unat_inc_u32 [OF id] by auto
    then have "unat (es_id s1) + length vals < 2 ^ 32" using Cons.prems(2) by simp
    moreover have fin: "\<forall>(c, val) \<in> set vals. (\<forall>a. c = Some a \<longrightarrow> a \<in> finals s1) \<and> emits val"
    proof
      fix w assume "w \<in> set vals"
      then have "case w of (c, val) \<Rightarrow> (\<forall>a. c = Some a \<longrightarrow> a \<in> finals s) \<and> emits val" using Cons.prems(3) by simp
      then show "case w of (c, val) \<Rightarrow> (\<forall>a. c = Some a \<longrightarrow> a \<in> finals s1) \<and> emits val"
        using labelled_one_finals [OF one(4,5)] by (cases w) simp
    qed
    ultimately obtain s' ms labels' where rest: "Run lru vals s1 = Some (s', ms)" "enc_inv s' labels'"
      "decode (labels1, None) ms = Some ((labels', None), concat (map (item_at (es_ctxs s1)) vals))"
      using Cons.IH [OF one(3)] by blast
    have maps: "map (item_at (es_ctxs s1)) vals = map (item_at (es_ctxs s)) vals"
    proof (rule map_cong [OF refl])
      fix w assume "w \<in> set vals"
      then have "case w of (c, val) \<Rightarrow> (\<forall>a. c = Some a \<longrightarrow> a \<in> finals s) \<and> emits val" using Cons.prems(3) by simp
      then have "\<And>c. fst w = Some c \<Longrightarrow> c < length (es_ctxs s)"
        by (cases w) (simp add: finals_def)
      then show "item_at (es_ctxs s1) w = item_at (es_ctxs s) w" by (rule item_at_relabel [OF one(4) ok])
    qed
    have "item_at (es_ctxs s) v = [item_of (path_of (es_ctxs s) c) val]" by (simp add: item_at_def v Some)
    then show ?thesis using one(1,2) rest(1,2) rest(3) [unfolded maps] v Some decode_append [OF one(2), of ms] by simp
  qed
qed simp

text \<open>
  C1: The stream of a sequence of values, decoded as the protocol says, is that sequence: every value
  and every error arrives, in order and at the path of its context, whatever has been labelled or
  evicted on the way. The values are those of contexts that are final, and the labels given out do
  not exhaust 32 bits.
\<close>

theorem stream_carries_every_value_to_its_path:
  assumes "keeps_recent lru" and "enc_inv s labels" and "unat (es_id s) + length vals < 2 ^ 32"
    and "\<forall>(c, val) \<in> set vals. (\<forall>a. c = Some a \<longrightarrow> a \<in> finals s) \<and> emits val"
  shows "\<exists>s' ms labels'. Run lru vals s = Some (s', ms) \<and> enc_inv s' labels' \<and>
    decode (labels, None) ms = Some ((labels', None), concat (map (item_at (es_ctxs s)) vals))"
  using assms by (rule final_stream)

text \<open>
  C32: The encoder goes down (the index \<open>-1\<close> of \<open>Run\<close>) at exactly the values whose own context
  carries a label: a context that is written while it is live is labelled by its first value, so
  its second value is one of these.
\<close>

theorem encoder_panics_exactly_at_labelled_contexts:
  assumes "keeps_recent lru" and "enc_inv s labels" and "es_id s \<noteq> - 1" and "c < length (es_ctxs s)"
    and "comp s c \<noteq> None" and "emits val"
  shows "encode_value lru c val s = None \<longleftrightarrow> pos_of s c \<noteq> 0"
  using labelled_context_panics [OF assms(1,4), of val] encode_one [OF assms(1-5) _ assms(6)] by (metis option.distinct(1))

subsection \<open>The encoder behind the resolvers\<close>

text \<open>The path components that the resolvers make, and where they write.\<close>

definition fresh_comps :: "rstate \<Rightarrow> bool" where
  "fresh_comps s \<longleftrightarrow>
     (\<forall>c < length (rs_ctxs s). \<forall>pc. rc_PathComponent (rs_ctxs s ! c) = Some pc \<longrightarrow>
        rv_pos_identifier pc = 0 \<and> rv_value pc = None \<and> rv_error pc = '''') \<and>
     (\<forall>e \<in> set (rs_written s). fst e < length (rs_ctxs s) \<and> rc_PathComponent (rs_ctxs s ! fst e) \<noteq> None)"

lemma fresh_comps_same:
  assumes "fresh_comps s" and "same_path (rs_ctxs s) cs"
  shows "fresh_comps (s\<lparr>rs_ctxs := cs\<rparr>)"
  using assms by (auto simp: fresh_comps_def same_path_def)

lemma fresh_comps_child:
  assumes "fresh_comps s" and "cs = rs_ctxs s @ [x]"
    and "\<And>pc. rc_PathComponent x = Some pc \<Longrightarrow> rv_pos_identifier pc = 0 \<and> rv_value pc = None \<and> rv_error pc = ''''"
  shows "fresh_comps (s\<lparr>rs_ctxs := cs\<rparr>)"
  using assms by (auto simp: fresh_comps_def nth_append less_Suc_eq)

lemma child_append:
  "FieldChild t c q s = (cs, child) \<Longrightarrow> \<exists>x. cs = s @ [x] \<and>
     rc_PathComponent x = Some (zero_value\<lparr>rv_query_node_id := tn_Id (node t q)\<rparr>)"
  "ArrayChild c i s = (cs, child) \<Longrightarrow> \<exists>x. cs = s @ [x] \<and>
     rc_PathComponent x = Some (zero_value\<lparr>rv_array_index := i + 1\<rparr>)"
  "VirtualChild c s = (cs, child) \<Longrightarrow> \<exists>x. cs = s @ [x] \<and> rc_PathComponent x = None"
  by (auto simp: FieldChild_def ArrayChild_def VirtualChild_def baseChild_def upd_at_def)

lemma contexts_run_fresh: "contexts_run t s \<Longrightarrow> fresh_comps s"
proof (induction rule: contexts_run.induct)
  case (new q)
  show ?case by (simp add: fresh_comps_def NewContext_def)
next
  case (writes s c fuel val isFinal s')
  have ok: "ctxs_ok (rs_ctxs s)" using contexts_run_ok [OF writes.hyps(1)] by blast
  from WriteValue_result [OF ok writes.hyps(2), of fuel val isFinal] writes.hyps(3) obtain b where
    b: "write_target (rs_ctxs s) c = Some b" "rs_written s' = rs_written s @ [(b, val)]" "same_path (rs_ctxs s) (rs_ctxs s')"
    by (auto split: option.splits simp del: WriteValue.simps)
  have w: "b < length (rs_ctxs s) \<and> rc_PathComponent (rs_ctxs s ! b) \<noteq> None"
    using b(1) ctxs_okD(1) [OF ok writes.hyps(2), of b] writes.hyps(2) by (auto simp: write_target_def split: if_splits)
  have same: "length (rs_ctxs s') = length (rs_ctxs s)"
    "\<And>x. x < length (rs_ctxs s) \<Longrightarrow> rc_PathComponent (rs_ctxs s' ! x) = rc_PathComponent (rs_ctxs s ! x)"
    using b(3) by (simp_all add: same_path_def)
  show ?case using writes.IH w same unfolding fresh_comps_def b(2) by auto
next
  case (mark s c cs)
  then show ?case using MarkFinal_result [of "rs_ctxs s" c] contexts_run_ok [OF mark.hyps(1)]
    by (auto intro: fresh_comps_same)
next
  case (field s c q cs child)
  then show ?case using child_append(1) [OF field.hyps(3)] by (auto intro: fresh_comps_child simp: zero_value_def)
next
  case (array s c i cs child)
  then show ?case using child_append(2) [OF array.hyps(3)] by (auto intro: fresh_comps_child simp: zero_value_def)
next
  case (virtual s c cs child)
  then show ?case using child_append(3) [OF virtual.hyps(3)] by (auto intro: fresh_comps_child)
next
  case (purge s c)
  then show ?case by (auto simp: fresh_comps_def Purge_def nth_upd_at)
qed

text \<open>A new encoder over the contexts of the resolvers.\<close>

lemma NewResultEncoder_inv:
  assumes "contexts_run t s"
  shows "enc_inv (NewResultEncoder (rs_ctxs s) cache) labels"
    and "c < length (rs_ctxs s) \<Longrightarrow> pos_of (NewResultEncoder (rs_ctxs s) cache) c = 0"
proof -
  note fresh = contexts_run_fresh [OF assms]
  show pos: "pos_of (NewResultEncoder (rs_ctxs s) cache) c = 0" if "c < length (rs_ctxs s)" for c
    using fresh that by (auto simp: fresh_comps_def pos_of_def NewResultEncoder_def split: option.split)
  have "clean_comps (NewResultEncoder (rs_ctxs s) cache)"
    using fresh by (simp add: fresh_comps_def clean_comps_def NewResultEncoder_def)
  then show "enc_inv (NewResultEncoder (rs_ctxs s) cache) labels"
    using contexts_run_ok [OF assms] pos unfolding enc_inv_def by (simp add: NewResultEncoder_def)
qed


subsection \<open>A sample\<close>

text \<open>An LRU cache of two entries, the most recent first.\<close>

definition lru_pair :: "(u32 \<times> addr) list lru_add" where
  "lru_pair k a cache = (let l = (k, a) # filter (\<lambda>e. fst e \<noteq> k) cache
     in (take 2 l, if length l > 2 then Some (l ! 2) else None))"

lemma lru_pair_keeps_recent: "keeps_recent lru_pair"
  unfolding keeps_recent_def
proof (intro conjI allI impI)
  fix k a c k' x assume "snd (lru_pair k a c) = Some (k', x)"
  then have "(k', x) \<in> set (filter (\<lambda>e. fst e \<noteq> k) c)"
    using nth_mem [of 1 "filter (\<lambda>e. fst e \<noteq> k) c"] by (auto simp: lru_pair_def Let_def split: if_splits)
  then show "k' \<noteq> k" by auto
next
  fix k1 a1 k2 a2 c k' x assume e: "snd (lru_pair k2 a2 (fst (lru_pair k1 a1 c))) = Some (k', x)"
  let ?l = "filter (\<lambda>e. fst e \<noteq> k1) c"
  show "k' \<noteq> k1"
  proof (cases ?l)
    case Nil
    then show ?thesis using e by (auto simp: lru_pair_def Let_def split: if_splits)
  next
    case (Cons y ys)
    then have "fst y \<noteq> k1" using Cons_eq_filterD [OF Cons [symmetric]] by blast
    then show ?thesis using e Cons by (auto simp: lru_pair_def Let_def split: if_splits)
  qed
qed

text \<open>The contexts of the root, of an object field, of its list field, and of two elements that are final.\<close>

definition field_ctx :: "addr option \<Rightarrow> bool \<Rightarrow> RGQLValue option \<Rightarrow> rctx" where
  "field_ctx parent final pc = \<lparr>rc_cancelled = False, rc_derived = parent, rc_QNode = Some 0, rc_PathParent = parent,
     rc_PathComponent = pc, rc_IsFinal = final, rc_ActiveChildren = 0\<rparr>"

definition enc0 :: "(u32 \<times> addr) list enc_state" where
  "enc0 = NewResultEncoder
     [field_ctx None False None,
      field_ctx None False (Some (zero_value\<lparr>rv_query_node_id := 4\<rparr>)),
      field_ctx (Some 1) False (Some (zero_value\<lparr>rv_query_node_id := 5\<rparr>)),
      field_ctx (Some 2) True (Some (zero_value\<lparr>rv_array_index := 1\<rparr>)),
      field_ctx (Some 2) True (Some (zero_value\<lparr>rv_array_index := 2\<rparr>))] []"

lemma enc0_inv: "enc_inv enc0 (\<lambda>_. None)"
proof -
  have "ctxs_ok (es_ctxs enc0)"
    by (auto simp: ctxs_ok_def enc0_def NewResultEncoder_def field_ctx_def less_Suc_eq numeral_eq_Suc)
  moreover have "clean_comps enc0"
    by (auto simp: clean_comps_def enc0_def NewResultEncoder_def field_ctx_def less_Suc_eq numeral_eq_Suc)
  moreover have "pos_of enc0 c = 0" if "c < length (es_ctxs enc0)" for c
    using that by (auto simp: pos_of_def enc0_def NewResultEncoder_def field_ctx_def less_Suc_eq numeral_eq_Suc zero_value_def)
  ultimately show ?thesis by (simp add: enc_inv_def enc0_def NewResultEncoder_def)
qed

definition enc0_vals :: "(addr option \<times> Value) list" where
  "enc0_vals = [(Some 3, BuildIntValue 7), (None, BuildNullValue), (Some 4, BuildErrorValue ''e'')]"

text \<open>The second element refers to the label that the path of the first has given to the list.\<close>

definition enc0_stream :: "RGQLValue list" where
  "enc0_stream =
     [zero_value\<lparr>rv_query_node_id := 4\<rparr>,
      zero_value\<lparr>rv_query_node_id := 5, rv_pos_identifier := 1\<rparr>,
      zero_value\<lparr>rv_array_index := 1, rv_value := val_Value (BuildIntValue 7)\<rparr>,
      zero_value\<lparr>rv_array_index := 2, rv_pos_identifier := 1, rv_error := ''e''\<rparr>]"

theorem stream_carries_every_value_to_its_path_witness:
  "(\<exists>s' ms labels'. Run lru_pair enc0_vals enc0 = Some (s', ms) \<and> enc_inv s' labels' \<and>
      decode (\<lambda>_. None, None) ms = Some ((labels', None),
        [([(4, 0), (5, 0), (0, 1)], val_Value (BuildIntValue 7), ''''), ([(4, 0), (5, 0), (0, 2)], None, ''e'')])) \<and>
   map_option snd (Run lru_pair enc0_vals enc0) = Some enc0_stream"
proof
  have items: "concat (map (item_at (es_ctxs enc0)) enc0_vals) =
      [([(4, 0), (5, 0), (0, 1)], val_Value (BuildIntValue 7), ''''), ([(4, 0), (5, 0), (0, 2)], None, ''e'')]" by code_simp
  have fin: "3 \<in> finals enc0" "4 \<in> finals enc0"
    by (simp_all add: finals_def enc0_def NewResultEncoder_def field_ctx_def pos_of_def zero_value_def)
  show "\<exists>s' ms labels'. Run lru_pair enc0_vals enc0 = Some (s', ms) \<and> enc_inv s' labels' \<and>
      decode (\<lambda>_. None, None) ms = Some ((labels', None),
        [([(4, 0), (5, 0), (0, 1)], val_Value (BuildIntValue 7), ''''), ([(4, 0), (5, 0), (0, 2)], None, ''e'')])"
    unfolding items [symmetric]
    by (rule stream_carries_every_value_to_its_path [OF lru_pair_keeps_recent enc0_inv])
       (use fin in \<open>auto simp: enc0_vals_def emits_def BuildIntValue_def BuildErrorValue_def BuildNullValue_def
          enc0_def NewResultEncoder_def\<close>)
  show "map_option snd (Run lru_pair enc0_vals enc0) = Some enc0_stream" by code_simp
qed

text \<open>The list itself, written while it is live: the first value gets through and labels it.\<close>

theorem encoder_panics_exactly_at_labelled_contexts_witness:
  "encode_value lru_pair 2 BuildNullValue enc0 \<noteq> None \<and>
   pos_of (fst (the (encode_value lru_pair 2 BuildNullValue enc0))) 2 = 1 \<and>
   Run lru_pair [(Some 2, BuildNullValue), (Some 2, BuildNullValue)] enc0 = None"
proof (intro conjI)
  have "pos_of enc0 2 = 0" "2 < length (es_ctxs enc0)" "comp enc0 2 \<noteq> None" "es_id enc0 \<noteq> - 1" "emits BuildNullValue"
    by (simp_all add: enc0_def NewResultEncoder_def field_ctx_def pos_of_def zero_value_def emits_def BuildNullValue_def)
  then show "encode_value lru_pair 2 BuildNullValue enc0 \<noteq> None"
    using encoder_panics_exactly_at_labelled_contexts [OF lru_pair_keeps_recent enc0_inv] by blast
qed code_simp+

text \<open>The field of the root and the field of that, each written by its resolver.\<close>

definition run3 :: rstate where
  "run3 = the (WriteValue (Suc (Suc 0)) 2 (BuildBoolValue True) True run2)"


end
