(* ===== verification/ResultTree.thy ===== *)
theory ResultTree
  imports QueryAttach Encoder
begin

text \<open>
  \<open>client/result-tree.go\<close>, \<open>result-tree-node.go\<close>, \<open>result-tree-handler.go\<close>, \<open>path-cursor.go\<close>,
  \<open>path-cache.go\<close>: the client's tree of results. Nodes and cursors are objects in lists, addressed
  by their index; the root node and the root cursor have the address 0. A \<open>ResultTreeHandler\<close> is
  an interface: its method is the parameter \<open>handle\<close>, which may change a state of its own, the
  \<open>world\<close>. The LRU cache of the library is the pair of parameters \<open>cget\<close> and \<open>cadd\<close>, which return
  the new cache, and the cursor found or the entry evicted. The query tree is only read.

  \<open>HandleValue\<close> also clears \<open>PosIdentifier\<close> in the caller's message, which is not modelled.
\<close>

subsection \<open>Nodes, cursors and the tree\<close>

record rtNode =
  rt_value :: RGQLValue
  rt_children :: "addr list"

definition newRtNode :: "RGQLValue \<Rightarrow> rtNode" where
  "newRtNode val = \<lparr>rt_value = val, rt_children = []\<rparr>"

record 'h PathCursor =
  pc_qnode :: addr
  pc_rnode :: addr
  pc_resultHandlers :: "'h list"
  pc_outOfBounds :: bool

definition NewPathCursor :: "addr \<Rightarrow> addr \<Rightarrow> 'h PathCursor" where
  "NewPathCursor qnode rnode = \<lparr>pc_qnode = qnode, pc_rnode = rnode, pc_resultHandlers = [], pc_outOfBounds = False\<rparr>"

record ('h, 'w, 'c) ResultTree =
  re_nodes :: "rtNode list"
  re_cursors :: "'h PathCursor list"
  re_cursor :: "addr option"
  re_pathCache :: 'c
  re_handlers :: "('h \<times> addr list) list"
  re_cachedCursors :: "(addr \<times> addr list) list"
  re_world :: 'w

type_synonym ('h, 'w) handle = "'h \<Rightarrow> RGQLValue \<Rightarrow> 'w \<Rightarrow> 'w \<times> 'h option"
type_synonym 'c cache_get = "u32 \<Rightarrow> 'c \<Rightarrow> 'c \<times> addr option"
type_synonym 'c cache_add = "u32 \<Rightarrow> addr \<Rightarrow> 'c \<Rightarrow> 'c \<times> (u32 \<times> addr) option"

datatype result_error = CacheStrategyUnsupported | UnknownPosition u32

definition NewResultTree :: "i32 \<Rightarrow> 'c \<Rightarrow> 'w \<Rightarrow> result_error + ('h, 'w, 'c) ResultTree" where
  "NewResultTree cacheStrategy cache world =
     (if cacheStrategy \<noteq> CACHE_LRU then Inl CacheStrategyUnsupported
      else Inr \<lparr>re_nodes = [newRtNode zero_value], re_cursors = [NewPathCursor 0 0], re_cursor = None,
        re_pathCache = cache, re_handlers = [], re_cachedCursors = [], re_world = world\<rparr>)"

abbreviation rnode :: "('h, 'w, 'c) ResultTree \<Rightarrow> addr \<Rightarrow> rtNode" where
  "rnode s n \<equiv> re_nodes s ! n"

abbreviation rcursor :: "('h, 'w, 'c) ResultTree \<Rightarrow> addr \<Rightarrow> 'h PathCursor" where
  "rcursor s c \<equiv> re_cursors s ! c"

definition upd_cursor :: "addr \<Rightarrow> ('h PathCursor \<Rightarrow> 'h PathCursor) \<Rightarrow> ('h, 'w, 'c) ResultTree \<Rightarrow> ('h, 'w, 'c) ResultTree" where
  "upd_cursor c f s = s\<lparr>re_cursors := upd_at c f (re_cursors s)\<rparr>"

subsection \<open>Cursors (path-cursor.go)\<close>

primrec handle_all :: "('h, 'w) handle \<Rightarrow> RGQLValue \<Rightarrow> 'h list \<Rightarrow> 'w \<Rightarrow> 'w \<times> 'h list" where
  "handle_all handle val [] w = (w, [])"
| "handle_all handle val (h # hs) w =
     (case handle h val w of
        (w', next) \<Rightarrow>
          (case handle_all handle val hs w' of
             (w'', hs') \<Rightarrow> (w'', case next of None \<Rightarrow> hs' | Some h' \<Rightarrow> h' # hs')))"

text \<open>The node of the segment: a new child, or the node found, which takes a value.\<close>

definition place_node :: "RGQLValue \<Rightarrow> addr \<Rightarrow> addr option \<Rightarrow> rtNode list \<Rightarrow> rtNode list \<times> addr" where
  "place_node val n rtn nodes =
     (case rtn of
        None \<Rightarrow> (upd_at n (\<lambda>x. x\<lparr>rt_children := rt_children x @ [length nodes]\<rparr>) nodes @ [newRtNode val], length nodes)
      | Some r \<Rightarrow> (if rv_value val \<noteq> None then upd_at r (\<lambda>x. x\<lparr>rt_value := val\<rparr>) nodes else nodes, r))"

definition Apply ::
  "QueryTree \<Rightarrow> ('h, 'w) handle \<Rightarrow> RGQLValue \<Rightarrow> addr \<Rightarrow> ('h, 'w, 'c) ResultTree \<Rightarrow> ('h, 'w, 'c) ResultTree" where
  "Apply q handle val c s =
     (let cur = rcursor s c;
          by_key = (\<lambda>key. find (\<lambda>child. key (rt_value (rnode s child))) (rt_children (rnode s (pc_rnode cur))));
          rest = (\<lambda>qnode rtn.
            (case place_node val (pc_rnode cur) rtn (re_nodes s) of
               (nodes, r) \<Rightarrow>
                 (case handle_all handle val (pc_resultHandlers cur) (re_world s) of
                    (w, hs) \<Rightarrow>
                      upd_cursor c (\<lambda>_. cur\<lparr>pc_qnode := qnode, pc_resultHandlers := hs, pc_rnode := r\<rparr>)
                        (s\<lparr>re_nodes := nodes, re_world := w\<rparr>))))
      in if pc_outOfBounds cur then s
         else if rv_query_node_id val \<noteq> 0 then
           (case lookupChildByID q (pc_qnode cur) (rv_query_node_id val) of
              None \<Rightarrow> upd_cursor c (\<lambda>x. x\<lparr>pc_outOfBounds := True\<rparr>) s
            | Some nqn \<Rightarrow> rest nqn (by_key (\<lambda>v. rv_query_node_id v = rv_query_node_id val)))
         else if rv_array_index val \<noteq> 0 then
           rest (pc_qnode cur) (by_key (\<lambda>v. rv_array_index v = rv_array_index val))
         else rest (pc_qnode cur) (Some (pc_rnode cur)))"

definition Clone :: "addr \<Rightarrow> ('h, 'w, 'c) ResultTree \<Rightarrow> ('h, 'w, 'c) ResultTree \<times> addr" where
  "Clone c s = (s\<lparr>re_cursors := re_cursors s @ [rcursor s c]\<rparr>, length (re_cursors s))"

subsection \<open>Eviction (result-tree.go, path-cache.go)\<close>

text \<open>The loop over a list of cursors that removes one of them.\<close>

definition drop_cursor :: "addr \<Rightarrow> addr list \<Rightarrow> addr list" where
  "drop_cursor c cs =
     (case find (\<lambda>i. cs ! i = c) [0..<length cs] of None \<Rightarrow> cs | Some i \<Rightarrow> swap_remove i cs)"

definition drop_from_handlers :: "addr \<Rightarrow> 'h list \<Rightarrow> ('h \<times> addr list) list \<Rightarrow> ('h \<times> addr list) list" where
  "drop_from_handlers c hs m =
     fold (\<lambda>h m. case map_of m h of None \<Rightarrow> m | Some cs \<Rightarrow> AList.update h (drop_cursor c cs) m) hs m"

definition handleCursorEvict :: "addr \<Rightarrow> ('h, 'w, 'c) ResultTree \<Rightarrow> ('h, 'w, 'c) ResultTree" where
  "handleCursorEvict c s =
     (let rn = pc_rnode (rcursor s c);
          cached = (case map_of (re_cachedCursors s) rn of
                      None \<Rightarrow> re_cachedCursors s
                    | Some cs \<Rightarrow>
                        if drop_cursor c cs \<noteq> [] then AList.update rn (drop_cursor c cs) (re_cachedCursors s)
                        else AList.delete rn (re_cachedCursors s))
      in s\<lparr>re_cachedCursors := cached,
           re_handlers := drop_from_handlers c (pc_resultHandlers (rcursor s c)) (re_handlers s)\<rparr>)"

definition PathCache_Set :: "'c cache_add \<Rightarrow> u32 \<Rightarrow> addr \<Rightarrow> ('h, 'w, 'c) ResultTree \<Rightarrow> ('h, 'w, 'c) ResultTree" where
  "PathCache_Set cadd key c s =
     (case cadd key c (re_pathCache s) of
        (cache, None) \<Rightarrow> s\<lparr>re_pathCache := cache\<rparr>
      | (cache, Some (k, evicted)) \<Rightarrow> handleCursorEvict evicted (s\<lparr>re_pathCache := cache\<rparr>))"

definition PathCache_Get :: "'c cache_get \<Rightarrow> u32 \<Rightarrow> ('h, 'w, 'c) ResultTree \<Rightarrow> ('h, 'w, 'c) ResultTree \<times> addr option" where
  "PathCache_Get cget key s =
     (case cget key (re_pathCache s) of (cache, found) \<Rightarrow> (s\<lparr>re_pathCache := cache\<rparr>, found))"

subsection \<open>Values (HandleValue)\<close>

definition HandleValue ::
  "QueryTree \<Rightarrow> ('h, 'w) handle \<Rightarrow> 'c cache_get \<Rightarrow> 'c cache_add \<Rightarrow> RGQLValue \<Rightarrow>
     ('h, 'w, 'c) ResultTree \<Rightarrow> ('h, 'w, 'c) ResultTree \<times> result_error option" where
  "HandleValue q handle cget cadd va s =
     (if re_cursor s = None \<and> rv_pos_identifier va \<noteq> 0 then
        (case PathCache_Get cget (rv_pos_identifier va) s of
           (s1, None) \<Rightarrow> (s1, Some (UnknownPosition (rv_pos_identifier va)))
         | (s1, Some posIDCursor) \<Rightarrow>
             (case Clone posIDCursor s1 of
                (s2, c) \<Rightarrow>
                  (if rv_value va \<noteq> None
                   then (Apply q handle (zero_value\<lparr>rv_value := rv_value va\<rparr>) c s2)\<lparr>re_cursor := None\<rparr>
                   else s2\<lparr>re_cursor := Some c\<rparr>, None)))
      else
        (case (case re_cursor s of Some c \<Rightarrow> (s, c) | None \<Rightarrow> Clone 0 s) of
           (s1, c) \<Rightarrow>
             (let s2 = Apply q handle va c (s1\<lparr>re_cursor := Some c\<rparr>);
                  s3 = (if rv_pos_identifier va \<noteq> 0
                        then (case Clone c s2 of (s', c') \<Rightarrow> PathCache_Set cadd (rv_pos_identifier va) c' s') else s2)
              in (if rv_value va \<noteq> None then s3\<lparr>re_cursor := None\<rparr> else s3, None))))"

text \<open>The values of a stream, up to the first error.\<close>

primrec HandleValues ::
  "QueryTree \<Rightarrow> ('h, 'w) handle \<Rightarrow> 'c cache_get \<Rightarrow> 'c cache_add \<Rightarrow> RGQLValue list \<Rightarrow>
     ('h, 'w, 'c) ResultTree \<Rightarrow> ('h, 'w, 'c) ResultTree \<times> result_error option" where
  "HandleValues q handle cget cadd [] s = (s, None)"
| "HandleValues q handle cget cadd (va # vas) s =
     (case HandleValue q handle cget cadd va s of
        (s', None) \<Rightarrow> HandleValues q handle cget cadd vas s'
      | (s', Some e) \<Rightarrow> (s', Some e))"

subsection \<open>Handlers (AddResultHandler, RemoveResultHandler)\<close>

primrec fold_some :: "('a \<Rightarrow> 's \<Rightarrow> 's option) \<Rightarrow> 'a list \<Rightarrow> 's \<Rightarrow> 's option" where
  "fold_some f [] s = Some s"
| "fold_some f (x # xs) s = Option.bind (f x s) (fold_some f xs)"

text \<open>The fuel bounds the depth of the tree; \<open>None\<close> means that it was not enough.\<close>

primrec callHandler ::
  "nat \<Rightarrow> ('h, 'w) handle \<Rightarrow> (addr \<Rightarrow> 'h \<Rightarrow> ('h, 'w, 'c) ResultTree \<Rightarrow> ('h, 'w, 'c) ResultTree) \<Rightarrow>
     addr \<Rightarrow> 'h \<Rightarrow> ('h, 'w, 'c) ResultTree \<Rightarrow> ('h, 'w, 'c) ResultTree option" where
  "callHandler 0 handle cb n handler s = None"
| "callHandler (Suc fuel) handle cb n handler s =
     fold_some (\<lambda>child s.
        case handle handler (rt_value (rnode s child)) (re_world s) of
          (w, None) \<Rightarrow> Some (s\<lparr>re_world := w\<rparr>)
        | (w, Some nextHandler) \<Rightarrow>
            callHandler fuel handle cb child nextHandler (cb child nextHandler (s\<lparr>re_world := w\<rparr>)))
      (rt_children (rnode s n)) s"

text \<open>The callback of \<open>AddResultHandler\<close>.\<close>

definition bind_cached :: "addr \<Rightarrow> 'h \<Rightarrow> ('h, 'w, 'c) ResultTree \<Rightarrow> ('h, 'w, 'c) ResultTree" where
  "bind_cached rtn h s =
     (let cursors = (case map_of (re_cachedCursors s) rtn of None \<Rightarrow> [] | Some cs \<Rightarrow> cs);
          handlerCursors = (case map_of (re_handlers s) h of None \<Rightarrow> [] | Some cs \<Rightarrow> cs)
      in (fold (\<lambda>c. upd_cursor c (\<lambda>x. x\<lparr>pc_resultHandlers := pc_resultHandlers x @ [h]\<rparr>)) cursors s)
           \<lparr>re_handlers := AList.update h (handlerCursors @ cursors) (re_handlers s)\<rparr>)"

definition AddResultHandler ::
  "('h, 'w) handle \<Rightarrow> 'h \<Rightarrow> ('h, 'w, 'c) ResultTree \<Rightarrow> ('h, 'w, 'c) ResultTree option" where
  "AddResultHandler handle h s =
     (if map_of (re_handlers s) h \<noteq> None then Some s
      else callHandler (length (re_nodes s)) handle bind_cached 0 h
        (upd_cursor 0 (\<lambda>x. x\<lparr>pc_resultHandlers := pc_resultHandlers x @ [h]\<rparr>)
          (s\<lparr>re_handlers := AList.update h [] (re_handlers s)\<rparr>)))"

definition rmFromResultHandlers :: "'h \<Rightarrow> 'h list \<Rightarrow> 'h list" where
  "rmFromResultHandlers handler rhs =
     (case find (\<lambda>i. rhs ! i = handler) [0..<length rhs] of None \<Rightarrow> rhs | Some i \<Rightarrow> swap_remove i rhs)"

definition RemoveResultHandler :: "'h \<Rightarrow> ('h, 'w, 'c) ResultTree \<Rightarrow> ('h, 'w, 'c) ResultTree" where
  "RemoveResultHandler handler s =
     (case map_of (re_handlers s) handler of
        None \<Rightarrow> s
      | Some cursors \<Rightarrow>
          (let rm = (\<lambda>c. upd_cursor c (\<lambda>x. x\<lparr>pc_resultHandlers := rmFromResultHandlers handler (pc_resultHandlers x)\<rparr>))
           in rm 0 ((fold rm cursors s)\<lparr>re_handlers := AList.delete handler (re_handlers s)\<rparr>)))"

subsection \<open>The tree of results as a map from paths\<close>

text \<open>The step by which a child is found, and the node at the end of a path.\<close>

definition key_of :: "RGQLValue \<Rightarrow> u32 \<times> u32" where
  "key_of v = (rv_query_node_id v, rv_array_index v)"

definition rchild :: "rtNode list \<Rightarrow> addr \<Rightarrow> u32 \<times> u32 \<Rightarrow> addr option" where
  "rchild nodes n k = find (\<lambda>c. key_of (rt_value (nodes ! c)) = k) (rt_children (nodes ! n))"

fun walk :: "rtNode list \<Rightarrow> addr \<Rightarrow> path \<Rightarrow> addr option" where
  "walk nodes n [] = Some n"
| "walk nodes n (k # p) = Option.bind (rchild nodes n k) (\<lambda>c. walk nodes c p)"

definition value_at :: "rtNode list \<Rightarrow> path \<Rightarrow> RGQLPrimitive option" where
  "value_at nodes p = Option.bind (walk nodes 0 p) (\<lambda>n. rv_value (rt_value (nodes ! n)))"

text \<open>
  The form of the tree: children lie behind their parent, no node has two parents, siblings
  differ in their steps, and a step is a query node or an array element.
\<close>

definition one_step :: "RGQLValue \<Rightarrow> bool" where
  "one_step v \<longleftrightarrow> (rv_query_node_id v = 0) \<noteq> (rv_array_index v = 0)"

definition results_ok :: "rtNode list \<Rightarrow> bool" where
  "results_ok nodes \<longleftrightarrow> nodes \<noteq> [] \<and>
     (\<forall>n < length nodes. \<forall>c \<in> set (rt_children (nodes ! n)). n < c \<and> c < length nodes \<and> one_step (rt_value (nodes ! c)) \<and>
        (\<forall>m < length nodes. c \<in> set (rt_children (nodes ! m)) \<longrightarrow> m = n)) \<and>
     (\<forall>n < length nodes. distinct (map (\<lambda>c. key_of (rt_value (nodes ! c))) (rt_children (nodes ! n))))"

lemma results_okD:
  assumes "results_ok nodes"
  shows "nodes \<noteq> []"
    and "n < length nodes \<Longrightarrow> c \<in> set (rt_children (nodes ! n)) \<Longrightarrow> n < c \<and> c < length nodes"
    and "n < length nodes \<Longrightarrow> c \<in> set (rt_children (nodes ! n)) \<Longrightarrow> one_step (rt_value (nodes ! c))"
    and "n < length nodes \<Longrightarrow> c \<in> set (rt_children (nodes ! n)) \<Longrightarrow> m < length nodes \<Longrightarrow>
      c \<in> set (rt_children (nodes ! m)) \<Longrightarrow> m = n"
    and "n < length nodes \<Longrightarrow> distinct (map (\<lambda>c. key_of (rt_value (nodes ! c))) (rt_children (nodes ! n)))"
  using assms unfolding results_ok_def by blast+

lemma rchild_some:
  "rchild nodes n k = Some c \<Longrightarrow> c \<in> set (rt_children (nodes ! n)) \<and> key_of (rt_value (nodes ! c)) = k"
  by (auto simp: rchild_def find_Some_iff)

lemma rchild_bound:
  assumes "results_ok nodes" and "n < length nodes" and "rchild nodes n k = Some c"
  shows "n < c" and "c < length nodes"
  using results_okD(2) [OF assms(1,2)] rchild_some [OF assms(3)] by blast+

lemma rchild_iff:
  assumes "results_ok nodes" and "n < length nodes"
  shows "rchild nodes n k = Some c \<longleftrightarrow> c \<in> set (rt_children (nodes ! n)) \<and> key_of (rt_value (nodes ! c)) = k"
proof
  assume r: "c \<in> set (rt_children (nodes ! n)) \<and> key_of (rt_value (nodes ! c)) = k"
  then obtain c' where c': "rchild nodes n k = Some c'"
    unfolding rchild_def by (cases "find (\<lambda>c. key_of (rt_value (nodes ! c)) = k) (rt_children (nodes ! n))") (auto simp: find_None_iff)
  then have "c' \<in> set (rt_children (nodes ! n))" "key_of (rt_value (nodes ! c')) = k" using rchild_some by blast+
  then have "c' = c" using results_okD(5) [OF assms] r by (auto simp: distinct_map inj_on_def)
  then show "rchild nodes n k = Some c" using c' by simp
qed (rule rchild_some)

lemma walk_append: "walk nodes n (p @ q) = Option.bind (walk nodes n p) (\<lambda>m. walk nodes m q)"
  by (induction p arbitrary: n) (auto split: bind_splits)

lemma walk_bound: "results_ok nodes \<Longrightarrow> n < length nodes \<Longrightarrow> walk nodes n p = Some m \<Longrightarrow> n \<le> m \<and> m < length nodes"
proof (induction p arbitrary: n)
  case (Cons k p)
  then obtain c where c: "rchild nodes n k = Some c" "walk nodes c p = Some m" by (auto split: bind_splits)
  then show ?case using Cons.IH [OF Cons.prems(1) _ c(2)] rchild_bound [OF Cons.prems(1,2) c(1)] by simp
qed simp

text \<open>A node is at the end of one path only.\<close>

lemma walk_inj:
  assumes ok: "results_ok nodes" and n: "n < length nodes"
  shows "walk nodes n p = Some m \<Longrightarrow> walk nodes n q = Some m \<Longrightarrow> p = q"
proof (induction p arbitrary: q m rule: rev_induct)
  case Nil
  have "q = []"
  proof (rule ccontr)
    assume "q \<noteq> []"
    then obtain k q' where q: "q = k # q'" by (cases q) auto
    then obtain c where "rchild nodes n k = Some c" "walk nodes c q' = Some n" using Nil by (auto split: bind_splits)
    then show False using rchild_bound [OF ok n] walk_bound [OF ok] by (metis leD)
  qed
  then show ?case by simp
next
  case (snoc k p)
  obtain a where a: "walk nodes n p = Some a" "rchild nodes a k = Some m"
    using snoc.prems(1) by (auto simp: walk_append split: bind_splits)
  have al: "n \<le> a" "a < length nodes" using walk_bound [OF ok n a(1)] by simp_all
  note m = rchild_some [OF a(2)]
  show ?case
  proof (cases q rule: rev_cases)
    case Nil
    then show ?thesis using snoc.prems(2) rchild_bound(1) [OF ok al(2) a(2)] al(1) by simp
  next
    case (snoc q' k')
    obtain b where b: "walk nodes n q' = Some b" "rchild nodes b k' = Some m"
      using snoc.prems(2) snoc by (auto simp: walk_append split: bind_splits)
    have bl: "b < length nodes" using walk_bound [OF ok n b(1)] by simp
    have "b = a" using results_okD(4) [OF ok al(2) _ bl] m rchild_some [OF b(2)] by blast
    then have "p = q'" "k = k'" using \<open>\<And>m q. walk nodes n p = Some m \<Longrightarrow> walk nodes n q = Some m \<Longrightarrow> p = q\<close> a(1) b m rchild_some [OF b(2)] by blast+
    then show ?thesis using snoc by simp
  qed
qed

lemma place_new:
  assumes ok: "results_ok nodes" and n: "n < length nodes" and none: "rchild nodes n (key_of val) = None"
    and one: "one_step val" and pl: "place_node val n None nodes = (nodes', r)"
  shows "results_ok nodes'" and "r = length nodes" and "length nodes' = Suc (length nodes)"
    and "m < length nodes \<Longrightarrow> rt_value (nodes' ! m) = rt_value (nodes ! m)" and "rt_value (nodes' ! r) = val"
    and "m < length nodes \<Longrightarrow> rchild nodes' m k = (if m = n \<and> k = key_of val then Some r else rchild nodes m k)"
    and "rchild nodes' r k = None"
proof -
  let ?L = "length nodes"
  have nodes': "nodes' = upd_at n (\<lambda>x. x\<lparr>rt_children := rt_children x @ [?L]\<rparr>) nodes @ [newRtNode val]" and r: "r = ?L"
    using pl by (auto simp: place_node_def)
  show "r = ?L" "length nodes' = Suc ?L" using r nodes' by simp_all
  have kids: "rt_children (nodes' ! m) = (if m = n then rt_children (nodes ! n) @ [?L] else rt_children (nodes ! m))"
    if "m < ?L" for m using that by (simp add: nodes' nth_append nth_upd_at)
  have last: "rt_children (nodes' ! ?L) = []" "rt_value (nodes' ! ?L) = val" by (simp_all add: nodes' newRtNode_def nth_append)
  show vals: "rt_value (nodes' ! m) = rt_value (nodes ! m)" if "m < ?L" for m
    using that by (simp add: nodes' nth_append nth_upd_at)
  show "rt_value (nodes' ! r) = val" using last r by simp
  show "rchild nodes' r k = None" using last r by (simp add: rchild_def)
  have old: "m < c \<and> c < ?L" if "m < ?L" "c \<in> set (rt_children (nodes ! m))" for m c using results_okD(2) [OF ok that] .
  have keys: "map (\<lambda>c. key_of (rt_value (nodes' ! c))) (rt_children (nodes ! m)) =
      map (\<lambda>c. key_of (rt_value (nodes ! c))) (rt_children (nodes ! m))" if "m < ?L" for m
    using vals old [OF that] by simp
  have fresh: "key_of val \<notin> (\<lambda>c. key_of (rt_value (nodes ! c))) ` set (rt_children (nodes ! n))"
    using none by (auto simp: rchild_def find_None_iff)
  have same: "find (\<lambda>c. key_of (rt_value (nodes' ! c)) = k) (rt_children (nodes ! m)) = rchild nodes m k" if "m < ?L" for m k
    unfolding rchild_def by (rule find_cong [OF refl]) (use vals old [OF that] in simp)
  show "rchild nodes' m k = (if m = n \<and> k = key_of val then Some r else rchild nodes m k)" if "m < ?L" for m k
  proof (cases "m = n")
    case True
    have fa: "find P (xs @ [x]) = (case find P xs of None \<Rightarrow> if P x then Some x else None | Some y \<Rightarrow> Some y)" for P and xs :: "addr list" and x
      by (induction xs) auto
    show ?thesis
      using same [OF n, of k] none last r True unfolding True rchild_def [of nodes' n] kids [OF n]
      by (simp add: fa split: option.split)
  next
    case False
    then show ?thesis using same [OF that] kids [OF that] by (simp add: rchild_def [of nodes'])
  qed
  show "results_ok nodes'"
    unfolding results_ok_def
  proof (intro conjI allI impI ballI)
    show "nodes' \<noteq> []" by (simp add: nodes')
  next
    fix m c assume m: "m < length nodes'" and c: "c \<in> set (rt_children (nodes' ! m))"
    have ml: "m < ?L" using m c last by (cases "m = ?L") (auto simp: nodes')
    have c': "c = ?L \<and> m = n \<or> c \<in> set (rt_children (nodes ! m))" using c kids [OF ml] by (auto split: if_splits)
    show "m < c" "c < length nodes'" using c' old [OF ml, of c] ml by (auto simp: nodes')
    show "one_step (rt_value (nodes' ! c))"
      using c' last one results_okD(3) [OF ok ml] old [OF ml] vals by auto
    fix m' assume m': "m' < length nodes'" and cm': "c \<in> set (rt_children (nodes' ! m'))"
    have ml': "m' < ?L" using m' cm' last by (cases "m' = ?L") (auto simp: nodes')
    have "c = ?L \<and> m' = n \<or> c \<in> set (rt_children (nodes ! m'))" using cm' kids [OF ml'] by (auto split: if_splits)
    then show "m' = m" using c' results_okD(4) [OF ok ml _ ml'] old [OF ml] old [OF ml'] by auto
  next
    fix m assume m: "m < length nodes'"
    show "distinct (map (\<lambda>c. key_of (rt_value (nodes' ! c))) (rt_children (nodes' ! m)))"
    proof (cases "m = ?L")
      case False
      then have ml: "m < ?L" using m by (simp add: nodes')
      have "distinct (map (\<lambda>c. key_of (rt_value (nodes' ! c))) (rt_children (nodes ! m)))"
        unfolding keys [OF ml] using results_okD(5) [OF ok ml] .
      moreover have "(\<lambda>c. key_of (rt_value (nodes' ! c))) ` set (rt_children (nodes ! n)) =
          (\<lambda>c. key_of (rt_value (nodes ! c))) ` set (rt_children (nodes ! n))"
        using arg_cong [OF keys [OF n], of set] by simp
      ultimately show ?thesis using kids [OF ml] last fresh by (cases "m = n") simp_all
    qed (simp add: last)
  qed
qed

lemma place_old:
  assumes ok: "results_ok nodes" and n: "n < length nodes" and r: "rchild nodes n (key_of val) = Some r"
    and pl: "place_node val n (Some r) nodes = (nodes', r')"
  shows "results_ok nodes'" and "r' = r" and "length nodes' = length nodes" and "rchild nodes' m k = rchild nodes m k"
    and "m < length nodes \<Longrightarrow> rt_value (nodes' ! m) = (if m = r \<and> rv_value val \<noteq> None then val else rt_value (nodes ! m))"
proof -
  have nodes': "nodes' = (if rv_value val \<noteq> None then upd_at r (\<lambda>x. x\<lparr>rt_value := val\<rparr>) nodes else nodes)" and r': "r' = r"
    using pl by (simp_all add: place_node_def)
  have kr: "key_of (rt_value (nodes ! r)) = key_of val" using rchild_some [OF r] by simp
  have rl: "r < length nodes" using rchild_bound(2) [OF ok n r] .
  show "r' = r" "length nodes' = length nodes" using r' nodes' by simp_all
  show "m < length nodes \<Longrightarrow> rt_value (nodes' ! m) = (if m = r \<and> rv_value val \<noteq> None then val else rt_value (nodes ! m))" for m
    by (simp add: nodes' nth_upd_at)
  have kids: "rt_children (nodes' ! m) = rt_children (nodes ! m)" for m
    unfolding nodes' by (cases "m = r") (simp_all add: nth_upd_at rl)
  have keys: "key_of (rt_value (nodes' ! m)) = key_of (rt_value (nodes ! m))" for m
    using kr unfolding nodes' by (cases "m = r") (simp_all add: nth_upd_at rl)
  have os: "one_step (rt_value (nodes' ! m)) = one_step (rt_value (nodes ! m))" for m
    using keys [of m] by (simp add: one_step_def key_of_def)
  have len: "length nodes' = length nodes" by (simp add: nodes')
  then have ne: "(nodes' \<noteq> []) = (nodes \<noteq> [])" by auto
  show "results_ok nodes'" using ok unfolding results_ok_def len kids keys os ne .
  show "rchild nodes' m k = rchild nodes m k" by (simp add: rchild_def kids keys)
qed

text \<open>A segment with a step moves to the node at the longer path, and a value is stored there.\<close>

definition placed :: "RGQLValue \<Rightarrow> path \<Rightarrow> rtNode list \<Rightarrow> rtNode list \<Rightarrow> addr \<Rightarrow> bool" where
  "placed val p nodes nodes' r \<longleftrightarrow> results_ok nodes' \<and> walk nodes' 0 (p @ [key_of val]) = Some r \<and>
     (\<forall>p'. p' \<noteq> p @ [key_of val] \<longrightarrow> walk nodes' 0 p' = walk nodes 0 p' \<and> value_at nodes' p' = value_at nodes p') \<and>
     value_at nodes' (p @ [key_of val]) =
       (if rv_value val \<noteq> None then rv_value val else value_at nodes (p @ [key_of val]))"

lemma place_placed:
  assumes ok: "results_ok nodes" and at: "walk nodes 0 p = Some n" and one: "one_step val"
    and pl: "place_node val n (rchild nodes n (key_of val)) nodes = (nodes', r)"
  shows "placed val p nodes nodes' r"
proof -
  have z: "0 < length nodes" using results_okD(1) [OF ok] by simp
  have n: "n < length nodes" using walk_bound [OF ok z at] by simp
  show ?thesis
  proof (cases "rchild nodes n (key_of val)")
    case None
    note new = place_new [OF ok n None one pl [unfolded None]]
    have w: "walk nodes' 0 p' = (if p' = p @ [key_of val] then Some r else walk nodes 0 p')" for p'
    proof (induction p' rule: rev_induct)
      case (snoc k q)
      show ?case
      proof (cases "q = p @ [key_of val]")
        case True
        have "walk nodes 0 q = None" using at None unfolding True by (simp add: walk_append)
        moreover have "walk nodes' 0 q = Some r" using snoc.IH True by simp
        ultimately have "walk nodes' 0 (q @ [k]) = None \<and> walk nodes 0 (q @ [k]) = None"
          using new(7) by (simp add: walk_append [of _ _ q])
        then show ?thesis using True by simp
      next
        case False
        show ?thesis
        proof (cases "walk nodes 0 q")
          case (Some m)
          then have m: "m < length nodes" using walk_bound [OF ok z] by blast
          have "m = n \<longleftrightarrow> q = p" using walk_inj [OF ok z _ at, of q] Some at by auto
          then show ?thesis using snoc.IH False Some new(6) [OF m, of k] by (auto simp: walk_append)
        qed (use snoc.IH False at in \<open>auto simp: walk_append\<close>)
      qed
    qed simp
    have "value_at nodes' p' = value_at nodes p'" if "p' \<noteq> p @ [key_of val]" for p'
      using w that new(4) walk_bound [OF ok z] by (auto simp: value_at_def split: bind_splits)
    moreover have "value_at nodes (p @ [key_of val]) = None" using at None by (simp add: value_at_def walk_append)
    moreover have "value_at nodes' (p @ [key_of val]) = rv_value val" using w new(5) by (simp add: value_at_def)
    ultimately show ?thesis using new(1) w by (simp add: placed_def)
  next
    case (Some r0)
    note old = place_old [OF ok n Some pl [unfolded Some]]
    have w: "walk nodes' m p' = walk nodes m p'" for m p' by (induction p' arbitrary: m) (simp_all add: old(4))
    have at': "walk nodes 0 (p @ [key_of val]) = Some r" using at Some old(2) by (simp add: walk_append)
    have "value_at nodes' p' = value_at nodes p'" if "p' \<noteq> p @ [key_of val]" for p'
    proof (cases "walk nodes 0 p'")
      case (Some m)
      then have "m < length nodes" "m \<noteq> r0" using walk_bound [OF ok z] walk_inj [OF ok z Some] at' that old(2) by blast+
      then show ?thesis using Some w old(5) by (simp add: value_at_def)
    qed (simp add: value_at_def w)
    moreover have "r < length nodes" using walk_bound [OF ok z at'] by simp
    ultimately show ?thesis using old(1,2,5) w at' by (simp add: placed_def value_at_def)
  qed
qed

subsection \<open>The cursor and the stream\<close>

text \<open>The query node at the end of a path: array indices stay at the node of the list.\<close>

fun qwalk :: "QueryTree \<Rightarrow> addr \<Rightarrow> path \<Rightarrow> addr option" where
  "qwalk q n [] = Some n"
| "qwalk q n ((i, a) # p) = (if i = 0 then qwalk q n p else Option.bind (lookupChildByID q n i) (\<lambda>c. qwalk q c p))"

lemma qwalk_append: "qwalk q n (p @ p') = Option.bind (qwalk q n p) (\<lambda>m. qwalk q m p')"
  by (induction q n p rule: qwalk.induct) (auto split: bind_splits)

text \<open>A segment without a label, whose value, if any, comes with a step.\<close>

definition plain :: "RGQLValue \<Rightarrow> bool" where
  "plain m \<longleftrightarrow> rv_pos_identifier m = 0 \<and> rv_error m = '''' \<and> (step_of m = [] \<longrightarrow> rv_value m = None) \<and>
     (rv_query_node_id m = 0 \<or> rv_array_index m = 0)"

definition cursor_at :: "QueryTree \<Rightarrow> rtNode list \<Rightarrow> 'h PathCursor \<Rightarrow> path \<Rightarrow> bool" where
  "cursor_at q nodes k p \<longleftrightarrow>
     (if pc_outOfBounds k then qwalk q 0 p = None
      else qwalk q 0 p = Some (pc_qnode k) \<and> walk nodes 0 p = Some (pc_rnode k))"

definition store_item :: "QueryTree \<Rightarrow> item \<Rightarrow> (path \<Rightarrow> RGQLPrimitive option) \<Rightarrow> path \<Rightarrow> RGQLPrimitive option" where
  "store_item q it f = (case it of (p, v, e) \<Rightarrow> if qwalk q 0 p = None then f else f(p := v))"

lemma find_by_key:
  assumes "results_ok nodes" and "n < length nodes" and "plain m"
  shows "rv_query_node_id m \<noteq> 0 \<Longrightarrow>
      find (\<lambda>c. rv_query_node_id (rt_value (nodes ! c)) = rv_query_node_id m) (rt_children (nodes ! n)) = rchild nodes n (key_of m)"
    and "rv_query_node_id m = 0 \<Longrightarrow> rv_array_index m \<noteq> 0 \<Longrightarrow>
      find (\<lambda>c. rv_array_index (rt_value (nodes ! c)) = rv_array_index m) (rt_children (nodes ! n)) = rchild nodes n (key_of m)"
proof -
  have one: "one_step (rt_value (nodes ! c))" if "c \<in> set (rt_children (nodes ! n))" for c
    using results_okD(3) [OF assms(1,2) that] .
  show "find (\<lambda>c. rv_query_node_id (rt_value (nodes ! c)) = rv_query_node_id m) (rt_children (nodes ! n)) = rchild nodes n (key_of m)"
    if "rv_query_node_id m \<noteq> 0"
    unfolding rchild_def
    by (rule find_cong [OF refl]) (use one that assms(3) in \<open>force simp: one_step_def key_of_def plain_def\<close>)
  show "find (\<lambda>c. rv_array_index (rt_value (nodes ! c)) = rv_array_index m) (rt_children (nodes ! n)) = rchild nodes n (key_of m)"
    if "rv_query_node_id m = 0" "rv_array_index m \<noteq> 0"
    unfolding rchild_def
    by (rule find_cong [OF refl]) (use one that assms(3) in \<open>force simp: one_step_def key_of_def plain_def\<close>)
qed

lemma upd_cursor_simps [simp]:
  "re_nodes (upd_cursor c f s) = re_nodes s" "re_cursor (upd_cursor c f s) = re_cursor s"
  "re_pathCache (upd_cursor c f s) = re_pathCache s" "re_handlers (upd_cursor c f s) = re_handlers s"
  "re_cachedCursors (upd_cursor c f s) = re_cachedCursors s" "re_world (upd_cursor c f s) = re_world s"
  "length (re_cursors (upd_cursor c f s)) = length (re_cursors s)"
  "c' < length (re_cursors s) \<Longrightarrow> rcursor (upd_cursor c f s) c' = (if c' = c then f (rcursor s c) else rcursor s c')"
  by (simp_all add: upd_cursor_def nth_upd_at)

lemma Apply_frame [simp]:
  "re_cursor (Apply q handle m c s) = re_cursor s" "re_pathCache (Apply q handle m c s) = re_pathCache s"
  "re_handlers (Apply q handle m c s) = re_handlers s" "re_cachedCursors (Apply q handle m c s) = re_cachedCursors s"
  "length (re_cursors (Apply q handle m c s)) = length (re_cursors s)"
  "c' < length (re_cursors s) \<Longrightarrow> c' \<noteq> c \<Longrightarrow> rcursor (Apply q handle m c s) c' = rcursor s c'"
  by (simp_all add: Apply_def Let_def split: prod.split option.split)

text \<open>The ways in which a segment moves the cursor.\<close>

definition advance ::
  "('h, 'w) handle \<Rightarrow> RGQLValue \<Rightarrow> addr \<Rightarrow> addr \<Rightarrow> addr option \<Rightarrow> ('h, 'w, 'c) ResultTree \<Rightarrow> ('h, 'w, 'c) ResultTree" where
  "advance handle val c qn rtn s =
     (case place_node val (pc_rnode (rcursor s c)) rtn (re_nodes s) of
        (nodes, r) \<Rightarrow>
          (case handle_all handle val (pc_resultHandlers (rcursor s c)) (re_world s) of
             (w, hs) \<Rightarrow>
               upd_cursor c (\<lambda>_. (rcursor s c)\<lparr>pc_qnode := qn, pc_resultHandlers := hs, pc_rnode := r\<rparr>)
                 (s\<lparr>re_nodes := nodes, re_world := w\<rparr>)))"

lemma Apply_alt:
  "Apply q handle val c s =
     (let k = rcursor s c; kids = rt_children (rnode s (pc_rnode k)) in
      if pc_outOfBounds k then s
      else if rv_query_node_id val \<noteq> 0 then
        (case lookupChildByID q (pc_qnode k) (rv_query_node_id val) of
           None \<Rightarrow> upd_cursor c (\<lambda>x. x\<lparr>pc_outOfBounds := True\<rparr>) s
         | Some nqn \<Rightarrow>
             advance handle val c nqn (find (\<lambda>x. rv_query_node_id (rt_value (rnode s x)) = rv_query_node_id val) kids) s)
      else if rv_array_index val \<noteq> 0 then
        advance handle val c (pc_qnode k) (find (\<lambda>x. rv_array_index (rt_value (rnode s x)) = rv_array_index val) kids) s
      else advance handle val c (pc_qnode k) (Some (pc_rnode k)) s)"
  by (simp add: Apply_def advance_def Let_def split: option.split)

lemma Apply_cases:
  assumes "P s" and "P (upd_cursor c (\<lambda>x. x\<lparr>pc_outOfBounds := True\<rparr>) s)"
    and "\<And>qn. P (advance handle val c qn (Some (pc_rnode (rcursor s c))) s)"
    and "\<And>qn Q. P (advance handle val c qn (find Q (rt_children (rnode s (pc_rnode (rcursor s c))))) s)"
  shows "P (Apply q handle val c s)"
  unfolding Apply_alt Let_def using assms by (simp split: option.split)

lemma advance_world:
  assumes "handle_all handle val (pc_resultHandlers (rcursor s c)) (re_world s) = (w, hs)"
  shows "\<exists>r nodes. advance handle val c qn rtn s =
     upd_cursor c (\<lambda>_. (rcursor s c)\<lparr>pc_qnode := qn, pc_resultHandlers := hs, pc_rnode := r\<rparr>) (s\<lparr>re_nodes := nodes, re_world := w\<rparr>)"
  using assms by (auto simp: advance_def split: prod.split)

lemma step_of_key: "step_of m \<noteq> [] \<Longrightarrow> step_of m = [key_of m]"
  by (auto simp: step_of_def key_of_def)

lemma Apply_result:
  assumes ok: "results_ok (re_nodes s)" and c: "c < length (re_cursors s)" and m: "plain m"
    and at: "cursor_at q (re_nodes s) (rcursor s c) p"
    and s'_def: "s' = Apply q handle m c s"
  shows "results_ok (re_nodes s') \<and> cursor_at q (re_nodes s') (rcursor s' c) (p @ step_of m) \<and>
    value_at (re_nodes s') =
      (if rv_value m \<noteq> None then store_item q (p @ step_of m, rv_value m, '''') (value_at (re_nodes s)) else value_at (re_nodes s))"
proof -
  define k where "k = rcursor s c"
  show ?thesis
  proof (cases "pc_outOfBounds k")
    case True
    have "s' = s" using True unfolding s'_def Apply_def Let_def k_def by simp
    moreover have "qwalk q 0 (p @ step_of m) = None" using at True k_def by (simp add: cursor_at_def qwalk_append)
    ultimately show ?thesis using ok at True k_def by (auto simp: cursor_at_def store_item_def)
  next
    case False
    have q: "qwalk q 0 p = Some (pc_qnode k)" and w: "walk (re_nodes s) 0 p = Some (pc_rnode k)"
      using at False k_def by (simp_all add: cursor_at_def)
    have n: "pc_rnode k < length (re_nodes s)"
      using walk_bound [OF ok _ w] results_okD(1) [OF ok] by simp
    define moved where "moved = (\<lambda>qn rtn. advance handle m c qn rtn s)"
    have step: ?thesis if mv: "s' = moved qn (rchild (re_nodes s) (pc_rnode k) (key_of m))" and st: "step_of m = [key_of m]"
      and qn: "qwalk q 0 (p @ step_of m) = Some qn" for qn
    proof -
      have one: "one_step m" using m st by (auto simp: plain_def one_step_def step_of_def split: if_splits)
      obtain nodes r where pl: "place_node m (pc_rnode k) (rchild (re_nodes s) (pc_rnode k) (key_of m)) (re_nodes s) = (nodes, r)" by fastforce
      obtain w hs where h: "handle_all handle m (pc_resultHandlers k) (re_world s) = (w, hs)" by fastforce
      have s': "s' = upd_cursor c (\<lambda>_. k\<lparr>pc_qnode := qn, pc_resultHandlers := hs, pc_rnode := r\<rparr>) (s\<lparr>re_nodes := nodes, re_world := w\<rparr>)"
        using mv pl h by (simp add: moved_def advance_def k_def [symmetric])
      note pp = place_placed [OF ok w one pl, unfolded placed_def]
      have "re_nodes s' = nodes" and "rcursor s' c = k\<lparr>pc_qnode := qn, pc_resultHandlers := hs, pc_rnode := r\<rparr>"
        using c by (simp_all add: s')
      moreover have "value_at nodes = (if rv_value m \<noteq> None then (value_at (re_nodes s))(p @ [key_of m] := rv_value m)
          else value_at (re_nodes s))"
      proof
        fix x
        show "value_at nodes x = (if rv_value m \<noteq> None then (value_at (re_nodes s))(p @ [key_of m] := rv_value m)
            else value_at (re_nodes s)) x" using pp by (cases "x = p @ [key_of m]") simp_all
      qed
      ultimately show ?thesis using pp qn st False by (simp add: cursor_at_def store_item_def)
    qed
    show ?thesis
    proof (cases "rv_query_node_id m = 0")
      case True
      show ?thesis
      proof (cases "rv_array_index m = 0")
        case False
        have st: "step_of m = [key_of m]" using False by (simp add: step_of_def key_of_def)
        have "s' = moved (pc_qnode k) (rchild (re_nodes s) (pc_rnode k) (key_of m))"
          using True False \<open>\<not> pc_outOfBounds k\<close> find_by_key(2) [OF ok n m True False]
          by (simp add: s'_def Apply_alt Let_def k_def [symmetric] moved_def)
        moreover have "qwalk q 0 (p @ step_of m) = Some (pc_qnode k)" using q st True by (simp add: qwalk_append key_of_def)
        ultimately show ?thesis using step st by blast
      next
        case arr: True
        have st: "step_of m = []" using True arr by (simp add: step_of_def)
        then have v: "rv_value m = None" using m by (simp add: plain_def)
        have "s' = moved (pc_qnode k) (Some (pc_rnode k))"
          using True arr \<open>\<not> pc_outOfBounds k\<close> by (simp add: s'_def Apply_alt Let_def k_def [symmetric] moved_def)
        then have "re_nodes s' = re_nodes s" "pc_qnode (rcursor s' c) = pc_qnode k" "pc_rnode (rcursor s' c) = pc_rnode k"
            "\<not> pc_outOfBounds (rcursor s' c)"
          using c v False by (simp_all add: moved_def advance_def k_def [symmetric] place_node_def split: prod.split)
        then show ?thesis using ok q w st v by (simp add: cursor_at_def)
      qed
    next
      case False
      have st: "step_of m = [key_of m]" using False by (simp add: step_of_def key_of_def)
      have qw: "qwalk q 0 (p @ step_of m) = lookupChildByID q (pc_qnode k) (rv_query_node_id m)"
        using q st False by (simp add: qwalk_append key_of_def)
      show ?thesis
      proof (cases "lookupChildByID q (pc_qnode k) (rv_query_node_id m)")
        case None
        have s': "s' = upd_cursor c (\<lambda>x. x\<lparr>pc_outOfBounds := True\<rparr>) s"
          using False None \<open>\<not> pc_outOfBounds k\<close> by (simp add: s'_def Apply_def Let_def k_def [symmetric])
        show ?thesis using c ok qw None by (simp add: s' cursor_at_def store_item_def)
      next
        case (Some nqn)
        have "s' = moved nqn (rchild (re_nodes s) (pc_rnode k) (key_of m))"
          using False Some \<open>\<not> pc_outOfBounds k\<close> find_by_key(1) [OF ok n m False]
          by (simp add: s'_def Apply_alt Let_def k_def [symmetric] moved_def)
        then show ?thesis using step st qw Some by simp
      qed
    qed
  qed
qed

text \<open>The tree and its cursors: the root cursor never moves.\<close>

definition tree_at :: "QueryTree \<Rightarrow> ('h, 'w, 'c) ResultTree \<Rightarrow> path option \<Rightarrow> bool" where
  "tree_at q s cur \<longleftrightarrow> results_ok (re_nodes s) \<and> re_cursors s \<noteq> [] \<and>
     pc_qnode (rcursor s 0) = 0 \<and> pc_rnode (rcursor s 0) = 0 \<and> \<not> pc_outOfBounds (rcursor s 0) \<and>
     (case re_cursor s of
        None \<Rightarrow> cur = None
      | Some c \<Rightarrow> 0 < c \<and> c < length (re_cursors s) \<and> (\<exists>p. cur = Some p \<and> cursor_at q (re_nodes s) (rcursor s c) p))"

lemma tree_atD:
  assumes "tree_at q s cur"
  shows "results_ok (re_nodes s)" and "re_cursors s \<noteq> []"
    and "pc_qnode (rcursor s 0) = 0" "pc_rnode (rcursor s 0) = 0" "\<not> pc_outOfBounds (rcursor s 0)"
    and "re_cursor s = None \<Longrightarrow> cur = None"
    and "re_cursor s = Some c \<Longrightarrow> 0 < c \<and> c < length (re_cursors s) \<and> (\<exists>p. cur = Some p \<and> cursor_at q (re_nodes s) (rcursor s c) p)"
  using assms unfolding tree_at_def by (simp_all split: option.splits)

lemma Clone_simps [simp]:
  "re_nodes (fst (Clone c s)) = re_nodes s" "re_cursor (fst (Clone c s)) = re_cursor s"
  "re_cursors (fst (Clone c s)) = re_cursors s @ [rcursor s c]" "snd (Clone c s) = length (re_cursors s)"
  "re_handlers (fst (Clone c s)) = re_handlers s" "re_cachedCursors (fst (Clone c s)) = re_cachedCursors s"
  "re_pathCache (fst (Clone c s)) = re_pathCache s" "re_world (fst (Clone c s)) = re_world s"
  by (simp_all add: Clone_def)

text \<open>The cursor that a segment of a path is applied to.\<close>

definition current :: "('h, 'w, 'c) ResultTree \<Rightarrow> ('h, 'w, 'c) ResultTree \<times> addr" where
  "current s = (case re_cursor s of Some c \<Rightarrow> (s, c) | None \<Rightarrow> Clone 0 s)"

lemma HandleValue_plain:
  assumes "rv_pos_identifier m = 0"
  shows "HandleValue q handle cget cadd m s =
    (let c = snd (current s); s2 = Apply q handle m c ((fst (current s))\<lparr>re_cursor := Some c\<rparr>)
     in (if rv_value m \<noteq> None then s2\<lparr>re_cursor := None\<rparr> else s2, None))"
  using assms by (auto simp: HandleValue_def current_def Let_def split: prod.split option.split)

lemma HandleValue_next:
  assumes "\<not> (re_cursor s = None \<and> rv_pos_identifier va \<noteq> 0)" and "current s = (s1, c)"
  shows "HandleValue q handle cget cadd va s =
    (let s2 = Apply q handle va c (s1\<lparr>re_cursor := Some c\<rparr>);
         s3 = (if rv_pos_identifier va \<noteq> 0
               then PathCache_Set cadd (rv_pos_identifier va) (length (re_cursors s2)) (fst (Clone c s2)) else s2)
     in (if rv_value va \<noteq> None then s3\<lparr>re_cursor := None\<rparr> else s3, None))"
proof -
  have "(case re_cursor s of Some c \<Rightarrow> (s, c) | None \<Rightarrow> Clone 0 s) = (s1, c)" using assms(2) by (simp add: current_def)
  moreover have "case_prod f (Clone c s') = f (fst (Clone c s')) (length (re_cursors s'))"
    for f :: "('a, 'b, 'c) ResultTree \<Rightarrow> addr \<Rightarrow> ('a, 'b, 'c) ResultTree" and s' by (simp add: Clone_def)
  ultimately show ?thesis using assms(1) by (auto simp: HandleValue_def Let_def)
qed

lemma HandleValue_label:
  assumes "re_cursor s = None" and "rv_pos_identifier va \<noteq> 0" and "cget (rv_pos_identifier va) (re_pathCache s) = (cache, Some p)"
  shows "HandleValue q handle cget cadd va s =
    (let s2 = fst (Clone p (s\<lparr>re_pathCache := cache\<rparr>)); c = length (re_cursors s)
     in (if rv_value va \<noteq> None then (Apply q handle (zero_value\<lparr>rv_value := rv_value va\<rparr>) c s2)\<lparr>re_cursor := None\<rparr>
         else s2\<lparr>re_cursor := Some c\<rparr>, None))"
  using assms by (simp add: HandleValue_def PathCache_Get_def Clone_def)

lemma plain_step:
  assumes at: "tree_at q s cur" and m: "plain m"
  shows "\<exists>s' cur' items. HandleValue q handle cget cadd m s = (s', None) \<and>
    dec_step (labels, cur) m = Some ((labels, cur'), items) \<and> tree_at q s' cur' \<and>
    value_at (re_nodes s') = fold (store_item q) items (value_at (re_nodes s))"
proof -
  note D = tree_atD [OF at]
  define base where "base = (case cur of None \<Rightarrow> [] | Some p \<Rightarrow> p)"
  obtain s1 c where cur: "current s = (s1, c)" by fastforce
  have s1: "re_nodes s1 = re_nodes s" "0 < c" "c < length (re_cursors s1)" "cursor_at q (re_nodes s1) (rcursor s1 c) base"
    "re_cursors s1 \<noteq> []" "rcursor s1 0 = rcursor s 0"
  proof -
    have "re_nodes s1 = re_nodes s \<and> 0 < c \<and> c < length (re_cursors s1) \<and> cursor_at q (re_nodes s1) (rcursor s1 c) base \<and>
      re_cursors s1 \<noteq> [] \<and> rcursor s1 0 = rcursor s 0"
    proof (cases "re_cursor s")
      case None
      have "s1 = fst (Clone 0 s)" "c = length (re_cursors s)" using cur None by (simp_all add: current_def Clone_def)
      then show ?thesis using D(1-5) D(6) [OF None]
        by (simp add: base_def cursor_at_def nth_append)
    next
      case (Some c')
      then show ?thesis using cur D(2) D(7) [OF Some] by (auto simp: current_def base_def)
    qed
    then show "re_nodes s1 = re_nodes s" "0 < c" "c < length (re_cursors s1)" "cursor_at q (re_nodes s1) (rcursor s1 c) base"
      "re_cursors s1 \<noteq> []" "rcursor s1 0 = rcursor s 0" by blast+
  qed
  define s2 where "s2 = Apply q handle m c (s1\<lparr>re_cursor := Some c\<rparr>)"
  have ap: "results_ok (re_nodes s2) \<and> cursor_at q (re_nodes s2) (rcursor s2 c) (base @ step_of m) \<and>
    value_at (re_nodes s2) = (if rv_value m \<noteq> None
      then store_item q (base @ step_of m, rv_value m, '''') (value_at (re_nodes s)) else value_at (re_nodes s))"
    using Apply_result [of "s1\<lparr>re_cursor := Some c\<rparr>" c m q base s2 handle] s1 D(1) m s2_def by simp
  have root: "rcursor s2 0 = rcursor s 0" "length (re_cursors s2) = length (re_cursors s1)" "re_cursor s2 = Some c"
    using s1(2,5,6) by (simp_all add: s2_def)
  have hv: "HandleValue q handle cget cadd m s = (if rv_value m \<noteq> None then s2\<lparr>re_cursor := None\<rparr> else s2, None)"
    using m by (simp add: HandleValue_plain plain_def cur Let_def s2_def)
  have dec: "dec_step (labels, cur) m = Some (if rv_value m \<noteq> None
      then ((labels, None), [(base @ step_of m, rv_value m, '''')]) else ((labels, Some (base @ step_of m)), []))"
    using m by (simp add: dec_step_def base_def plain_def Let_def split: option.split)
  have ne: "re_cursors s2 \<noteq> []" using root(2) s1(5) by (metis length_0_conv)
  show ?thesis
  proof (cases "rv_value m = None")
    case True
    have "tree_at q s2 (Some (base @ step_of m))"
      using ap root ne D(3-5) s1(2,3) by (simp add: tree_at_def)
    then show ?thesis using True hv dec ap by simp
  next
    case False
    have "tree_at q (s2\<lparr>re_cursor := None\<rparr>) None" using ap root ne D(3-5) by (simp add: tree_at_def)
    then show ?thesis using False hv dec ap by (intro exI [of _ "s2\<lparr>re_cursor := None\<rparr>"]) simp
  qed
qed

lemma plain_stream:
  assumes "tree_at q s cur" and "\<forall>m \<in> set ms. plain m"
  shows "\<exists>s' cur' items. HandleValues q handle cget cadd ms s = (s', None) \<and>
    decode (labels, cur) ms = Some ((labels, cur'), items) \<and> tree_at q s' cur' \<and>
    value_at (re_nodes s') = fold (store_item q) items (value_at (re_nodes s))"
  using assms
proof (induction ms arbitrary: s cur)
  case (Cons m ms)
  from plain_step [OF Cons.prems(1), of m handle cget cadd labels] Cons.prems(2) obtain s1 cur1 it1 where
    one: "HandleValue q handle cget cadd m s = (s1, None)" "dec_step (labels, cur) m = Some ((labels, cur1), it1)"
      "tree_at q s1 cur1" "value_at (re_nodes s1) = fold (store_item q) it1 (value_at (re_nodes s))" by auto
  from Cons.IH [OF one(3)] Cons.prems(2) obtain s2 cur2 it2 where
    "HandleValues q handle cget cadd ms s1 = (s2, None)" "decode (labels, cur1) ms = Some ((labels, cur2), it2)"
      "tree_at q s2 cur2" "value_at (re_nodes s2) = fold (store_item q) it2 (value_at (re_nodes s1))" by auto
  then show ?case using one by simp
qed simp

subsection \<open>Labels on the client\<close>

lemma find_unique: "c \<in> set xs \<Longrightarrow> (\<And>x. x \<in> set xs \<Longrightarrow> P x \<longleftrightarrow> x = c) \<Longrightarrow> find P xs = Some c"
  by (induction xs) auto

text \<open>A node that is given a value without a step is lost: no path leads to it any more.\<close>

lemma bare_value_unlinks:
  assumes ok: "results_ok nodes" and at: "walk nodes 0 p = Some r" and p: "p \<noteq> []" and v: "key_of v = (0, 0)"
    and nodes': "nodes' = upd_at r (\<lambda>x. x\<lparr>rt_value := v\<rparr>) nodes"
  shows "walk nodes' 0 (p @ p') = None"
proof -
  have z: "0 < length nodes" using results_okD(1) [OF ok] by simp
  have r: "r < length nodes" using walk_bound [OF ok z at] by simp
  have kids: "rt_children (nodes' ! m) = rt_children (nodes ! m)" for m
    unfolding nodes' by (cases "m = r") (simp_all add: nth_upd_at r)
  have keys: "key_of (rt_value (nodes' ! m)) = (if m = r then (0, 0) else key_of (rt_value (nodes ! m)))" for m
    unfolding nodes' using v by (cases "m = r") (simp_all add: nth_upd_at r)
  have one: "key_of (rt_value (nodes ! c)) \<noteq> (0, 0)" if "n < length nodes" "c \<in> set (rt_children (nodes ! n))" for n c
    using results_okD(3) [OF ok that] by (auto simp: one_step_def key_of_def)
  have other: "x = y" if "n < length nodes" "x \<in> set (rt_children (nodes ! n))" "y \<in> set (rt_children (nodes ! n))"
    "key_of (rt_value (nodes ! x)) = key_of (rt_value (nodes ! y))" for n x y
    using results_okD(5) [OF ok that(1)] that(2-4) by (auto simp: distinct_map inj_on_def)
  have keep: "rchild nodes' n k = Some c" if n: "n < length nodes" and c: "rchild nodes n k = Some c" and "c \<noteq> r" for n k c
    unfolding rchild_def kids
  proof (rule find_unique)
    show "c \<in> set (rt_children (nodes ! n))" using rchild_some [OF c] by blast
    fix x assume x: "x \<in> set (rt_children (nodes ! n))"
    show "key_of (rt_value (nodes' ! x)) = k \<longleftrightarrow> x = c"
    proof (cases "x = r")
      case True
      then show ?thesis using rchild_some [OF c] one [OF n, of c] \<open>c \<noteq> r\<close> keys [of r] by auto
    next
      case False
      then show ?thesis using rchild_some [OF c] other [OF n x, of c] keys [of x] by auto
    qed
  qed
  have walk_keep: "walk nodes n w = Some a \<Longrightarrow> n < length nodes \<Longrightarrow> a < r \<Longrightarrow> walk nodes' n w = Some a" for n w a
  proof (induction w arbitrary: n)
    case (Cons k w)
    then obtain c where c: "rchild nodes n k = Some c" "walk nodes c w = Some a" by (auto split: bind_splits)
    have cl: "c < length nodes" using rchild_bound(2) [OF ok Cons.prems(2) c(1)] .
    have "c \<noteq> r" using walk_bound [OF ok cl c(2)] Cons.prems(3) by simp
    then show ?case using keep [OF Cons.prems(2) c(1)] Cons.IH [OF c(2) cl Cons.prems(3)] by simp
  qed simp
  obtain w k where w: "p = w @ [k]" using p by (cases p rule: rev_cases) auto
  obtain a where a: "walk nodes 0 w = Some a" "rchild nodes a k = Some r"
    using at by (auto simp: w walk_append split: bind_splits)
  have al: "a < length nodes" using walk_bound [OF ok z a(1)] by simp
  have "walk nodes' 0 w = Some a" using walk_keep [OF a(1) z] rchild_bound(1) [OF ok al a(2)] by blast
  moreover have "rchild nodes' a k = None"
    unfolding rchild_def kids find_None_iff
  proof
    assume "\<exists>x. x \<in> set (rt_children (nodes ! a)) \<and> key_of (rt_value (nodes' ! x)) = k"
    then obtain x where x: "x \<in> set (rt_children (nodes ! a))" "key_of (rt_value (nodes' ! x)) = k" by blast
    have k: "r \<in> set (rt_children (nodes ! a))" "key_of (rt_value (nodes ! r)) = k" using rchild_some [OF a(2)] by simp_all
    have "x \<noteq> r" using x(2) keys [of r] k one [OF al k(1)] by auto
    then show False using other [OF al x(1) k(1)] x(2) k(2) keys [of x] by simp
  qed
  ultimately show ?thesis by (simp add: w walk_append)
qed

subsection \<open>Runs of the tree\<close>

text \<open>What the tree relies on of the LRU cache: it holds and evicts only what was added.\<close>

definition cache_laws :: "'c cache_get \<Rightarrow> 'c cache_add \<Rightarrow> ('c \<Rightarrow> addr set) \<Rightarrow> bool" where
  "cache_laws cget cadd held \<longleftrightarrow>
     (\<forall>k c. held (fst (cget k c)) \<subseteq> held c \<and> (\<forall>a. snd (cget k c) = Some a \<longrightarrow> a \<in> held c)) \<and>
     (\<forall>k a c. held (fst (cadd k a c)) \<subseteq> insert a (held c) \<and>
        (\<forall>k' x. snd (cadd k a c) = Some (k', x) \<longrightarrow> x \<in> insert a (held c)))"

lemma cache_lawsD:
  assumes "cache_laws cget cadd held"
  shows "held (fst (cget k c)) \<subseteq> held c" and "snd (cget k c) = Some a \<Longrightarrow> a \<in> held c"
    and "held (fst (cadd k a c)) \<subseteq> insert a (held c)" and "snd (cadd k a c) = Some (k', x) \<Longrightarrow> x \<in> insert a (held c)"
  using assms unfolding cache_laws_def by blast+

definition nodes_shape :: "rtNode list \<Rightarrow> bool" where
  "nodes_shape nodes \<longleftrightarrow> nodes \<noteq> [] \<and>
     (\<forall>n < length nodes. \<forall>c \<in> set (rt_children (nodes ! n)). n < c \<and> c < length nodes)"

definition cursors_shape :: "nat \<Rightarrow> 'h PathCursor list \<Rightarrow> bool" where
  "cursors_shape n cursors \<longleftrightarrow> cursors \<noteq> [] \<and> (\<forall>k \<in> set cursors. pc_rnode k < n)"

definition unregistered :: "('h \<times> addr list) list \<Rightarrow> bool" where
  "unregistered handlers \<longleftrightarrow> (\<forall>e \<in> set handlers. snd e = [])"

definition tree_shape :: "('c \<Rightarrow> addr set) \<Rightarrow> ('h, 'w, 'c) ResultTree \<Rightarrow> bool" where
  "tree_shape held s \<longleftrightarrow> nodes_shape (re_nodes s) \<and> cursors_shape (length (re_nodes s)) (re_cursors s) \<and>
     (\<forall>c. re_cursor s = Some c \<longrightarrow> c < length (re_cursors s)) \<and>
     held (re_pathCache s) \<subseteq> {..<length (re_cursors s)} \<and> re_cachedCursors s = [] \<and> unregistered (re_handlers s)"

lemma tree_shapeD:
  assumes "tree_shape held s"
  shows "nodes_shape (re_nodes s)" and "cursors_shape (length (re_nodes s)) (re_cursors s)"
    and "re_cursor s = Some c \<Longrightarrow> c < length (re_cursors s)" and "held (re_pathCache s) \<subseteq> {..<length (re_cursors s)}"
    and "re_cachedCursors s = []" and "unregistered (re_handlers s)"
  using assms unfolding tree_shape_def by blast+

lemma nodes_shapeD:
  "nodes_shape nodes \<Longrightarrow> n < length nodes \<Longrightarrow> c \<in> set (rt_children (nodes ! n)) \<Longrightarrow> n < c \<and> c < length nodes"
  unfolding nodes_shape_def by blast

lemma cursors_shapeD: "cursors_shape n cursors \<Longrightarrow> k < length cursors \<Longrightarrow> pc_rnode (cursors ! k) < n"
  unfolding cursors_shape_def by (meson nth_mem)

lemma cursors_shape_mono: "cursors_shape n cursors \<Longrightarrow> n \<le> m \<Longrightarrow> cursors_shape m cursors"
  unfolding cursors_shape_def by (meson order.strict_trans2)

lemma cursors_shape_upd:
  "cursors_shape n cursors \<Longrightarrow> (c < length cursors \<Longrightarrow> pc_rnode (f (cursors ! c)) < n) \<Longrightarrow> cursors_shape n (upd_at c f cursors)"
  unfolding cursors_shape_def upd_at_def
  by (cases "c < length cursors") (auto simp: list_update_beyond dest: set_update_subset_insert [THEN subsetD])

lemma unregistered_lookup: "unregistered hs \<Longrightarrow> map_of hs h = Some cs \<Longrightarrow> cs = []"
  unfolding unregistered_def by (fastforce dest: map_of_SomeD)

lemma unregistered_update: "unregistered hs \<Longrightarrow> unregistered (AList.update h [] hs)"
  by (induction hs) (auto simp: unregistered_def)

lemma unregistered_delete: "unregistered hs \<Longrightarrow> unregistered (AList.delete h hs)"
  by (auto simp: unregistered_def AList.delete_eq)

lemma place_shape:
  assumes "place_node val n rtn nodes = (nodes', r)" and "n < length nodes" and "\<And>x. rtn = Some x \<Longrightarrow> x < length nodes"
    and sh: "nodes_shape nodes"
  shows "nodes_shape nodes'" and "r < length nodes'" and "length nodes \<le> length nodes'"
proof -
  have "nodes_shape nodes' \<and> r < length nodes' \<and> length nodes \<le> length nodes'"
  proof (cases rtn)
    case None
    have nodes': "nodes' = upd_at n (\<lambda>x. x\<lparr>rt_children := rt_children x @ [length nodes]\<rparr>) nodes @ [newRtNode val]"
      and r: "r = length nodes" using assms(1) None by (auto simp: place_node_def)
    have "m < c \<and> c < length nodes'" if "m < length nodes'" "c \<in> set (rt_children (nodes' ! m))" for m c
    proof (cases "m = length nodes")
      case True
      have "rt_children (nodes' ! length nodes) = []" by (simp add: nodes' nth_append newRtNode_def)
      then show ?thesis using that(2) True by simp
    next
      case False
      then have m: "m < length nodes" using that(1) nodes' by simp
      then have "c = length nodes \<or> c \<in> set (rt_children (nodes ! m))"
        using that(2) by (auto simp: nodes' nth_append nth_upd_at split: if_splits)
      then show ?thesis
      proof
        assume "c = length nodes"
        then show ?thesis using m nodes' by simp
      next
        assume "c \<in> set (rt_children (nodes ! m))"
        then have "m < c \<and> c < length nodes" by (rule nodes_shapeD [OF sh m])
        then show ?thesis using nodes' by simp
      qed
    qed
    moreover have "r < length nodes'" "length nodes \<le> length nodes'" "nodes' \<noteq> []" using nodes' r by simp_all
    ultimately show ?thesis unfolding nodes_shape_def by blast
  next
    case (Some x)
    have nodes': "nodes' = (if rv_value val \<noteq> None then upd_at x (\<lambda>y. y\<lparr>rt_value := val\<rparr>) nodes else nodes)" and r: "r = x"
      using assms(1) Some by (simp_all add: place_node_def)
    have x: "x < length nodes" using assms(3) Some by blast
    have kids: "rt_children (nodes' ! m) = rt_children (nodes ! m)" for m
      unfolding nodes' by (cases "m = x") (simp_all add: nth_upd_at x)
    have len: "length nodes' = length nodes" by (simp add: nodes')
    then have "(nodes' \<noteq> []) = (nodes \<noteq> [])" by auto
    then have "nodes_shape nodes'" using sh unfolding nodes_shape_def kids len by blast
    then show ?thesis using r x len by simp
  qed
  then show "nodes_shape nodes'" "r < length nodes'" "length nodes \<le> length nodes'" by blast+
qed

lemma upd_cursor_shape:
  assumes "tree_shape held s" and "\<And>k. pc_rnode (f k) = pc_rnode k"
  shows "tree_shape held (upd_cursor c f s)"
proof -
  have "cursors_shape (length (re_nodes s)) (re_cursors (upd_cursor c f s))"
    unfolding upd_cursor_def using cursors_shape_upd [OF tree_shapeD(2) [OF assms(1)]] cursors_shapeD [OF tree_shapeD(2) [OF assms(1)]] assms(2)
    by simp
  then show ?thesis using assms(1) unfolding tree_shape_def by simp
qed

lemma find_child: "find P xs = Some x \<Longrightarrow> x \<in> set xs"
  by (auto simp: find_Some_iff)

lemma Apply_shape:
  assumes sh: "tree_shape held s" and c: "c < length (re_cursors s)"
  shows "tree_shape held (Apply q handle val c s)"
proof -
  define k where "k = rcursor s c"
  have kr: "pc_rnode k < length (re_nodes s)" using cursors_shapeD [OF tree_shapeD(2) [OF sh] c] k_def by simp
  define moved where "moved = (\<lambda>qn rtn. advance handle val c qn rtn s)"
  have moved: "tree_shape held (moved qn rtn)" if rtn: "\<And>x. rtn = Some x \<Longrightarrow> x < length (re_nodes s)" for qn rtn
  proof -
    obtain nodes r where pl: "place_node val (pc_rnode k) rtn (re_nodes s) = (nodes, r)" by fastforce
    obtain w hs where h: "handle_all handle val (pc_resultHandlers k) (re_world s) = (w, hs)" by fastforce
    have s': "moved qn rtn = upd_cursor c (\<lambda>_. k\<lparr>pc_qnode := qn, pc_resultHandlers := hs, pc_rnode := r\<rparr>) (s\<lparr>re_nodes := nodes, re_world := w\<rparr>)"
      using pl h by (simp add: moved_def advance_def k_def [symmetric])
    note ps = place_shape [OF pl kr rtn tree_shapeD(1) [OF sh]]
    have "cursors_shape (length nodes) (re_cursors (moved qn rtn))"
      unfolding s' upd_cursor_def using cursors_shape_upd [OF cursors_shape_mono [OF tree_shapeD(2) [OF sh] ps(3)]] ps(2) by simp
    then show ?thesis using ps(1) sh unfolding tree_shape_def by (simp add: s')
  qed
  have found: "x < length (re_nodes s)" if "find P (rt_children (rnode s (pc_rnode k))) = Some x" for P x
    using nodes_shapeD [OF tree_shapeD(1) [OF sh] kr find_child [OF that]] by simp
  have oob: "tree_shape held (upd_cursor c (\<lambda>x. x\<lparr>pc_outOfBounds := True\<rparr>) s)" by (rule upd_cursor_shape [OF sh]) simp
  show ?thesis
  proof (rule Apply_cases [OF sh oob])
    show "tree_shape held (advance handle val c qn (Some (pc_rnode (rcursor s c))) s)" for qn
      using moved [of "Some (pc_rnode k)" qn] kr by (simp add: moved_def k_def)
    show "tree_shape held (advance handle val c qn (find Q (rt_children (rnode s (pc_rnode (rcursor s c))))) s)" for qn Q
      using moved [of "find Q (rt_children (rnode s (pc_rnode k)))" qn, OF found] by (simp add: moved_def k_def)
  qed
qed

lemma Clone_shape:
  assumes "tree_shape held s" and "c < length (re_cursors s)"
  shows "tree_shape held (fst (Clone c s))"
proof -
  have "cursors_shape (length (re_nodes s)) (re_cursors s @ [rcursor s c])"
    using tree_shapeD(2) [OF assms(1)] cursors_shapeD [OF tree_shapeD(2) [OF assms(1)] assms(2)] by (simp add: cursors_shape_def)
  moreover have "c' < Suc (length (re_cursors s))" if "re_cursor s = Some c'" for c'
    using tree_shapeD(3) [OF assms(1) that] by simp
  moreover have "held (re_pathCache s) \<subseteq> {..<Suc (length (re_cursors s))}" using tree_shapeD(4) [OF assms(1)] by auto
  ultimately show ?thesis using tree_shapeD(1,5,6) [OF assms(1)] unfolding tree_shape_def by simp
qed

lemma drop_unregistered: "unregistered m \<Longrightarrow> unregistered (drop_from_handlers c hs m)"
  unfolding drop_from_handlers_def
proof (induction hs arbitrary: m)
  case (Cons h hs)
  have "unregistered (case map_of m h of None \<Rightarrow> m | Some cs \<Rightarrow> AList.update h (drop_cursor c cs) m)"
    using Cons.prems unregistered_lookup [OF Cons.prems, of h] unregistered_update [OF Cons.prems, of h]
    by (auto simp: drop_cursor_def split: option.split)
  then show ?case using Cons.IH by simp
qed simp

lemma world_shape: "tree_shape held s \<Longrightarrow> tree_shape held (s\<lparr>re_world := w\<rparr>)"
  by (simp add: tree_shape_def)

lemma evict_shape: "tree_shape held s \<Longrightarrow> tree_shape held (handleCursorEvict c s)"
  using drop_unregistered [of "re_handlers s"] by (simp add: tree_shape_def handleCursorEvict_def Let_def)

lemma PathCache_Set_shape:
  assumes "cache_laws cget cadd held" and "tree_shape held s" and "c < length (re_cursors s)"
  shows "tree_shape held (PathCache_Set cadd key c s)"
proof -
  obtain cache ev where add: "cadd key c (re_pathCache s) = (cache, ev)" by fastforce
  have "held cache \<subseteq> insert c (held (re_pathCache s))" using cache_lawsD(3) [OF assms(1), of key c "re_pathCache s"] add by simp
  then have "held cache \<subseteq> {..<length (re_cursors s)}" using tree_shapeD(4) [OF assms(2)] assms(3) by auto
  then have "tree_shape held (s\<lparr>re_pathCache := cache\<rparr>)" using assms(2) by (simp add: tree_shape_def)
  then show ?thesis using evict_shape add by (auto simp: PathCache_Set_def split: option.split)
qed

lemma evict_cursors [simp]: "re_cursors (handleCursorEvict c s) = re_cursors s" "re_cursor (handleCursorEvict c s) = re_cursor s"
  by (simp_all add: handleCursorEvict_def Let_def)

lemma set_cursor_shape: "tree_shape held s \<Longrightarrow> c < length (re_cursors s) \<Longrightarrow> tree_shape held (s\<lparr>re_cursor := Some c\<rparr>)"
  and clear_cursor_shape: "tree_shape held s \<Longrightarrow> tree_shape held (s\<lparr>re_cursor := None\<rparr>)"
  by (simp_all add: tree_shape_def)

lemma HandleValue_shape:
  assumes laws: "cache_laws cget cadd held" and sh: "tree_shape held s"
  shows "tree_shape held (fst (HandleValue q handle cget cadd va s))"
proof (cases "re_cursor s = None \<and> rv_pos_identifier va \<noteq> 0")
  case True
  obtain cache found where get: "cget (rv_pos_identifier va) (re_pathCache s) = (cache, found)" by fastforce
  note hl = cache_lawsD(1,2) [OF laws, of "rv_pos_identifier va" "re_pathCache s", unfolded get, simplified]
  have s1: "tree_shape held (s\<lparr>re_pathCache := cache\<rparr>)" using sh hl(1) tree_shapeD(4) [OF sh] by (auto simp: tree_shape_def)
  show ?thesis
  proof (cases found)
    case None
    then show ?thesis using True get s1 by (simp add: HandleValue_def PathCache_Get_def)
  next
    case (Some p)
    have p: "p < length (re_cursors s)" using hl(2) Some tree_shapeD(4) [OF sh] by auto
    have s2: "tree_shape held (fst (Clone p (s\<lparr>re_pathCache := cache\<rparr>)))" by (rule Clone_shape [OF s1]) (use p in simp)
    let ?s2 = "fst (Clone p (s\<lparr>re_pathCache := cache\<rparr>))"
    have "tree_shape held (Apply q handle (zero_value\<lparr>rv_value := rv_value va\<rparr>) (length (re_cursors s)) ?s2)"
      by (rule Apply_shape [OF s2]) simp
    then have "tree_shape held ((Apply q handle (zero_value\<lparr>rv_value := rv_value va\<rparr>) (length (re_cursors s)) ?s2)\<lparr>re_cursor := None\<rparr>)"
      by (rule clear_cursor_shape)
    moreover have "tree_shape held (?s2\<lparr>re_cursor := Some (length (re_cursors s))\<rparr>)"
      by (rule set_cursor_shape [OF s2]) simp
    ultimately show ?thesis using True get Some by (simp add: HandleValue_label Let_def)
  qed
next
  case False
  obtain s1 c where cur: "current s = (s1, c)" by fastforce
  have s1: "tree_shape held s1 \<and> c < length (re_cursors s1)"
  proof (cases "re_cursor s")
    case None
    have "0 < length (re_cursors s)" using tree_shapeD(2) [OF sh] by (simp add: cursors_shape_def)
    then show ?thesis using cur None Clone_shape [OF sh, of 0] by (auto simp: current_def Clone_def)
  next
    case (Some c')
    then show ?thesis using cur sh tree_shapeD(3) [OF sh Some] by (simp add: current_def)
  qed
  define s2 where "s2 = Apply q handle va c (s1\<lparr>re_cursor := Some c\<rparr>)"
  have s2: "tree_shape held s2" "c < length (re_cursors s2)"
    unfolding s2_def using Apply_shape [OF set_cursor_shape, of held s1 c c] s1 by simp_all
  define s3 where "s3 = (if rv_pos_identifier va \<noteq> 0
      then PathCache_Set cadd (rv_pos_identifier va) (length (re_cursors s2)) (fst (Clone c s2)) else s2)"
  have "tree_shape held (PathCache_Set cadd (rv_pos_identifier va) (length (re_cursors s2)) (fst (Clone c s2)))"
    by (rule PathCache_Set_shape [OF laws Clone_shape [OF s2]]) simp
  then have "tree_shape held s3" using s2(1) by (simp add: s3_def)
  moreover have "HandleValue q handle cget cadd va s = (if rv_value va \<noteq> None then s3\<lparr>re_cursor := None\<rparr> else s3, None)"
    using HandleValue_next [OF False cur] by (simp add: Let_def s2_def [symmetric] s3_def)
  ultimately show ?thesis using clear_cursor_shape by (simp split: if_splits)
qed

text \<open>Calling a handler with the tree ends, and registers it nowhere.\<close>

lemma fold_some_inv:
  assumes "\<And>x s. x \<in> set xs \<Longrightarrow> P s \<Longrightarrow> \<exists>s'. f x s = Some s' \<and> P s'"
  shows "P s \<Longrightarrow> \<exists>s'. fold_some f xs s = Some s' \<and> P s'"
  using assms
proof (induction xs arbitrary: s)
  case (Cons x xs)
  then obtain s1 where "f x s = Some s1" "P s1" by force
  then show ?case using Cons.IH [of s1] Cons.prems(2) by force
qed simp

lemma bind_cached_shape:
  assumes "tree_shape held s"
  shows "tree_shape held (bind_cached c h s)" and "re_nodes (bind_cached c h s) = re_nodes s"
proof -
  have "(case map_of (re_handlers s) h of None \<Rightarrow> [] | Some cs \<Rightarrow> cs) = []"
    using unregistered_lookup [OF tree_shapeD(6) [OF assms]] by (auto split: option.split)
  then have b: "bind_cached c h s = s\<lparr>re_handlers := AList.update h [] (re_handlers s)\<rparr>"
    using tree_shapeD(5) [OF assms] by (simp add: bind_cached_def)
  show "tree_shape held (bind_cached c h s)" using assms unregistered_update [OF tree_shapeD(6) [OF assms], of h] by (simp add: b tree_shape_def)
  show "re_nodes (bind_cached c h s) = re_nodes s" by (simp add: b)
qed

lemma callHandler_result:
  fixes handle :: "('h, 'w) handle" and s :: "('h, 'w, 'c) ResultTree"
  assumes "tree_shape held s" and "n < length (re_nodes s)" and "length (re_nodes s) \<le> fuel + n"
  shows "\<exists>s'. callHandler fuel handle bind_cached n h s = Some s' \<and> tree_shape held s' \<and> re_nodes s' = re_nodes s"
  using assms
proof (induction fuel arbitrary: n h s)
  case (Suc fuel)
  let ?N = "re_nodes s"
  let ?f = "\<lambda>child (s :: ('h, 'w, 'c) ResultTree). case handle h (rt_value (rnode s child)) (re_world s) of
      (w, None) \<Rightarrow> Some (s\<lparr>re_world := w\<rparr>)
    | (w, Some nextHandler) \<Rightarrow> callHandler fuel handle bind_cached child nextHandler (bind_cached child nextHandler (s\<lparr>re_world := w\<rparr>))"
  have "\<exists>s'. fold_some ?f (rt_children (?N ! n)) s = Some s' \<and> (tree_shape held s' \<and> re_nodes s' = ?N)"
  proof (rule fold_some_inv)
    show "tree_shape held s \<and> re_nodes s = ?N" using Suc.prems by simp
    fix c and t :: "('h, 'w, 'c) ResultTree" assume c: "c \<in> set (rt_children (?N ! n))" and t: "tree_shape held t \<and> re_nodes t = ?N"
    obtain w nx where h: "handle h (rt_value (rnode t c)) (re_world t) = (w, nx)" by fastforce
    have cl: "n < c \<and> c < length ?N" using nodes_shapeD [OF tree_shapeD(1) [OF Suc.prems(1)] Suc.prems(2) c] .
    have tw: "tree_shape held (t\<lparr>re_world := w\<rparr>)" using world_shape [OF conjunct1 [OF t]] .
    show "\<exists>s'. ?f c t = Some s' \<and> (tree_shape held s' \<and> re_nodes s' = ?N)"
    proof (cases nx)
      case None
      then have "?f c t = Some (t\<lparr>re_world := w\<rparr>)" using h by simp
      then show ?thesis using t tw by simp
    next
      case (Some h')
      note b = bind_cached_shape [OF tw, of c h']
      have "\<exists>s'. callHandler fuel handle bind_cached c h' (bind_cached c h' (t\<lparr>re_world := w\<rparr>)) = Some s' \<and> tree_shape held s' \<and>
          re_nodes s' = re_nodes (bind_cached c h' (t\<lparr>re_world := w\<rparr>))"
        by (rule Suc.IH [OF b(1)]) (use b(2) t cl Suc.prems(3) in simp_all)
      moreover have "re_nodes (bind_cached c h' (t\<lparr>re_world := w\<rparr>)) = ?N" using b(2) t by simp
      moreover have "?f c t = callHandler fuel handle bind_cached c h' (bind_cached c h' (t\<lparr>re_world := w\<rparr>))" using h Some by simp
      ultimately show ?thesis by metis
    qed
  qed
  then show ?case by simp
qed simp

lemma AddResultHandler_shape:
  assumes "tree_shape held s"
  shows "\<exists>s'. AddResultHandler handle h s = Some s' \<and> tree_shape held s' \<and> re_nodes s' = re_nodes s"
proof (cases "map_of (re_handlers s) h = None")
  case True
  let ?s = "upd_cursor 0 (\<lambda>x. x\<lparr>pc_resultHandlers := pc_resultHandlers x @ [h]\<rparr>) (s\<lparr>re_handlers := AList.update h [] (re_handlers s)\<rparr>)"
  have "tree_shape held (s\<lparr>re_handlers := AList.update h [] (re_handlers s)\<rparr>)"
    using assms unregistered_update [OF tree_shapeD(6) [OF assms], of h] by (simp add: tree_shape_def)
  then have "tree_shape held ?s" by (rule upd_cursor_shape) simp
  moreover have "0 < length (re_nodes s)" using tree_shapeD(1) [OF assms] by (simp add: nodes_shape_def)
  ultimately show ?thesis using callHandler_result [of held ?s 0 "length (re_nodes s)" handle h] True
    by (simp add: AddResultHandler_def)
qed (simp add: AddResultHandler_def assms)

lemma RemoveResultHandler_shape:
  assumes "tree_shape held s"
  shows "tree_shape held (RemoveResultHandler h s)"
proof (cases "map_of (re_handlers s) h")
  case (Some cs)
  have "tree_shape held (s\<lparr>re_handlers := AList.delete h (re_handlers s)\<rparr>)"
    using assms unregistered_delete [OF tree_shapeD(6) [OF assms]] by (simp add: tree_shape_def)
  then have "tree_shape held (upd_cursor 0 (\<lambda>x. x\<lparr>pc_resultHandlers := rmFromResultHandlers h (pc_resultHandlers x)\<rparr>)
      (s\<lparr>re_handlers := AList.delete h (re_handlers s)\<rparr>))" by (rule upd_cursor_shape) simp
  then show ?thesis using Some unregistered_lookup [OF tree_shapeD(6) [OF assms] Some] by (simp add: RemoveResultHandler_def)
qed (simp add: RemoveResultHandler_def assms)

text \<open>What a client can reach: values from the server, and handlers that come and go.\<close>

inductive results_run ::
  "QueryTree \<Rightarrow> ('h, 'w) handle \<Rightarrow> 'c cache_get \<Rightarrow> 'c cache_add \<Rightarrow> 'c \<Rightarrow> ('h, 'w, 'c) ResultTree \<Rightarrow> bool"
  for q handle cget cadd cache where
  new: "NewResultTree strategy cache w = Inr s \<Longrightarrow> results_run q handle cget cadd cache s"
| arrives: "results_run q handle cget cadd cache s \<Longrightarrow> HandleValue q handle cget cadd va s = (s', e) \<Longrightarrow>
     results_run q handle cget cadd cache s'"
| add: "results_run q handle cget cadd cache s \<Longrightarrow> AddResultHandler handle h s = Some s' \<Longrightarrow>
     results_run q handle cget cadd cache s'"
| remove: "results_run q handle cget cadd cache s \<Longrightarrow> results_run q handle cget cadd cache (RemoveResultHandler h s)"

lemma results_run_shape:
  assumes "cache_laws cget cadd held" and "held cache = {}"
  shows "results_run q handle cget cadd cache s \<Longrightarrow> tree_shape held s"
proof (induction rule: results_run.induct)
  case (new strategy w s)
  then have "s = \<lparr>re_nodes = [newRtNode zero_value], re_cursors = [NewPathCursor 0 0], re_cursor = None,
      re_pathCache = cache, re_handlers = [], re_cachedCursors = [], re_world = w\<rparr>"
    by (auto simp: NewResultTree_def split: if_splits)
  then show ?case using assms(2)
    by (simp add: tree_shape_def nodes_shape_def newRtNode_def cursors_shape_def NewPathCursor_def unregistered_def)
next
  case (arrives s va s' e)
  have "tree_shape held (fst (HandleValue q handle cget cadd va s))" by (rule HandleValue_shape [OF assms(1) arrives.IH])
  then show ?case by (simp add: arrives.hyps(2))
next
  case (add s h s')
  from AddResultHandler_shape [OF add.IH, of handle h] show ?case unfolding add.hyps(2) by blast
next
  case (remove s h)
  show ?case by (rule RemoveResultHandler_shape [OF remove.IH])
qed

subsection \<open>Properties\<close>


text \<open>
  C19: A value whose first segment refers to a label is stored in the node of the label without its step:
  the query node id and the array index of the segment are dropped, and those of the node of the label
  are overwritten, so that afterwards no path leads to this node, nor to anything below it.
\<close>

theorem labelled_values_lose_their_place:
  assumes "tree_at q s None" and "rv_pos_identifier va \<noteq> 0" and "rv_value va \<noteq> None"
    and "snd (cget (rv_pos_identifier va) (re_pathCache s)) = Some c" and "c < length (re_cursors s)"
    and "cursor_at q (re_nodes s) (rcursor s c) p" and "\<not> pc_outOfBounds (rcursor s c)" and "p \<noteq> []"
  shows "\<exists>s'. HandleValue q handle cget cadd va s = (s', None) \<and> re_cursor s' = None \<and>
    length (re_nodes s') = length (re_nodes s) \<and>
    rt_value (rnode s' (pc_rnode (rcursor s c))) = zero_value\<lparr>rv_value := rv_value va\<rparr> \<and>
    walk (re_nodes s') 0 (p @ p') = None"
proof -
  let ?v = "zero_value\<lparr>rv_value := rv_value va\<rparr>"
  let ?r = "pc_rnode (rcursor s c)"
  note D = tree_atD [OF assms(1)]
  have idle: "re_cursor s = None" using D(7) by (cases "re_cursor s") auto
  have at: "walk (re_nodes s) 0 p = Some ?r" using assms(6,7) by (simp add: cursor_at_def)
  have r: "?r < length (re_nodes s)" using walk_bound [OF D(1) _ at] results_okD(1) [OF D(1)] by simp
  obtain cache where get: "cget (rv_pos_identifier va) (re_pathCache s) = (cache, Some c)"
    using assms(4) by (metis prod.collapse)
  let ?s2 = "fst (Clone c (s\<lparr>re_pathCache := cache\<rparr>))"
  let ?c = "length (re_cursors s)"
  have hv: "HandleValue q handle cget cadd va s = ((Apply q handle ?v ?c ?s2)\<lparr>re_cursor := None\<rparr>, None)"
    using assms(2,3) idle get by (simp add: HandleValue_def PathCache_Get_def Clone_def)
  have nodes: "re_nodes (Apply q handle ?v ?c ?s2) = upd_at ?r (\<lambda>x. x\<lparr>rt_value := ?v\<rparr>) (re_nodes s)"
    using assms(3,7) by (simp add: Apply_def Let_def place_node_def split: prod.split)
  have "walk (re_nodes (Apply q handle ?v ?c ?s2)) 0 (p @ p') = None"
    by (rule bare_value_unlinks [OF D(1) at assms(8) _ nodes]) (simp add: key_of_def)
  then show ?thesis using hv nodes r by (simp add: nth_upd_at)
qed

text \<open>
  An error ends a path of the protocol, but not for the client: its cursor stays where it is, and the
  next path is followed from there.
\<close>

theorem errors_do_not_end_the_path:
  assumes "tree_at q s cur" and "rv_pos_identifier va = 0" and "rv_value va = None" and "rv_error va \<noteq> ''''"
  shows "\<exists>s' c st item. HandleValue q handle cget cadd va s = (s', None) \<and> re_cursor s' = Some c \<and>
    dec_step (labels, cur) va = Some (st, [item]) \<and> snd st = None"
proof -
  have "\<exists>s' c. HandleValue q handle cget cadd va s = (s', None) \<and> re_cursor s' = Some c"
    using assms(2,3) by (simp add: HandleValue_plain Let_def)
  moreover have "\<exists>st item. dec_step (labels, cur) va = Some (st, [item]) \<and> snd st = None"
    using assms(2-4) by (simp add: dec_step_def Let_def split: option.split)
  ultimately show ?thesis by blast
qed

text \<open>
  C33: In every reachable tree a handler can be added, which ends and leaves the results as they are; but
  the registry of cached cursors is empty and no handler has a cursor, so the cursors behind labels
  never hear of a handler that is added or removed after them.
\<close>

theorem handlers_are_added_but_never_bound_to_cursors:
  assumes "cache_laws cget cadd held" and "held cache = {}" and "results_run q handle cget cadd cache s"
  shows "re_cachedCursors s = [] \<and> unregistered (re_handlers s) \<and>
    (\<exists>s'. AddResultHandler handle h s = Some s' \<and> re_nodes s' = re_nodes s)"
  using results_run_shape [OF assms] tree_shapeD(5,6) AddResultHandler_shape [of held s handle h] by blast

subsection \<open>A sample\<close>

text \<open>Handlers are numbers here, which count the segments above them, and log their calls.\<close>

definition logging :: "(nat, (nat \<times> RGQLValue) list) handle" where
  "logging h val w = (w @ [(h, val)], Some (Suc h))"

definition lru_pair_get :: "(u32 \<times> addr) list cache_get" where
  "lru_pair_get k cache =
     (case map_of cache k of
        None \<Rightarrow> (cache, None)
      | Some a \<Rightarrow> ((k, a) # filter (\<lambda>e. fst e \<noteq> k) cache, Some a))"

lemma lru_pair_laws: "cache_laws lru_pair_get lru_pair (\<lambda>c. snd ` set c)"
proof -
  have g: "snd ` set (fst (lru_pair_get k c)) \<subseteq> snd ` set c \<and> (snd (lru_pair_get k c) = Some a \<longrightarrow> a \<in> snd ` set c)" for k c a
    by (force simp: lru_pair_get_def dest: map_of_SomeD split: option.splits)
  have a: "snd ` set (fst (lru_pair k a c)) \<subseteq> insert a (snd ` set c) \<and>
      (snd (lru_pair k a c) = Some (k', x) \<longrightarrow> x \<in> insert a (snd ` set c))" for k a c k' x
  proof -
    let ?l = "(k, a) # filter (\<lambda>e. fst e \<noteq> k) c"
    have l: "set ?l \<subseteq> insert (k, a) (set c)" by auto
    have "fst (lru_pair k a c) = take 2 ?l" and "snd (lru_pair k a c) = (if length ?l > 2 then Some (?l ! 2) else None)"
      by (simp_all add: lru_pair_def Let_def)
    moreover have "set (take 2 ?l) \<subseteq> insert (k, a) (set c)" using l set_take_subset [of 2 ?l] by blast
    moreover have "?l ! 2 \<in> insert (k, a) (set c)" if "length ?l > 2" using l nth_mem [OF that] by blast
    ultimately show ?thesis by (force split: if_splits)
  qed
  show ?thesis
    unfolding cache_laws_def
  proof (intro conjI allI impI)
    fix k a c show "snd ` set (fst (lru_pair_get k c)) \<subseteq> snd ` set c" using g [of k c a] by (rule conjunct1)
  next
    fix k c a assume "snd (lru_pair_get k c) = Some a"
    then show "a \<in> snd ` set c" using g [of k c a] by simp
  next
    fix k a c show "snd ` set (fst (lru_pair k a c)) \<subseteq> insert a (snd ` set c)" using a [of k a c] by (rule conjunct1)
  next
    fix k a c k' x assume "snd (lru_pair k a c) = Some (k', x)"
    then show "x \<in> insert a (snd ` set c)" using a [of k a c k' x] by simp
  qed
qed

definition results0 :: "(nat, (nat \<times> RGQLValue) list, (u32 \<times> addr) list) ResultTree" where
  "results0 = (case NewResultTree CACHE_LRU [] [] of Inr s \<Rightarrow> s)"

lemma results0_at: "tree_at client1 results0 None"
  by (simp add: tree_at_def results_ok_def results0_def NewResultTree_def newRtNode_def NewPathCursor_def)

text \<open>A list field, its element, the field of that; the value of the last.\<close>

definition plain_path :: "RGQLValue list" where
  "plain_path = [zero_value\<lparr>rv_query_node_id := 1\<rparr>, zero_value\<lparr>rv_array_index := 1\<rparr>,
     zero_value\<lparr>rv_query_node_id := 2, rv_value := val_Value (BuildIntValue 7)\<rparr>]"

definition results1 :: "(nat, (nat \<times> RGQLValue) list, (u32 \<times> addr) list) ResultTree" where
  "results1 = fst (HandleValues client1 logging lru_pair_get lru_pair plain_path results0)"


text \<open>The element of the list is labelled, and the next value of its field refers to the label.\<close>

definition results2 :: "(nat, (nat \<times> RGQLValue) list, (u32 \<times> addr) list) ResultTree" where
  "results2 = fst (HandleValues client1 logging lru_pair_get lru_pair
     [zero_value\<lparr>rv_query_node_id := 1\<rparr>, zero_value\<lparr>rv_array_index := 1, rv_pos_identifier := 1\<rparr>,
      zero_value\<lparr>rv_query_node_id := 2, rv_value := val_Value (BuildIntValue 7)\<rparr>] results0)"

definition next_value :: RGQLValue where
  "next_value = zero_value\<lparr>rv_query_node_id := 2, rv_pos_identifier := 1, rv_value := val_Value (BuildIntValue 8)\<rparr>"

lemma results2_is:
  "results2 = \<lparr>re_nodes =
      [\<lparr>rt_value = zero_value, rt_children = [1]\<rparr>,
       \<lparr>rt_value = zero_value\<lparr>rv_query_node_id := 1\<rparr>, rt_children = [2]\<rparr>,
       \<lparr>rt_value = zero_value\<lparr>rv_array_index := 1, rv_pos_identifier := 1\<rparr>, rt_children = [3]\<rparr>,
       \<lparr>rt_value = zero_value\<lparr>rv_query_node_id := 2, rv_value := val_Value (BuildIntValue 7)\<rparr>, rt_children = []\<rparr>],
     re_cursors = [NewPathCursor 0 0, NewPathCursor 2 3, NewPathCursor 1 2],
     re_cursor = None, re_pathCache = [(1, 2)], re_handlers = [], re_cachedCursors = [], re_world = []\<rparr>"
  by code_simp

lemma results2_at: "tree_at client1 results2 None"
  by (simp add: results2_is tree_at_def results_ok_def NewPathCursor_def one_step_def key_of_def less_Suc_eq numeral_eq_Suc)

theorem labelled_values_lose_their_place_witness:
  "(\<exists>s'. HandleValue client1 logging lru_pair_get lru_pair next_value results2 = (s', None) \<and> re_cursor s' = None \<and>
     length (re_nodes s') = 4 \<and> rt_value (rnode s' 2) = zero_value\<lparr>rv_value := val_Value (BuildIntValue 8)\<rparr> \<and>
     walk (re_nodes s') 0 ([(1, 0), (0, 1)] @ [(2, 0)]) = None) \<and>
   value_at (re_nodes results2) [(1, 0), (0, 1), (2, 0)] = val_Value (BuildIntValue 7)"
proof
  have "cursor_at client1 (re_nodes results2) (rcursor results2 2) [(1, 0), (0, 1)]"
    unfolding cursor_at_def results2_is by code_simp
  moreover have "snd (lru_pair_get (rv_pos_identifier next_value) (re_pathCache results2)) = Some 2"
    "rv_pos_identifier next_value \<noteq> 0" "rv_value next_value \<noteq> None" by code_simp+
  moreover have "2 < length (re_cursors results2)" "\<not> pc_outOfBounds (rcursor results2 2)" "pc_rnode (rcursor results2 2) = 2"
    "length (re_nodes results2) = 4" "rv_value next_value = val_Value (BuildIntValue 8)" by code_simp+
  ultimately show "\<exists>s'. HandleValue client1 logging lru_pair_get lru_pair next_value results2 = (s', None) \<and> re_cursor s' = None \<and>
     length (re_nodes s') = 4 \<and> rt_value (rnode s' 2) = zero_value\<lparr>rv_value := val_Value (BuildIntValue 8)\<rparr> \<and>
     walk (re_nodes s') 0 ([(1, 0), (0, 1)] @ [(2, 0)]) = None"
    using labelled_values_lose_their_place [OF results2_at, of next_value lru_pair_get 2 "[(1, 0), (0, 1)]" logging lru_pair "[(2, 0)]"]
    by simp
qed code_simp

text \<open>The error of the first path; the second path, of the same field, ends up below it.\<close>

theorem errors_do_not_end_the_path_witness:
  "(\<exists>s' c st item. HandleValue client1 logging lru_pair_get lru_pair (zero_value\<lparr>rv_query_node_id := 1, rv_error := ''e''\<rparr>) results0 =
       (s', None) \<and> re_cursor s' = Some c \<and>
     dec_step (\<lambda>_. None, None) (zero_value\<lparr>rv_query_node_id := 1, rv_error := ''e''\<rparr>) = Some (st, [item]) \<and> snd st = None) \<and>
   value_at (re_nodes (fst (HandleValues client1 logging lru_pair_get lru_pair
       [zero_value\<lparr>rv_query_node_id := 1, rv_error := ''e''\<rparr>,
        zero_value\<lparr>rv_query_node_id := 1, rv_value := val_Value (BuildIntValue 7)\<rparr>] results0))) [(1, 0)] = None"
proof
  show "\<exists>s' c st item. HandleValue client1 logging lru_pair_get lru_pair (zero_value\<lparr>rv_query_node_id := 1, rv_error := ''e''\<rparr>) results0 =
       (s', None) \<and> re_cursor s' = Some c \<and>
     dec_step (\<lambda>_. None, None) (zero_value\<lparr>rv_query_node_id := 1, rv_error := ''e''\<rparr>) = Some (st, [item]) \<and> snd st = None"
    by (rule errors_do_not_end_the_path [OF results0_at]) simp_all
qed code_simp

theorem handlers_are_added_but_never_bound_to_cursors_witness:
  "re_cachedCursors results2 = [] \<and> unregistered (re_handlers results2) \<and>
    (\<exists>s'. AddResultHandler logging 0 results2 = Some s' \<and> re_nodes s' = re_nodes results2)"
proof -
  have new: "results_run client1 logging lru_pair_get lru_pair [] results0"
    by (rule results_run.new [of CACHE_LRU _ "[]"]) (simp add: results0_def NewResultTree_def)
  have step: "results_run client1 logging lru_pair_get lru_pair [] s \<Longrightarrow>
      results_run client1 logging lru_pair_get lru_pair [] (fst (HandleValue client1 logging lru_pair_get lru_pair va s))" for s va
    by (metis prod.collapse results_run.arrives)
  have eq: "results2 = fst (HandleValue client1 logging lru_pair_get lru_pair (zero_value\<lparr>rv_query_node_id := 2, rv_value := val_Value (BuildIntValue 7)\<rparr>)
      (fst (HandleValue client1 logging lru_pair_get lru_pair (zero_value\<lparr>rv_array_index := 1, rv_pos_identifier := 1\<rparr>)
        (fst (HandleValue client1 logging lru_pair_get lru_pair (zero_value\<lparr>rv_query_node_id := 1\<rparr>) results0)))))"
    unfolding results2_is by code_simp
  have run: "results_run client1 logging lru_pair_get lru_pair [] results2" unfolding eq by (rule step [OF step [OF step [OF new]]])
  show ?thesis by (rule handlers_are_added_but_never_bound_to_cursors [OF lru_pair_laws _ run]) simp
qed

end
