(* ===== verification/JsonDecoder.thy ===== *)
theory JsonDecoder
  imports ResultTree
begin

text \<open>
  \<open>client/json-decoder.go\<close>, \<open>json-decoder-handler.go\<close>: the result handler that builds a JSON object,
  behind the interface \<open>ResultTreeHandler\<close>. The maps of the result are objects in a list, the one of
  the decoder at the address 0; the handlers only ever store maps in them. Printing the result is
  not modelled.
\<close>

subsection \<open>The interface of a handler\<close>

text \<open>
  What the result tree needs of its handlers: a call keeps the state of the handlers well-formed,
  every handler that was usable stays usable, and so is the one that it returns.
\<close>

locale result_handler =
  fixes handle :: "('h, 'w) handle" and inv :: "'w \<Rightarrow> bool" and usable :: "'h \<Rightarrow> 'w \<Rightarrow> bool"
  assumes handle_inv: "inv w \<Longrightarrow> usable h w \<Longrightarrow> inv (fst (handle h val w))"
    and handle_others: "inv w \<Longrightarrow> usable h w \<Longrightarrow> usable h' w \<Longrightarrow> usable h' (fst (handle h val w))"
    and handle_next: "inv w \<Longrightarrow> usable h w \<Longrightarrow> snd (handle h val w) = Some h' \<Longrightarrow> usable h' (fst (handle h val w))"

definition handlers_in :: "('h \<Rightarrow> 'w \<Rightarrow> bool) \<Rightarrow> ('h, 'w, 'c) ResultTree \<Rightarrow> bool" where
  "handlers_in usable s \<longleftrightarrow> (\<forall>k \<in> set (re_cursors s). \<forall>h \<in> set (pc_resultHandlers k). usable h (re_world s))"

lemma handlers_inD:
  "handlers_in usable s \<Longrightarrow> c < length (re_cursors s) \<Longrightarrow> h \<in> set (pc_resultHandlers (rcursor s c)) \<Longrightarrow> usable h (re_world s)"
  unfolding handlers_in_def by (meson nth_mem)

lemma handlers_in_upd:
  assumes "handlers_in usable s" and "c < length (re_cursors s) \<Longrightarrow> \<forall>h \<in> set (pc_resultHandlers (f (rcursor s c))). usable h (re_world s)"
  shows "handlers_in usable (upd_cursor c f s)"
proof (cases "c < length (re_cursors s)")
  case True
  have "set (re_cursors (upd_cursor c f s)) \<subseteq> insert (f (rcursor s c)) (set (re_cursors s))"
    unfolding upd_cursor_def upd_at_def by (simp add: set_update_subset_insert)
  then show ?thesis using assms(1) assms(2) [OF True] unfolding handlers_in_def by auto
qed (use assms(1) in \<open>simp add: upd_cursor_def upd_at_def list_update_beyond handlers_in_def\<close>)

lemma handlers_in_frame:
  "handlers_in usable (s\<lparr>re_handlers := x\<rparr>) = handlers_in usable s"
  "handlers_in usable (s\<lparr>re_cursor := c\<rparr>) = handlers_in usable s"
  "handlers_in usable (s\<lparr>re_pathCache := p\<rparr>) = handlers_in usable s"
  "handlers_in usable (s\<lparr>re_nodes := n\<rparr>) = handlers_in usable s"
  "handlers_in usable (handleCursorEvict e s) = handlers_in usable s"
  by (simp_all add: handlers_in_def handleCursorEvict_def Let_def)

lemma handlers_in_Set: "handlers_in usable (PathCache_Set cadd key c s) = handlers_in usable s"
  by (simp add: PathCache_Set_def handlers_in_frame split: prod.split option.split)

lemma PathCache_Set_world [simp]: "re_world (PathCache_Set cadd key c s) = re_world s"
  by (simp add: PathCache_Set_def handleCursorEvict_def Let_def split: prod.split option.split)

lemma handlers_in_Clone:
  "handlers_in usable s \<Longrightarrow> c < length (re_cursors s) \<Longrightarrow> handlers_in usable (fst (Clone c s))"
  using handlers_inD [of usable s c] by (simp add: handlers_in_def)

lemma fold_some_rule:
  assumes "P s" and "fold_some f xs s = Some s'"
    and "\<And>x t t'. x \<in> set xs \<Longrightarrow> P t \<Longrightarrow> f x t = Some t' \<Longrightarrow> P t'"
  shows "P s'"
  using assms
proof (induction xs arbitrary: s)
  case (Cons x xs)
  then obtain s1 where "f x s = Some s1" "fold_some f xs s1 = Some s'" by (auto split: bind_splits)
  then show ?case using Cons.IH [of s1] Cons.prems by (metis list.set_intros)
qed simp

lemma callHandler_shape:
  assumes "tree_shape held s" and "n < length (re_nodes s)" and "callHandler fuel handle bind_cached n h s = Some s'"
  shows "tree_shape held s' \<and> re_nodes s' = re_nodes s"
  using assms
proof (induction fuel arbitrary: n h s s')
  case (Suc fuel)
  show ?case
  proof (rule fold_some_rule [where P = "\<lambda>t. tree_shape held t \<and> re_nodes t = re_nodes s"])
    show "tree_shape held s \<and> re_nodes s = re_nodes s" using Suc.prems(1) by simp
    show "fold_some (\<lambda>child s. case handle h (rt_value (rnode s child)) (re_world s) of
        (w, None) \<Rightarrow> Some (s\<lparr>re_world := w\<rparr>)
      | (w, Some nextHandler) \<Rightarrow> callHandler fuel handle bind_cached child nextHandler (bind_cached child nextHandler (s\<lparr>re_world := w\<rparr>)))
      (rt_children (rnode s n)) s = Some s'"
      using Suc.prems(3) by simp
    fix c t t'
    assume c: "c \<in> set (rt_children (rnode s n))" and t: "tree_shape held t \<and> re_nodes t = re_nodes s"
      and f: "(case handle h (rt_value (rnode t c)) (re_world t) of
        (w, None) \<Rightarrow> Some (t\<lparr>re_world := w\<rparr>)
      | (w, Some nextHandler) \<Rightarrow> callHandler fuel handle bind_cached c nextHandler (bind_cached c nextHandler (t\<lparr>re_world := w\<rparr>))) = Some t'"
    obtain w nx where h: "handle h (rt_value (rnode t c)) (re_world t) = (w, nx)" by fastforce
    have cl: "c < length (re_nodes s)" using nodes_shapeD [OF tree_shapeD(1) [OF Suc.prems(1)] Suc.prems(2) c] by simp
    have tw: "tree_shape held (t\<lparr>re_world := w\<rparr>)" by (rule world_shape) (use t in simp)
    show "tree_shape held t' \<and> re_nodes t' = re_nodes s"
    proof (cases nx)
      case None
      then have "t' = t\<lparr>re_world := w\<rparr>" using f h by simp
      then show ?thesis using tw t by simp
    next
      case (Some h')
      note b = bind_cached_shape [OF tw, of c h']
      have nodes: "re_nodes (bind_cached c h' (t\<lparr>re_world := w\<rparr>)) = re_nodes s" using b(2) t by simp
      have "callHandler fuel handle bind_cached c h' (bind_cached c h' (t\<lparr>re_world := w\<rparr>)) = Some t'" using f h Some by simp
      then have "tree_shape held t' \<and> re_nodes t' = re_nodes (bind_cached c h' (t\<lparr>re_world := w\<rparr>))"
        by (rule Suc.IH [OF b(1), rotated]) (use nodes cl in simp)
      then show ?thesis using nodes by metis
    qed
  qed
qed simp

context result_handler
begin

lemma handle_all_usable:
  assumes "inv w" and "\<And>h. h \<in> set hs \<Longrightarrow> usable h w"
  shows "inv (fst (handle_all handle val hs w)) \<and> (\<forall>h. usable h w \<longrightarrow> usable h (fst (handle_all handle val hs w))) \<and>
    (\<forall>h \<in> set (snd (handle_all handle val hs w)). usable h (fst (handle_all handle val hs w)))"
  using assms
proof (induction hs arbitrary: w)
  case (Cons h hs)
  obtain w1 nx where h: "handle h val w = (w1, nx)" by fastforce
  obtain w2 hs' where t: "handle_all handle val hs w1 = (w2, hs')" by fastforce
  have u: "usable h w" using Cons.prems(2) by simp
  have w1: "inv w1" using handle_inv [OF Cons.prems(1) u, of val] h by simp
  have keep: "usable h' w1" if "usable h' w" for h' using handle_others [OF Cons.prems(1) u that, of val] h by simp
  have nx: "usable h' w1" if "nx = Some h'" for h' using handle_next [OF Cons.prems(1) u, of val h'] h that by simp
  have IH: "inv w2 \<and> (\<forall>h. usable h w1 \<longrightarrow> usable h w2) \<and> (\<forall>h \<in> set hs'. usable h w2)"
    using Cons.IH [OF w1] keep Cons.prems(2) t by simp
  have all: "handle_all handle val (h # hs) w = (w2, case nx of None \<Rightarrow> hs' | Some h' \<Rightarrow> h' # hs')"
    using h t by simp
  have "\<forall>h \<in> set (case nx of None \<Rightarrow> hs' | Some h' \<Rightarrow> h' # hs'). usable h w2" using IH nx by (cases nx) auto
  then show ?case unfolding all fst_conv snd_conv using IH keep by blast
qed simp

lemma Apply_usable:
  assumes w: "inv (re_world s)" and hs: "handlers_in usable s" and c: "c < length (re_cursors s)"
  shows "inv (re_world (Apply q handle val c s)) \<and> handlers_in usable (Apply q handle val c s)"
proof -
  define k where "k = rcursor s c"
  obtain w' hs' where all: "handle_all handle val (pc_resultHandlers k) (re_world s) = (w', hs')" by fastforce
  have usable: "inv w' \<and> (\<forall>h. usable h (re_world s) \<longrightarrow> usable h w') \<and> (\<forall>h \<in> set hs'. usable h w')"
    using handle_all_usable [OF w, of "pc_resultHandlers k" val] handlers_inD [OF hs c] all k_def by simp
  have move: "inv (re_world t) \<and> handlers_in usable t"
    if "t = upd_cursor c (\<lambda>_. k\<lparr>pc_qnode := qn, pc_resultHandlers := hs', pc_rnode := r\<rparr>) (s\<lparr>re_nodes := nodes, re_world := w'\<rparr>)"
    for t qn r nodes
  proof -
    have "handlers_in usable (s\<lparr>re_nodes := nodes, re_world := w'\<rparr>)" using hs usable by (simp add: handlers_in_def)
    then have "handlers_in usable t" unfolding that by (rule handlers_in_upd) (use usable in simp)
    then show ?thesis using usable that by simp
  qed
  have advance: "inv (re_world (advance handle val c qn rtn s)) \<and> handlers_in usable (advance handle val c qn rtn s)" for qn rtn
    using advance_world [of handle val s c w' hs' qn rtn] all move unfolding k_def by blast
  have oob: "handlers_in usable (upd_cursor c (\<lambda>x. x\<lparr>pc_outOfBounds := True\<rparr>) s)"
    by (rule handlers_in_upd [OF hs]) (use handlers_inD [OF hs c] in simp)
  show ?thesis by (rule Apply_cases) (use w hs oob advance in simp_all)
qed

lemma Clone_usable:
  assumes "inv (re_world s) \<and> handlers_in usable s" and "c < length (re_cursors s)"
  shows "inv (re_world (fst (Clone c s))) \<and> handlers_in usable (fst (Clone c s))"
  using assms(1) handlers_in_Clone [OF conjunct2 [OF assms(1)] assms(2)] by simp

lemma HandleValue_usable:
  assumes laws: "cache_laws cget cadd held" and sh: "tree_shape held s" and us: "inv (re_world s) \<and> handlers_in usable s"
  shows "inv (re_world (fst (HandleValue q handle cget cadd va s))) \<and>
    handlers_in usable (fst (HandleValue q handle cget cadd va s))"
proof (cases "re_cursor s = None \<and> rv_pos_identifier va \<noteq> 0")
  case True
  obtain cache found where get: "cget (rv_pos_identifier va) (re_pathCache s) = (cache, found)" by fastforce
  show ?thesis
  proof (cases found)
    case None
    then show ?thesis using True get us by (simp add: HandleValue_def PathCache_Get_def handlers_in_frame)
  next
    case (Some p)
    have p: "p < length (re_cursors s)"
      using cache_lawsD(2) [OF laws, of "rv_pos_identifier va" "re_pathCache s" p] get Some tree_shapeD(4) [OF sh] by auto
    define s2 where "s2 = fst (Clone p (s\<lparr>re_pathCache := cache\<rparr>))"
    have s2: "inv (re_world s2) \<and> handlers_in usable s2" "length (re_cursors s) < length (re_cursors s2)"
      unfolding s2_def using Clone_usable [of "s\<lparr>re_pathCache := cache\<rparr>" p] us p by (simp_all add: handlers_in_frame)
    have "HandleValue q handle cget cadd va s = (if rv_value va \<noteq> None
        then (Apply q handle (zero_value\<lparr>rv_value := rv_value va\<rparr>) (length (re_cursors s)) s2)\<lparr>re_cursor := None\<rparr>
        else s2\<lparr>re_cursor := Some (length (re_cursors s))\<rparr>, None)"
      using True get Some by (simp add: HandleValue_label Let_def s2_def)
    then show ?thesis
      using s2(1) Apply_usable [OF conjunct1 [OF s2(1)] conjunct2 [OF s2(1)] s2(2), of q "zero_value\<lparr>rv_value := rv_value va\<rparr>"]
      by (simp add: handlers_in_frame)
  qed
next
  case False
  obtain s1 c where cur: "current s = (s1, c)" by fastforce
  have s1: "inv (re_world s1) \<and> handlers_in usable s1" "c < length (re_cursors s1)"
  proof -
    have "(inv (re_world s1) \<and> handlers_in usable s1) \<and> c < length (re_cursors s1)"
    proof (cases "re_cursor s")
      case None
      have "0 < length (re_cursors s)" using tree_shapeD(2) [OF sh] by (simp add: cursors_shape_def)
      moreover have "s1 = fst (Clone 0 s)" "c = length (re_cursors s)" using cur None by (simp_all add: current_def Clone_def)
      ultimately show ?thesis using Clone_usable [OF us, of 0] by simp
    next
      case (Some c')
      then show ?thesis using cur us tree_shapeD(3) [OF sh Some] by (simp add: current_def)
    qed
    then show "inv (re_world s1) \<and> handlers_in usable s1" "c < length (re_cursors s1)" by blast+
  qed
  define s2 where "s2 = Apply q handle va c (s1\<lparr>re_cursor := Some c\<rparr>)"
  have s2: "inv (re_world s2) \<and> handlers_in usable s2" "c < length (re_cursors s2)"
    unfolding s2_def using Apply_usable [of "s1\<lparr>re_cursor := Some c\<rparr>" c q va] s1 by (simp_all add: handlers_in_frame)
  have cl: "inv (re_world (fst (Clone c s2))) \<and> handlers_in usable (fst (Clone c s2))" using Clone_usable [OF s2] .
  have "HandleValue q handle cget cadd va s =
      (let s3 = (if rv_pos_identifier va \<noteq> 0
          then PathCache_Set cadd (rv_pos_identifier va) (length (re_cursors s2)) (fst (Clone c s2)) else s2)
       in (if rv_value va \<noteq> None then s3\<lparr>re_cursor := None\<rparr> else s3, None))"
    using HandleValue_next [OF False cur] by (simp add: Let_def s2_def [symmetric])
  then show ?thesis using s2(1) cl by (simp add: Let_def handlers_in_frame handlers_in_Set)
qed

lemma bind_cached_usable:
  assumes "tree_shape held s" and "inv (re_world s) \<and> handlers_in usable s"
  shows "inv (re_world (bind_cached c h s)) \<and> handlers_in usable (bind_cached c h s)"
  using assms tree_shapeD(5) [OF assms(1)] by (simp add: bind_cached_def handlers_in_frame)

lemma callHandler_usable:
  assumes "tree_shape held s" and "inv (re_world s) \<and> handlers_in usable s" and "usable h (re_world s)"
    and "n < length (re_nodes s)" and "callHandler fuel handle bind_cached n h s = Some s'"
  shows "(inv (re_world s') \<and> handlers_in usable s') \<and> (\<forall>x. usable x (re_world s) \<longrightarrow> usable x (re_world s'))"
  using assms
proof (induction fuel arbitrary: n h s s')
  case (Suc fuel)
  define P where "P = (\<lambda>t. tree_shape held t \<and> re_nodes t = re_nodes s \<and> (inv (re_world t) \<and> handlers_in usable t) \<and>
      (\<forall>x. usable x (re_world s) \<longrightarrow> usable x (re_world t)))"
  have "P s'"
  proof (rule fold_some_rule [where P = P])
    show "P s" unfolding P_def using Suc.prems(1,2) by blast
    show "fold_some (\<lambda>child s. case handle h (rt_value (rnode s child)) (re_world s) of
        (w, None) \<Rightarrow> Some (s\<lparr>re_world := w\<rparr>)
      | (w, Some nextHandler) \<Rightarrow> callHandler fuel handle bind_cached child nextHandler (bind_cached child nextHandler (s\<lparr>re_world := w\<rparr>)))
      (rt_children (rnode s n)) s = Some s'"
      using Suc.prems(5) by simp
    fix c t t'
    assume c: "c \<in> set (rt_children (rnode s n))" and Pt: "P t"
      and f: "(case handle h (rt_value (rnode t c)) (re_world t) of
        (w, None) \<Rightarrow> Some (t\<lparr>re_world := w\<rparr>)
      | (w, Some nextHandler) \<Rightarrow> callHandler fuel handle bind_cached c nextHandler (bind_cached c nextHandler (t\<lparr>re_world := w\<rparr>))) = Some t'"
    have sh: "tree_shape held t" and nodes: "re_nodes t = re_nodes s" and w: "inv (re_world t)" and hs: "handlers_in usable t"
      and keep: "\<And>x. usable x (re_world s) \<Longrightarrow> usable x (re_world t)" using Pt unfolding P_def by blast+
    obtain w' nx where h: "handle h (rt_value (rnode t c)) (re_world t) = (w', nx)" by fastforce
    note uh = keep [OF Suc.prems(3)]
    have w': "inv w'" using handle_inv [OF w uh, of "rt_value (rnode t c)"] h by simp
    have keep': "usable x w'" if "usable x (re_world t)" for x using handle_others [OF w uh that, of "rt_value (rnode t c)"] h by simp
    have sh1: "tree_shape held (t\<lparr>re_world := w'\<rparr>)" by (rule world_shape [OF sh])
    have hs1: "handlers_in usable (t\<lparr>re_world := w'\<rparr>)" using hs keep' by (simp add: handlers_in_def)
    show "P t'"
    proof (cases nx)
      case None
      then have "t' = t\<lparr>re_world := w'\<rparr>" using f h by simp
      then show ?thesis unfolding P_def using sh1 hs1 w' nodes keep keep' by simp
    next
      case (Some h')
      define t1 where "t1 = bind_cached c h' (t\<lparr>re_world := w'\<rparr>)"
      have t1: "tree_shape held t1" "re_nodes t1 = re_nodes s" using bind_cached_shape [OF sh1, of c h'] nodes by (simp_all add: t1_def)
      have wt1: "re_world t1 = w'" unfolding t1_def using tree_shapeD(5) [OF sh1] by (simp add: bind_cached_def)
      have u1: "inv (re_world t1) \<and> handlers_in usable t1"
        unfolding t1_def by (rule bind_cached_usable [OF sh1]) (use w' hs1 in simp)
      have call: "callHandler fuel handle bind_cached c h' t1 = Some t'" using f h Some by (simp add: t1_def)
      have nx: "usable h' (re_world t1)" using handle_next [OF w uh, of "rt_value (rnode t c)" h'] h Some wt1 by simp
      have cl: "n < c \<and> c < length (re_nodes s)" using nodes_shapeD [OF tree_shapeD(1) [OF Suc.prems(1)] Suc.prems(4) c] .
      have res: "(inv (re_world t') \<and> handlers_in usable t') \<and> (\<forall>x. usable x (re_world t1) \<longrightarrow> usable x (re_world t'))"
        by (rule Suc.IH [OF t1(1) u1 nx _ call]) (use cl t1(2) in simp)
      have sh': "tree_shape held t' \<and> re_nodes t' = re_nodes t1"
        by (rule callHandler_shape [OF t1(1) _ call]) (use cl t1(2) in simp)
      show ?thesis unfolding P_def using res sh' t1(2) wt1 keep keep' by metis
    qed
  qed
  then show ?case unfolding P_def by blast
qed simp

lemma AddResultHandler_usable:
  assumes "tree_shape held s" and "inv (re_world s) \<and> handlers_in usable s" and "usable h (re_world s)"
    and "AddResultHandler handle h s = Some s'"
  shows "inv (re_world s') \<and> handlers_in usable s'"
proof (cases "map_of (re_handlers s) h = None")
  case True
  define s1 where "s1 = upd_cursor 0 (\<lambda>x. x\<lparr>pc_resultHandlers := pc_resultHandlers x @ [h]\<rparr>) (s\<lparr>re_handlers := AList.update h [] (re_handlers s)\<rparr>)"
  have "tree_shape held (s\<lparr>re_handlers := AList.update h [] (re_handlers s)\<rparr>)"
    using assms(1) unregistered_update [OF tree_shapeD(6) [OF assms(1)], of h] by (simp add: tree_shape_def)
  then have sh: "tree_shape held s1" unfolding s1_def by (rule upd_cursor_shape) simp
  have "handlers_in usable s1"
    unfolding s1_def
  proof (rule handlers_in_upd)
    show "handlers_in usable (s\<lparr>re_handlers := AList.update h [] (re_handlers s)\<rparr>)" using assms(2) by (simp add: handlers_in_frame)
    show "\<forall>x \<in> set (pc_resultHandlers ((rcursor (s\<lparr>re_handlers := AList.update h [] (re_handlers s)\<rparr>) 0)
        \<lparr>pc_resultHandlers := pc_resultHandlers (rcursor (s\<lparr>re_handlers := AList.update h [] (re_handlers s)\<rparr>) 0) @ [h]\<rparr>)).
        usable x (re_world (s\<lparr>re_handlers := AList.update h [] (re_handlers s)\<rparr>))"
      if "0 < length (re_cursors (s\<lparr>re_handlers := AList.update h [] (re_handlers s)\<rparr>))"
      using that handlers_inD [OF conjunct2 [OF assms(2)], of 0] assms(3) by auto
  qed
  then have u: "inv (re_world s1) \<and> handlers_in usable s1" "usable h (re_world s1)" using assms(2,3) by (simp_all add: s1_def)
  have n: "0 < length (re_nodes s1)" using tree_shapeD(1) [OF sh] by (simp add: nodes_shape_def)
  have "callHandler (length (re_nodes s)) handle bind_cached 0 h s1 = Some s'"
    using assms(4) True by (simp add: AddResultHandler_def s1_def)
  from callHandler_usable [OF sh u n this] show ?thesis by blast
qed (use assms in \<open>simp add: AddResultHandler_def\<close>)

lemma RemoveResultHandler_usable:
  assumes "tree_shape held s" and "inv (re_world s) \<and> handlers_in usable s"
  shows "inv (re_world (RemoveResultHandler h s)) \<and> handlers_in usable (RemoveResultHandler h s)"
proof (cases "map_of (re_handlers s) h")
  case (Some cs)
  have sub: "set (rmFromResultHandlers h hs) \<subseteq> set hs" for hs
  proof (cases "find (\<lambda>i. hs ! i = h) [0..<length hs]")
    case (Some i)
    then have "i < length hs" using find_child [OF Some] by simp
    then show ?thesis using Some set_swap_remove_subset by (simp add: rmFromResultHandlers_def)
  qed (simp add: rmFromResultHandlers_def)
  have "handlers_in usable (upd_cursor 0 (\<lambda>x. x\<lparr>pc_resultHandlers := rmFromResultHandlers h (pc_resultHandlers x)\<rparr>)
      (s\<lparr>re_handlers := AList.delete h (re_handlers s)\<rparr>))"
    by (rule handlers_in_upd) (use assms(2) handlers_inD [OF conjunct2 [OF assms(2)], of 0] sub in \<open>auto simp: handlers_in_frame\<close>)
  then show ?thesis using Some assms(2) unregistered_lookup [OF tree_shapeD(6) [OF assms(1)] Some] by (simp add: RemoveResultHandler_def)
qed (use assms in \<open>simp add: RemoveResultHandler_def\<close>)

end

subsection \<open>The decoder (json-decoder.go, json-decoder-handler.go)\<close>

type_synonym json_maps = "(string \<times> addr) list list"

record jsonDecoderHandler =
  jh_qnode :: addr
  jh_result :: addr

definition newJsonDecoderHandler :: "addr \<Rightarrow> addr \<Rightarrow> jsonDecoderHandler" where
  "newJsonDecoderHandler result qtNode = \<lparr>jh_qnode = qtNode, jh_result = result\<rparr>"

definition HandleResultValue :: "QueryTree \<Rightarrow> (jsonDecoderHandler, json_maps) handle" where
  "HandleResultValue q d val w =
     (if rv_query_node_id val \<noteq> 0 then
        (case lookupChildByID q (jh_qnode d) (rv_query_node_id val) of
           None \<Rightarrow> (w, None)
         | Some qchild \<Rightarrow>
             (let fieldName = cn_name (cnode q qchild)
              in case map_of (w ! jh_result d) fieldName of
                   Some rmap \<Rightarrow> (w, Some (newJsonDecoderHandler rmap qchild))
                 | None \<Rightarrow>
                     (upd_at (jh_result d) (AList.update fieldName (length w)) w @ [[]],
                      Some (newJsonDecoderHandler (length w) qchild))))
      else (w, None))"

text \<open>A new decoder, whose map is the next one; its handler is \<open>GetResultHandler\<close>.\<close>

definition NewJSONDecoder :: "json_maps \<Rightarrow> json_maps \<times> jsonDecoderHandler" where
  "NewJSONDecoder w = (w @ [[]], newJsonDecoderHandler (length w) 0)"

text \<open>The object that \<open>Access\<close> hands out, and that is printed: all that is reachable from a map.\<close>

datatype json = JSONObject "(string \<times> json) list"

primrec json_fields :: "(addr \<Rightarrow> json option) \<Rightarrow> (string \<times> addr) list \<Rightarrow> (string \<times> json) list option" where
  "json_fields f [] = Some []"
| "json_fields f (e # es) =
     (case f (snd e) of
        None \<Rightarrow> None
      | Some j \<Rightarrow> map_option (\<lambda>js. (fst e, j) # js) (json_fields f es))"

primrec json_of :: "nat \<Rightarrow> json_maps \<Rightarrow> addr \<Rightarrow> json option" where
  "json_of 0 w a = None"
| "json_of (Suc fuel) w a = map_option JSONObject (json_fields (json_of fuel w) (w ! a))"

definition Access :: "json_maps \<Rightarrow> addr \<Rightarrow> json option" where
  "Access w a = json_of (length w) w a"

subsection \<open>The decoder is a handler\<close>

text \<open>The maps in a map were made after it, and a handler is at one of the maps.\<close>

definition maps_ok :: "json_maps \<Rightarrow> bool" where
  "maps_ok w \<longleftrightarrow> (\<forall>a < length w. \<forall>e \<in> set (w ! a). a < snd e \<and> snd e < length w)"

definition at_map :: "jsonDecoderHandler \<Rightarrow> json_maps \<Rightarrow> bool" where
  "at_map h w \<longleftrightarrow> jh_result h < length w"

lemma maps_okD: "maps_ok w \<Longrightarrow> a < length w \<Longrightarrow> e \<in> set (w ! a) \<Longrightarrow> a < snd e \<and> snd e < length w"
  unfolding maps_ok_def by blast

lemma update_entries: "e \<in> set (AList.update k v m) \<Longrightarrow> e = (k, v) \<or> e \<in> set m"
  by (induction m) (auto split: if_splits)

lemma HandleResultValue_cases:
  obtains "HandleResultValue q d val w = (w, None)"
  | f rmap qchild where "map_of (w ! jh_result d) f = Some rmap"
      and "HandleResultValue q d val w = (w, Some (newJsonDecoderHandler rmap qchild))"
  | f qchild where "HandleResultValue q d val w =
      (upd_at (jh_result d) (AList.update f (length w)) w @ [[]], Some (newJsonDecoderHandler (length w) qchild))"
proof (cases "rv_query_node_id val = 0 \<or> lookupChildByID q (jh_qnode d) (rv_query_node_id val) = None")
  case True
  then show thesis using that(1) by (auto simp: HandleResultValue_def)
next
  case False
  then obtain qchild where "rv_query_node_id val \<noteq> 0" "lookupChildByID q (jh_qnode d) (rv_query_node_id val) = Some qchild"
    by blast
  then show thesis using that(2,3)
    by (cases "map_of (w ! jh_result d) (cn_name (cnode q qchild))") (auto simp: HandleResultValue_def Let_def)
qed

lemma new_map_ok:
  assumes "maps_ok w" and "r < length w"
  shows "maps_ok (upd_at r (AList.update f (length w)) w @ [[]])"
  unfolding maps_ok_def
proof (intro allI impI ballI)
  fix a e
  assume a: "a < length (upd_at r (AList.update f (length w)) w @ [[]])"
    and e: "e \<in> set ((upd_at r (AList.update f (length w)) w @ [[]]) ! a)"
  have al: "a < length w" using a e by (cases "a = length w") (auto simp: nth_append)
  then have "e = (f, length w) \<or> e \<in> set (w ! a)"
    using e update_entries [of e f "length w" "w ! r"] by (auto simp: nth_append nth_upd_at split: if_splits)
  then show "a < snd e \<and> snd e < length (upd_at r (AList.update f (length w)) w @ [[]])"
    using maps_okD [OF assms(1) al, of e] al by auto
qed

lemma json_of_total: "maps_ok w \<Longrightarrow> a < length w \<Longrightarrow> length w \<le> fuel + a \<Longrightarrow> json_of fuel w a \<noteq> None"
proof (induction fuel arbitrary: a)
  case (Suc fuel)
  have "json_fields (json_of fuel w) es \<noteq> None" if "set es \<subseteq> set (w ! a)" for es
    using that
  proof (induction es)
    case (Cons e es)
    have "a < snd e \<and> snd e < length w" using maps_okD [OF Suc.prems(1,2), of e] Cons.prems by simp
    then have "json_of fuel w (snd e) \<noteq> None" using Suc.IH [OF Suc.prems(1), of "snd e"] Suc.prems(3) by simp
    then show ?case using Cons.IH Cons.prems by auto
  qed simp
  then show ?case by simp
qed simp

interpretation json: result_handler "HandleResultValue q" maps_ok at_map for q
proof
  fix w h h' val
  assume w: "maps_ok w" and h: "at_map h w"
  show "maps_ok (fst (HandleResultValue q h val w))"
    using w h new_map_ok [OF w] by (cases q h val w rule: HandleResultValue_cases) (auto simp: at_map_def)
  show "at_map h' (fst (HandleResultValue q h val w))" if "at_map h' w"
    using that by (cases q h val w rule: HandleResultValue_cases) (auto simp: at_map_def)
  show "at_map h' (fst (HandleResultValue q h val w))" if "snd (HandleResultValue q h val w) = Some h'"
  proof (cases q h val w rule: HandleResultValue_cases)
    case (2 f rmap qchild)
    then show ?thesis using that maps_okD [OF w, of "jh_result h" "(f, rmap)"] h
      by (auto simp: at_map_def newJsonDecoderHandler_def dest: map_of_SomeD)
  qed (use that in \<open>auto simp: at_map_def newJsonDecoderHandler_def\<close>)
qed

text \<open>What a client can reach that only uses decoders as its handlers.\<close>

inductive decoders_run ::
  "QueryTree \<Rightarrow> 'c cache_get \<Rightarrow> 'c cache_add \<Rightarrow> 'c \<Rightarrow> (jsonDecoderHandler, json_maps, 'c) ResultTree \<Rightarrow> bool"
  for q cget cadd cache where
  new: "NewResultTree strategy cache [] = Inr s \<Longrightarrow> decoders_run q cget cadd cache s"
| arrives: "decoders_run q cget cadd cache s \<Longrightarrow> HandleValue q (HandleResultValue q) cget cadd va s = (s', e) \<Longrightarrow>
     decoders_run q cget cadd cache s'"
| add: "decoders_run q cget cadd cache s \<Longrightarrow> NewJSONDecoder (re_world s) = (w, d) \<Longrightarrow>
     AddResultHandler (HandleResultValue q) d (s\<lparr>re_world := w\<rparr>) = Some s' \<Longrightarrow> decoders_run q cget cadd cache s'"
| remove: "decoders_run q cget cadd cache s \<Longrightarrow> decoders_run q cget cadd cache (RemoveResultHandler h s)"

lemma decoders_run_inv:
  assumes laws: "cache_laws cget cadd held" and empty: "held cache = {}"
  shows "decoders_run q cget cadd cache s \<Longrightarrow> tree_shape held s \<and> maps_ok (re_world s) \<and> handlers_in at_map s"
proof (induction rule: decoders_run.induct)
  case (new strategy s)
  then have s: "s = \<lparr>re_nodes = [newRtNode zero_value], re_cursors = [NewPathCursor 0 0], re_cursor = None,
      re_pathCache = cache, re_handlers = [], re_cachedCursors = [], re_world = []\<rparr>"
    by (auto simp: NewResultTree_def split: if_splits)
  have "results_run q (HandleResultValue q) cget cadd cache s" using new by (rule results_run.new)
  then have "tree_shape held s" by (rule results_run_shape [OF laws empty])
  then show ?case by (simp add: s maps_ok_def handlers_in_def NewPathCursor_def)
next
  case (arrives s va s' e)
  have sh: "tree_shape held s" and us: "maps_ok (re_world s) \<and> handlers_in at_map s" using arrives.IH by blast+
  have "s' = fst (HandleValue q (HandleResultValue q) cget cadd va s)" using arrives.hyps(2) by simp
  then show ?case using HandleValue_shape [OF laws sh, of q "HandleResultValue q" va] json.HandleValue_usable [OF laws sh us, of q q va]
    by metis
next
  case (add s w d s')
  have sh: "tree_shape held s" and us: "maps_ok (re_world s)" "handlers_in at_map s" using add.IH by blast+
  have w: "w = re_world s @ [[]]" "d = newJsonDecoderHandler (length (re_world s)) 0"
    using add.hyps(2) by (simp_all add: NewJSONDecoder_def)
  have "maps_ok w" using us(1) unfolding w maps_ok_def by (auto simp: nth_append less_Suc_eq)
  moreover have "handlers_in at_map (s\<lparr>re_world := w\<rparr>)" using us(2) by (fastforce simp: handlers_in_def at_map_def w)
  ultimately have us': "maps_ok (re_world (s\<lparr>re_world := w\<rparr>)) \<and> handlers_in at_map (s\<lparr>re_world := w\<rparr>)" by simp
  have d: "at_map d (re_world (s\<lparr>re_world := w\<rparr>))" by (simp add: at_map_def w newJsonDecoderHandler_def)
  have sh': "tree_shape held (s\<lparr>re_world := w\<rparr>)" using world_shape [OF sh] .
  show ?case using json.AddResultHandler_usable [OF sh' us' d add.hyps(3)] AddResultHandler_shape [OF sh', of "HandleResultValue q" d] add.hyps(3)
    by auto
next
  case (remove s h)
  then have sh: "tree_shape held s" and us: "maps_ok (re_world s) \<and> handlers_in at_map s" by blast+
  show ?case using RemoveResultHandler_shape [OF sh] json.RemoveResultHandler_usable [OF sh us] by blast
qed

subsection \<open>Properties\<close>

text \<open>
  C18: Whatever values arrive and however decoders come and go, every map of the result is in reach of a
  decoder as a finite object, which \<open>Access\<close> returns and which can be printed, and every handler
  that is called is at a map that exists.
\<close>

theorem decoded_results_are_finite_objects:
  assumes "cache_laws cget cadd held" and "held cache = {}" and "decoders_run q cget cadd cache s"
  shows "(\<forall>a < length (re_world s). Access (re_world s) a \<noteq> None) \<and>
    (\<forall>k \<in> set (re_cursors s). \<forall>d \<in> set (pc_resultHandlers k). jh_result d < length (re_world s))"
proof -
  have inv: "maps_ok (re_world s)" "handlers_in at_map s" using decoders_run_inv [OF assms] by blast+
  have "Access (re_world s) a \<noteq> None" if "a < length (re_world s)" for a
    unfolding Access_def by (rule json_of_total [OF inv(1) that]) simp
  then show ?thesis using inv(2) by (simp add: handlers_in_def at_map_def)
qed

text \<open>The value of a field of an element of a list, and the decoder that is added after it.\<close>

definition decoded0 :: "(jsonDecoderHandler, json_maps, (u32 \<times> addr) list) ResultTree" where
  "decoded0 = (case NewResultTree CACHE_LRU [] [] of Inr s \<Rightarrow> s)"

definition decoded1 :: "(jsonDecoderHandler, json_maps, (u32 \<times> addr) list) ResultTree" where
  "decoded1 = fst (HandleValue client1 (HandleResultValue client1) lru_pair_get lru_pair
     (zero_value\<lparr>rv_query_node_id := 1, rv_value := val_Value (BuildIntValue 7)\<rparr>) decoded0)"

definition decoded2 :: "(jsonDecoderHandler, json_maps, (u32 \<times> addr) list) ResultTree" where
  "decoded2 = the (AddResultHandler (HandleResultValue client1) (snd (NewJSONDecoder (re_world decoded1)))
     (decoded1\<lparr>re_world := fst (NewJSONDecoder (re_world decoded1))\<rparr>))"

text \<open>The object has the field, but its value is an empty object: values are never stored.\<close>

theorem decoded_results_are_finite_objects_witness:
  "Access (re_world decoded2) 0 \<noteq> None \<and>
   Access (re_world decoded2) 0 = Some (JSONObject [(cn_name (cnode client1 1), JSONObject [])])"
proof
  have r0: "decoders_run client1 lru_pair_get lru_pair [] decoded0"
    by (rule decoders_run.new [of CACHE_LRU]) (simp add: decoded0_def NewResultTree_def)
  have r1: "decoders_run client1 lru_pair_get lru_pair [] decoded1"
    unfolding decoded1_def by (rule decoders_run.arrives [OF r0]) (rule prod.collapse [symmetric])
  have "AddResultHandler (HandleResultValue client1) (snd (NewJSONDecoder (re_world decoded1)))
     (decoded1\<lparr>re_world := fst (NewJSONDecoder (re_world decoded1))\<rparr>) = Some decoded2"
    unfolding decoded2_def by code_simp
  then have r2: "decoders_run client1 lru_pair_get lru_pair [] decoded2"
    by (rule decoders_run.add [OF r1, rotated]) simp
  have "0 < length (re_world decoded2)" by code_simp
  then show "Access (re_world decoded2) 0 \<noteq> None"
    using decoded_results_are_finite_objects [OF lru_pair_laws _ r2] by simp
  show "Access (re_world decoded2) 0 = Some (JSONObject [(cn_name (cnode client1 1), JSONObject [])])" by code_simp
qed

end
