(* ===== verification/Multiplexer.thy ===== *)
theory Multiplexer
  imports Messages
begin

text \<open>
  \<open>result/multiplexer.go\<close>, \<open>result/query_ex.go\<close>: the goroutines that merge the result streams of the
  queries of one client into one channel, as a step relation. A goroutine moves in steps between
  which the others may move: the main loop of \<open>runMultiplexer\<close>, one \<open>handleTree\<close> for each execution,
  the encoders that fill the output channels of the executions, and the reader of the client's
  channel. A \<open>send\<close> puts its message in the channel or, after its timeout or when the context is
  done, drops it.

  The slice \<open>values\<close> of a handler is a view of an array, which \<open>append\<close> writes to in place while the
  capacity lasts, and \<open>values[:0]\<close> keeps. The batch in the channel refers to the array, and the
  reader sees what is in it when it comes to the message. The arrays of a handler are its own. The
  capacity that \<open>append\<close> gives to a new array is the parameter \<open>grow\<close>. Histories, which the code
  does not have, are kept of what is sent into the channels of the executions (\<open>ch_all\<close>), and of
  the messages as they are when they are sent (\<open>mx_log\<close>) and when they are read (\<open>mx_read\<close>).
\<close>

subsection \<open>Slices\<close>

record slice =
  sl_arr :: addr
  sl_len :: nat

type_synonym arrays = "u8 list list list"

definition slice_read :: "arrays \<Rightarrow> slice \<Rightarrow> u8 list list" where
  "slice_read h s = take (sl_len s) (h ! sl_arr s)"

definition make_slice :: "nat \<Rightarrow> arrays \<Rightarrow> slice \<times> arrays" where
  "make_slice capacity h = (\<lparr>sl_arr = length h, sl_len = 0\<rparr>, h @ [replicate capacity []])"

definition append_val :: "(nat \<Rightarrow> nat) \<Rightarrow> u8 list \<Rightarrow> slice \<Rightarrow> arrays \<Rightarrow> slice \<times> arrays" where
  "append_val grow v s h =
     (if sl_len s < length (h ! sl_arr s) then
        (s\<lparr>sl_len := sl_len s + 1\<rparr>, upd_at (sl_arr s) (\<lambda>a. a[sl_len s := v]) h)
      else
        (\<lparr>sl_arr = length h, sl_len = sl_len s + 1\<rparr>,
         h @ [slice_read h s @ v # replicate (grow (sl_len s) - sl_len s - 1) []]))"

subsection \<open>State\<close>

text \<open>A \<open>QueryExecution\<close>, whose output channel is an object, and a channel with its history.\<close>

record QueryExecution =
  ex_QueryId :: u32
  ex_CacheSize :: u32
  ex_CacheStrategy :: i32
  ex_Output :: addr

record chan =
  ch_queue :: "u8 list list"
  ch_closed :: bool
  ch_all :: "u8 list list"

text \<open>The goroutine of an execution: its slice, its size, and the batches it is about to send.\<close>

record executionTree =
  et_id :: u32
  et_exec :: QueryExecution
  et_values :: slice
  et_size :: nat
  et_arrays :: arrays
  et_out :: "slice list"
  et_running :: bool

datatype mux_msg =
    TreeInit u32 QueryExecution
  | TreeRemove u32
  | Batch u32 nat slice
  | SingleBatch u32 "u8 list"

record mux =
  mx_done :: bool
  mx_stopped :: bool
  mx_chans :: "chan list"
  mx_addTreeChan :: "QueryExecution list"
  mx_handlers :: "executionTree list"
  mx_trees :: "u32 set"
  mx_treeId :: u32
  mx_previousPendingId :: u32
  mx_previousPendingVal :: "u8 list"
  mx_pendingChan :: bool
  mx_outpChan :: "mux_msg list"
  mx_log :: "RGQLServerMessage list"
  mx_read :: "RGQLServerMessage list"
  mx_dropped :: bool
  mx_aside :: bool

definition MaxBatchSize :: nat where
  "MaxBatchSize = 8110"

definition NewResultTreeMultiplexer :: mux where
  "NewResultTreeMultiplexer =
     \<lparr>mx_done = False, mx_stopped = False, mx_chans = [], mx_addTreeChan = [], mx_handlers = [], mx_trees = {},
      mx_treeId = 1, mx_previousPendingId = 0, mx_previousPendingVal = [], mx_pendingChan = False,
      mx_outpChan = [], mx_log = [], mx_read = [], mx_dropped = False, mx_aside = False\<rparr>"

subsection \<open>Messages (sendTreeInit, sendTreeRemove, sendBatch)\<close>

definition empty_message :: RGQLServerMessage where
  "empty_message = \<lparr>sm_query_error = None, sm_value_init = None, sm_value_batch = None, sm_value_finalize = None, sm_unknown = []\<rparr>"

definition batch_message :: "u32 \<Rightarrow> u8 list list \<Rightarrow> RGQLServerMessage" where
  "batch_message i vals = empty_message\<lparr>sm_value_batch := Some \<lparr>vb_result_id = i, vb_values = vals, vb_unknown = []\<rparr>\<rparr>"

text \<open>The message as it is now.\<close>

definition contents :: "mux \<Rightarrow> mux_msg \<Rightarrow> RGQLServerMessage" where
  "contents s m =
     (case m of
        TreeInit i ex \<Rightarrow> empty_message\<lparr>sm_value_init := Some \<lparr>vi_result_id = i, vi_query_id = ex_QueryId ex,
            vi_cache_strategy = ex_CacheStrategy ex, vi_cache_size = ex_CacheSize ex, vi_unknown = []\<rparr>\<rparr>
      | TreeRemove i \<Rightarrow> empty_message\<lparr>sm_value_finalize := Some \<lparr>vf_result_id = i, vf_unknown = []\<rparr>\<rparr>
      | Batch i k sl \<Rightarrow> batch_message i (slice_read (et_arrays (mx_handlers s ! k)) sl)
      | SingleBatch i v \<Rightarrow> batch_message i [v])"

text \<open>\<open>send\<close>: \<open>ok\<close> is its result.\<close>

definition send :: "bool \<Rightarrow> mux_msg \<Rightarrow> mux \<Rightarrow> mux" where
  "send ok m s =
     (if ok then s\<lparr>mx_outpChan := mx_outpChan s @ [m], mx_log := mx_log s @ [contents s m]\<rparr>
      else s\<lparr>mx_dropped := True\<rparr>)"

subsection \<open>Collecting a batch (handleTree)\<close>

text \<open>The loop that reads on without blocking: \<open>avail\<close> are the values that it finds. It returns the
  slice, what it has not read, and the value that it puts aside.\<close>

fun read_more :: "(nat \<Rightarrow> nat) \<Rightarrow> u8 list list \<Rightarrow> slice \<Rightarrow> nat \<Rightarrow> arrays \<Rightarrow>
    slice \<times> arrays \<times> u8 list list \<times> u8 list option" where
  "read_more grow [] values sz h = (values, h, [], None)"
| "read_more grow (v # avail) values sz h =
     (if sz < MaxBatchSize then
        (if sz + length v > MaxBatchSize then (values, h, avail, Some v)
         else (case append_val grow v values h of
                 (values', h') \<Rightarrow> read_more grow avail values' (sz + length v) h'))
      else (values, h, v # avail, None))"

text \<open>A value received: the batches to send, and what is left.\<close>

definition collect :: "(nat \<Rightarrow> nat) \<Rightarrow> u8 list \<Rightarrow> u8 list list \<Rightarrow> executionTree \<Rightarrow>
    executionTree \<times> u8 list list \<times> u8 list option" where
  "collect grow val avail t =
     (let fresh = et_size t + length val > MaxBatchSize;
          first = (if fresh \<and> 0 < sl_len (et_values t) then [et_values t] else []);
          (values, h) = (if fresh then (\<lparr>sl_arr = length (et_arrays t), sl_len = 1\<rparr>, et_arrays t @ [[val]])
                         else append_val grow val (et_values t) (et_arrays t));
          sz = (if fresh then length val else et_size t + length val)
      in case read_more grow avail values sz h of
           (values', h', rest, aside) \<Rightarrow>
             (if 0 < sl_len values'
              then t\<lparr>et_values := values'\<lparr>sl_len := 0\<rparr>, et_size := 0, et_arrays := h', et_out := first @ [values']\<rparr>
              else t\<lparr>et_values := values', et_arrays := h', et_out := first\<rparr>, rest, aside))"

subsection \<open>The main loop\<close>

definition start_tree :: "bool \<Rightarrow> QueryExecution \<Rightarrow> mux \<Rightarrow> mux" where
  "start_tree ok nexec s =
     (let i = mx_treeId s;
          s1 = send ok (TreeInit i nexec) (s\<lparr>mx_treeId := i + 1, mx_trees := insert i (mx_trees s)\<rparr>)
      in case make_slice 32 [] of
           (values, h) \<Rightarrow>
             s1\<lparr>mx_handlers := mx_handlers s1 @
               [\<lparr>et_id = i, et_exec = nexec, et_values = values, et_size = 0, et_arrays = h, et_out = [], et_running = True\<rparr>]\<rparr>)"

definition process_pending :: "bool \<Rightarrow> mux \<Rightarrow> mux" where
  "process_pending ok s =
     (if mx_previousPendingId s \<noteq> 0 then
        (if mx_previousPendingId s \<in> mx_trees s
         then send ok (SingleBatch (mx_previousPendingId s) (mx_previousPendingVal s)) s else s)
          \<lparr>mx_previousPendingId := 0, mx_previousPendingVal := []\<rparr>
      else s)"

text \<open>\<open>cleanup\<close>, with the order in which it ranges over the trees and the results of its sends.\<close>

definition cleanup :: "(u32 \<times> bool) list \<Rightarrow> mux \<Rightarrow> mux" where
  "cleanup order s =
     fold (\<lambda>(i, ok) s. (send ok (TreeRemove i) s)\<lparr>mx_trees := mx_trees s - {i}\<rparr>) order
       (s\<lparr>mx_previousPendingId := 0, mx_previousPendingVal := []\<rparr>)"

definition put_aside :: "u32 \<Rightarrow> u8 list option \<Rightarrow> mux \<Rightarrow> mux" where
  "put_aside i aside s =
     (case aside of
        None \<Rightarrow> s
      | Some v \<Rightarrow>
          (if i \<in> mx_trees s
           then s\<lparr>mx_previousPendingId := i, mx_previousPendingVal := v, mx_pendingChan := True\<rparr> else s)\<lparr>mx_aside := True\<rparr>)"

subsection \<open>Steps\<close>

definition upd_handler :: "nat \<Rightarrow> (executionTree \<Rightarrow> executionTree) \<Rightarrow> mux \<Rightarrow> mux" where
  "upd_handler k f s = s\<lparr>mx_handlers := upd_at k f (mx_handlers s)\<rparr>"

definition upd_chan :: "addr \<Rightarrow> (chan \<Rightarrow> chan) \<Rightarrow> mux \<Rightarrow> mux" where
  "upd_chan c f s = s\<lparr>mx_chans := upd_at c f (mx_chans s)\<rparr>"

abbreviation handler :: "mux \<Rightarrow> nat \<Rightarrow> executionTree" where
  "handler s k \<equiv> mx_handlers s ! k"

abbreviation out_chan :: "mux \<Rightarrow> nat \<Rightarrow> chan" where
  "out_chan s k \<equiv> mx_chans s ! ex_Output (et_exec (handler s k))"

text \<open>\<open>collect\<close> as a step of the \<open>k\<close>-th handler, which finds \<open>avail\<close> after \<open>val\<close> in its channel.\<close>

definition handler_collect :: "(nat \<Rightarrow> nat) \<Rightarrow> nat \<Rightarrow> u8 list \<Rightarrow> u8 list list \<Rightarrow> u8 list list \<Rightarrow> mux \<Rightarrow> mux" where
  "handler_collect grow k val avail later s =
     (case collect grow val avail (handler s k) of
        (t, rest, aside) \<Rightarrow>
          put_aside (et_id t) aside
            (upd_handler k (\<lambda>_. t)
              (upd_chan (ex_Output (et_exec (handler s k))) (\<lambda>c. c\<lparr>ch_queue := rest @ later\<rparr>) s)))"

definition handler_send :: "bool \<Rightarrow> nat \<Rightarrow> mux \<Rightarrow> mux" where
  "handler_send ok k s =
     upd_handler k (\<lambda>t. t\<lparr>et_out := tl (et_out t)\<rparr>)
       (send ok (Batch (et_id (handler s k)) k (hd (et_out (handler s k)))) s)"

definition handler_close :: "bool \<Rightarrow> nat \<Rightarrow> mux \<Rightarrow> mux" where
  "handler_close ok k s =
     (let s1 = send ok (TreeRemove (et_id (handler s k))) s
      in upd_handler k (\<lambda>t. t\<lparr>et_running := False\<rparr>) (s1\<lparr>mx_trees := mx_trees s1 - {et_id (handler s k)}\<rparr>))"

text \<open>The encoders, the caller of \<open>AddExecution\<close> (its channel holds five), and the reader.\<close>

definition AddExecution :: "u32 \<Rightarrow> u32 \<Rightarrow> i32 \<Rightarrow> mux \<Rightarrow> mux" where
  "AddExecution qid csize strategy s =
     s\<lparr>mx_chans := mx_chans s @ [\<lparr>ch_queue = [], ch_closed = False, ch_all = []\<rparr>],
       mx_addTreeChan := mx_addTreeChan s @
         [\<lparr>ex_QueryId = qid, ex_CacheSize = csize, ex_CacheStrategy = strategy, ex_Output = length (mx_chans s)\<rparr>]\<rparr>"

inductive mux_step :: "(nat \<Rightarrow> nat) \<Rightarrow> mux \<Rightarrow> mux \<Rightarrow> bool" for grow where
  add: "length (mx_addTreeChan s) < 5 \<Longrightarrow> mux_step grow s (AddExecution qid csize strategy s)"
| produce: "c < length (mx_chans s) \<Longrightarrow> \<not> ch_closed (mx_chans s ! c) \<Longrightarrow>
     mux_step grow s (upd_chan c (\<lambda>x. x\<lparr>ch_queue := ch_queue x @ [v], ch_all := ch_all x @ [v]\<rparr>) s)"
| close: "c < length (mx_chans s) \<Longrightarrow> mux_step grow s (upd_chan c (\<lambda>x. x\<lparr>ch_closed := True\<rparr>) s)"
| cancel: "mux_step grow s (s\<lparr>mx_done := True\<rparr>)"
| start: "\<not> mx_stopped s \<Longrightarrow> mx_addTreeChan s = nexec # execs \<Longrightarrow>
     mux_step grow s (start_tree ok nexec (s\<lparr>mx_addTreeChan := execs\<rparr>))"
| pending: "\<not> mx_stopped s \<Longrightarrow> mx_pendingChan s \<Longrightarrow> mux_step grow s (process_pending ok (s\<lparr>mx_pendingChan := False\<rparr>))"
| stop: "\<not> mx_stopped s \<Longrightarrow> mx_done s \<Longrightarrow> distinct (map fst order) \<Longrightarrow> set (map fst order) = mx_trees s \<Longrightarrow>
     mux_step grow s ((cleanup order s)\<lparr>mx_stopped := True\<rparr>)"
| receive: "k < length (mx_handlers s) \<Longrightarrow> et_running (handler s k) \<Longrightarrow> et_out (handler s k) = [] \<Longrightarrow>
     ch_queue (out_chan s k) = val # avail @ later \<Longrightarrow> mux_step grow s (handler_collect grow k val avail later s)"
| batch: "k < length (mx_handlers s) \<Longrightarrow> et_out (handler s k) \<noteq> [] \<Longrightarrow> mux_step grow s (handler_send ok k s)"
| finish: "k < length (mx_handlers s) \<Longrightarrow> et_running (handler s k) \<Longrightarrow> et_out (handler s k) = [] \<Longrightarrow>
     ch_queue (out_chan s k) = [] \<Longrightarrow> ch_closed (out_chan s k) \<Longrightarrow> mux_step grow s (handler_close ok k s)"
| leave: "k < length (mx_handlers s) \<Longrightarrow> et_running (handler s k) \<Longrightarrow> et_out (handler s k) = [] \<Longrightarrow> mx_done s \<Longrightarrow>
     mux_step grow s (upd_handler k (\<lambda>t. t\<lparr>et_running := False\<rparr>) s)"
| reader: "mx_outpChan s = m # ms \<Longrightarrow>
     mux_step grow s (s\<lparr>mx_outpChan := ms, mx_read := mx_read s @ [contents s m]\<rparr>)"

inductive mux_run :: "(nat \<Rightarrow> nat) \<Rightarrow> mux \<Rightarrow> bool" for grow where
  init: "mux_run grow NewResultTreeMultiplexer"
| step: "mux_run grow s \<Longrightarrow> mux_step grow s s' \<Longrightarrow> mux_run grow s'"

inductive_cases mux_stepE: "mux_step grow s s'"

subsection \<open>Slices and batches\<close>

definition slice_ok :: "arrays \<Rightarrow> slice \<Rightarrow> bool" where
  "slice_ok h s \<longleftrightarrow> sl_arr s < length h \<and> sl_len s \<le> length (h ! sl_arr s)"

definition batch_ok :: "u8 list list \<Rightarrow> bool" where
  "batch_ok vs \<longleftrightarrow> vs \<noteq> [] \<and> (length vs = 1 \<or> sum_list (map length vs) \<le> MaxBatchSize)"

lemma length_slice_read: "slice_ok h s \<Longrightarrow> length (slice_read h s) = sl_len s"
  by (simp add: slice_ok_def slice_read_def)

lemma take_list_update_last: "n < length xs \<Longrightarrow> take (Suc n) (xs[n := v]) = take n xs @ [v]"
  by (simp add: take_Suc_conv_app_nth)

lemma append_val_ok:
  assumes "slice_ok h s" and "append_val grow v s h = (s', h')"
  shows "slice_ok h' s'" "slice_read h' s' = slice_read h s @ [v]"
  using assms
  by (auto simp: append_val_def slice_ok_def slice_read_def upd_at_def nth_append take_list_update_last
      split: if_splits)

lemma read_more_ok:
  assumes "read_more grow avail vals sz h = (values', h', rest, aside)"
    and "slice_ok h vals" "slice_read h vals \<noteq> []"
    and "sz = sum_list (map length (slice_read h vals))" "batch_ok (slice_read h vals)"
  shows "slice_ok h' values' \<and> batch_ok (slice_read h' values') \<and>
    slice_read h vals @ avail = slice_read h' values' @ (case aside of None \<Rightarrow> [] | Some v \<Rightarrow> [v]) @ rest"
  using assms
proof (induction grow avail vals sz h rule: read_more.induct)
  case (2 grow v avail vals sz h)
  show ?case
  proof (cases "sz < MaxBatchSize \<and> \<not> sz + length v > MaxBatchSize")
    case True
    obtain u g where u: "append_val grow v vals h = (u, g)"
      by fastforce
    note a = append_val_ok [OF "2.prems"(2) u]
    have more: "read_more grow avail u (sz + length v) g = (values', h', rest, aside)"
      using "2.prems"(1) True u by simp
    have ok: "batch_ok (slice_read g u)"
      using True "2.prems"(4) by (simp add: a batch_ok_def)
    have "slice_ok h' values' \<and> batch_ok (slice_read h' values') \<and>
        slice_read g u @ avail = slice_read h' values' @ (case aside of None \<Rightarrow> [] | Some v \<Rightarrow> [v]) @ rest"
      by (rule "2.IH" [OF _ _ u [symmetric] more a(1) _ _ ok]) (use True "2.prems"(4) in \<open>auto simp: a\<close>)
    then show ?thesis
      by (simp add: a)
  next
    case False
    then show ?thesis
      using "2.prems" by (auto split: if_splits)
  qed
qed auto

text \<open>Between two values a handler holds an empty slice, so \<open>collect\<close> makes one batch, of what it has
  read.\<close>

definition idle_slice :: "executionTree \<Rightarrow> bool" where
  "idle_slice t \<longleftrightarrow> et_size t = 0 \<and> sl_len (et_values t) = 0 \<and> slice_ok (et_arrays t) (et_values t)"

lemma collect_ok:
  assumes idle: "idle_slice t" and c: "collect grow val avail t = (t', rest, aside)"
  shows "idle_slice t' \<and> et_id t' = et_id t \<and> et_exec t' = et_exec t \<and> et_running t' = et_running t \<and>
    (\<exists>sl. et_out t' = [sl] \<and> slice_ok (et_arrays t') sl \<and> batch_ok (slice_read (et_arrays t') sl) \<and>
       val # avail = slice_read (et_arrays t') sl @ (case aside of None \<Rightarrow> [] | Some v \<Rightarrow> [v]) @ rest)"
proof -
  define fresh where "fresh = (length val > MaxBatchSize)"
  obtain u g where u: "(if fresh then (\<lparr>sl_arr = length (et_arrays t), sl_len = 1\<rparr>, et_arrays t @ [[val]])
      else append_val grow val (et_values t) (et_arrays t)) = (u, g)"
    by fastforce
  have empty: "slice_read (et_arrays t) (et_values t) = []" and ok: "slice_ok (et_arrays t) (et_values t)"
    using idle by (auto simp: idle_slice_def slice_read_def)
  have a: "slice_ok g u \<and> slice_read g u = [val]"
  proof (cases fresh)
    case True
    then show ?thesis
      using u by (auto simp: slice_ok_def slice_read_def)
  next
    case False
    then show ?thesis
      using append_val_ok [OF ok, of grow val u g] u by (simp add: empty)
  qed
  obtain v' h' r' a' where more: "read_more grow avail u (length val) g = (v', h', r', a')"
    by (metis prod_cases4)
  have m: "slice_ok h' v' \<and> batch_ok (slice_read h' v') \<and>
      [val] @ avail = slice_read h' v' @ (case a' of None \<Rightarrow> [] | Some v \<Rightarrow> [v]) @ r'"
    using read_more_ok [OF more] a by (simp add: batch_ok_def)
  then have pos: "0 < sl_len v'"
    using length_slice_read [of h' v'] by (cases "sl_len v'") (auto simp: batch_ok_def)
  have "collect grow val avail t =
      (t\<lparr>et_values := v'\<lparr>sl_len := 0\<rparr>, et_size := 0, et_arrays := h', et_out := [v']\<rparr>, r', a')"
    using idle u more pos unfolding collect_def fresh_def idle_slice_def by (simp add: Let_def)
  then show ?thesis
    using c m by (auto simp: idle_slice_def slice_ok_def)
qed

subsection \<open>Every batch is small\<close>

definition handler_ok :: "executionTree \<Rightarrow> bool" where
  "handler_ok t \<longleftrightarrow> idle_slice t \<and>
     (\<forall>sl \<in> set (et_out t). slice_ok (et_arrays t) sl \<and> batch_ok (slice_read (et_arrays t) sl))"

definition message_ok :: "RGQLServerMessage \<Rightarrow> bool" where
  "message_ok m = (case sm_value_batch m of None \<Rightarrow> True | Some b \<Rightarrow> batch_ok (vb_values b))"

definition mux_ok :: "mux \<Rightarrow> bool" where
  "mux_ok s \<longleftrightarrow> (\<forall>t \<in> set (mx_handlers s). handler_ok t) \<and> (\<forall>m \<in> set (mx_log s). message_ok m)"

named_theorems mux_simps

lemma send_fields [mux_simps]:
  "mx_handlers (send ok m s) = mx_handlers s" "mx_chans (send ok m s) = mx_chans s"
  "mx_addTreeChan (send ok m s) = mx_addTreeChan s" "mx_trees (send ok m s) = mx_trees s"
  "mx_treeId (send ok m s) = mx_treeId s" "mx_aside (send ok m s) = mx_aside s"
  "mx_previousPendingId (send ok m s) = mx_previousPendingId s" "mx_stopped (send ok m s) = mx_stopped s"
  "mx_done (send ok m s) = mx_done s" "mx_dropped (send ok m s) = (mx_dropped s \<or> \<not> ok)"
  "mx_log (send ok m s) = mx_log s @ (if ok then [contents s m] else [])"
  by (simp_all add: send_def)

lemma upd_fields [mux_simps]:
  "mx_handlers (upd_handler k f s) = upd_at k f (mx_handlers s)" "mx_log (upd_handler k f s) = mx_log s"
  "mx_chans (upd_handler k f s) = mx_chans s" "mx_addTreeChan (upd_handler k f s) = mx_addTreeChan s"
  "mx_treeId (upd_handler k f s) = mx_treeId s" "mx_aside (upd_handler k f s) = mx_aside s"
  "mx_dropped (upd_handler k f s) = mx_dropped s" "mx_trees (upd_handler k f s) = mx_trees s"
  "mx_previousPendingId (upd_handler k f s) = mx_previousPendingId s" "mx_done (upd_handler k f s) = mx_done s"
  "mx_chans (upd_chan c g s) = upd_at c g (mx_chans s)" "mx_log (upd_chan c g s) = mx_log s"
  "mx_handlers (upd_chan c g s) = mx_handlers s" "mx_addTreeChan (upd_chan c g s) = mx_addTreeChan s"
  "mx_treeId (upd_chan c g s) = mx_treeId s" "mx_aside (upd_chan c g s) = mx_aside s"
  "mx_dropped (upd_chan c g s) = mx_dropped s" "mx_trees (upd_chan c g s) = mx_trees s"
  "mx_previousPendingId (upd_chan c g s) = mx_previousPendingId s" "mx_done (upd_chan c g s) = mx_done s"
  by (simp_all add: upd_handler_def upd_chan_def)

lemma put_aside_fields [mux_simps]:
  "mx_handlers (put_aside i a s) = mx_handlers s" "mx_chans (put_aside i a s) = mx_chans s"
  "mx_log (put_aside i a s) = mx_log s" "mx_addTreeChan (put_aside i a s) = mx_addTreeChan s"
  "mx_treeId (put_aside i a s) = mx_treeId s" "mx_aside (put_aside i a s) = (mx_aside s \<or> a \<noteq> None)"
  "mx_dropped (put_aside i a s) = mx_dropped s" "mx_trees (put_aside i a s) = mx_trees s"
  "mx_done (put_aside i a s) = mx_done s" "put_aside i None s = s"
  by (simp_all add: put_aside_def split: option.split)

lemma message_ok_batch [simp]: "message_ok (batch_message i vs) = batch_ok vs"
  by (simp add: message_ok_def batch_message_def)

lemma message_ok_contents [simp]:
  "message_ok (contents s (TreeInit i ex))" "message_ok (contents s (TreeRemove i))"
  "message_ok (contents s (SingleBatch i v))"
  "message_ok (contents s (Batch i k sl)) = batch_ok (slice_read (et_arrays (handler s k)) sl)"
  by (simp_all add: contents_def message_ok_def empty_message_def batch_message_def batch_ok_def)

lemma mux_ok_send: "mux_ok s \<Longrightarrow> message_ok (contents s m) \<Longrightarrow> mux_ok (send ok m s)"
  by (auto simp: mux_ok_def mux_simps)

lemma mux_ok_upd_handler: "mux_ok s \<Longrightarrow> handler_ok (f (handler s k)) \<Longrightarrow> mux_ok (upd_handler k f s)"
  by (auto simp: mux_ok_def mux_simps upd_at_def dest!: set_update_subset_insert [THEN subsetD])

lemma mux_ok_cong: "mx_handlers s' = mx_handlers s \<Longrightarrow> mx_log s' = mx_log s \<Longrightarrow> mux_ok s \<Longrightarrow> mux_ok s'"
  by (simp add: mux_ok_def)

lemma mux_ok_handler: "mux_ok s \<Longrightarrow> k < length (mx_handlers s) \<Longrightarrow> handler_ok (handler s k)"
  by (simp add: mux_ok_def)

lemma handler_ok_new: "handler_ok \<lparr>et_id = i, et_exec = ex, et_values = fst (make_slice n []), et_size = 0,
    et_arrays = snd (make_slice n []), et_out = [], et_running = True\<rparr>"
  by (simp add: handler_ok_def idle_slice_def slice_ok_def make_slice_def)

lemma mux_ok_start: "mux_ok s \<Longrightarrow> mux_ok (start_tree ok nexec s)"
  using handler_ok_new [of "mx_treeId s" nexec 32]
  by (auto simp: start_tree_def mux_ok_def mux_simps case_prod_beta Let_def)

lemma mux_ok_cleanup: "mux_ok s \<Longrightarrow> mux_ok (cleanup order s)"
proof -
  have "mux_ok (fold (\<lambda>(i, ok) s. (send ok (TreeRemove i) s)\<lparr>mx_trees := mx_trees s - {i}\<rparr>) order s)" if "mux_ok s" for s
    using that
  proof (induction order arbitrary: s)
    case (Cons io order)
    obtain i ok where io: "io = (i, ok)" by fastforce
    have "mux_ok ((send ok (TreeRemove i) s)\<lparr>mx_trees := mx_trees s - {i}\<rparr>)"
      by (rule mux_ok_cong [OF _ _ mux_ok_send [OF Cons.prems, of "TreeRemove i" ok]]) simp_all
    then show ?case
      by (simp add: io Cons.IH)
  qed simp
  then show "mux_ok s \<Longrightarrow> ?thesis"
    by (simp add: cleanup_def mux_ok_cong [of _ s])
qed

lemma mux_ok_process: "mux_ok s \<Longrightarrow> mux_ok (process_pending ok s)"
  by (auto simp: process_pending_def mux_ok_def mux_simps)

lemma handler_ok_collect:
  assumes "handler_ok t" and "collect grow val avail t = (t', rest, aside)"
  shows "handler_ok t'"
  using collect_ok [OF _ assms(2)] assms(1) by (auto simp: handler_ok_def)

lemma mux_ok_step: "mux_step grow s s' \<Longrightarrow> mux_ok s \<Longrightarrow> mux_ok s'"
proof (induction rule: mux_step.induct)
  case (start s nexec execs ok)
  then show ?case
    by (intro mux_ok_start) (auto intro: mux_ok_cong [of _ s])
next
  case (pending s ok)
  then show ?case
    by (intro mux_ok_process) (auto intro: mux_ok_cong [of _ s])
next
  case (stop s order)
  then show ?case
    by (auto intro: mux_ok_cong [OF _ _ mux_ok_cleanup [of s order]])
next
  case (receive k s val avail later)
  obtain t rest aside where c: "collect grow val avail (handler s k) = (t, rest, aside)"
    by (metis prod_cases3)
  have "handler_ok t"
    by (rule handler_ok_collect [OF mux_ok_handler [OF receive.prems receive.hyps(1)] c])
  then have "mux_ok (upd_handler k (\<lambda>_. t) s)"
    by (rule mux_ok_upd_handler [OF receive.prems])
  then show ?case
    by (rule mux_ok_cong [rotated 2]) (simp_all add: handler_collect_def c mux_simps)
next
  case (batch k s ok)
  have h: "handler_ok (handler s k)"
    by (rule mux_ok_handler [OF batch.prems batch.hyps(1)])
  then have "handler_ok ((handler s k)\<lparr>et_out := tl (et_out (handler s k))\<rparr>)"
    using batch.hyps(2) by (auto simp: handler_ok_def idle_slice_def dest: list.set_sel(2))
  moreover have "mux_ok (send ok (Batch (et_id (handler s k)) k (hd (et_out (handler s k)))) s)"
    using h batch.hyps(2) by (intro mux_ok_send [OF batch.prems]) (simp add: handler_ok_def)
  ultimately show ?case
    unfolding handler_send_def by (intro mux_ok_upd_handler) (simp_all add: mux_simps)
next
  case (finish k s ok)
  have "handler_ok ((handler s k)\<lparr>et_running := False\<rparr>)"
    using mux_ok_handler [OF finish.prems finish.hyps(1)] by (simp add: handler_ok_def idle_slice_def)
  then show ?case
    unfolding handler_close_def Let_def
    by (intro mux_ok_upd_handler mux_ok_cong [OF _ _ mux_ok_send [OF finish.prems, of "TreeRemove (et_id (handler s k))" ok]])
      (simp_all add: mux_simps)
next
  case (leave k s)
  have "handler_ok ((handler s k)\<lparr>et_running := False\<rparr>)"
    using mux_ok_handler [OF leave.prems leave.hyps(1)] by (simp add: handler_ok_def idle_slice_def)
  then show ?case
    by (intro mux_ok_upd_handler [OF leave.prems])
qed (auto simp: mux_ok_def mux_simps AddExecution_def)

lemma mux_ok_run: "mux_run grow s \<Longrightarrow> mux_ok s"
proof (induction rule: mux_run.induct)
  case init
  then show ?case
    by (simp add: mux_ok_def NewResultTreeMultiplexer_def)
qed (rule mux_ok_step)

subsection \<open>Values arrive in order\<close>

text \<open>The values sent for a result, and the invariant that keeps them: the channels and ids of the
  handlers are distinct, and as long as no send was dropped and no value put aside, what a handler
  has sent, what it is about to send and what is in its channel are what was put in the channel.\<close>

definition sent :: "u32 \<Rightarrow> RGQLServerMessage list \<Rightarrow> u8 list list" where
  "sent i log = concat (map (\<lambda>m. case sm_value_batch m of
       None \<Rightarrow> [] | Some b \<Rightarrow> if vb_result_id b = i then vb_values b else []) log)"

definition links :: "mux \<Rightarrow> bool" where
  "links s \<longleftrightarrow> (let exs = map et_exec (mx_handlers s) @ mx_addTreeChan s in
     distinct (map ex_Output exs) \<and> (\<forall>ex \<in> set exs. ex_Output ex < length (mx_chans s)))"

definition ids :: "mux \<Rightarrow> bool" where
  "ids s \<longleftrightarrow> mx_treeId s = word_of_nat (Suc (length (mx_handlers s))) \<and>
     (\<forall>k < length (mx_handlers s). et_id (handler s k) = word_of_nat (Suc k))"

definition waiting :: "mux \<Rightarrow> bool" where
  "waiting s \<longleftrightarrow> (\<forall>ex \<in> set (mx_addTreeChan s). ch_queue (mx_chans s ! ex_Output ex) = ch_all (mx_chans s ! ex_Output ex))"

definition plain :: "mux \<Rightarrow> bool" where
  "plain s \<longleftrightarrow> \<not> mx_dropped s \<and> \<not> mx_aside s"

definition known_results :: "mux \<Rightarrow> bool" where
  "known_results s \<longleftrightarrow> mx_previousPendingId s = 0 \<and> (\<forall>i. i \<notin> et_id ` set (mx_handlers s) \<longrightarrow> sent i (mx_log s) = [])"

definition pending_values :: "executionTree \<Rightarrow> u8 list list" where
  "pending_values t = concat (map (slice_read (et_arrays t)) (et_out t))"

definition delivered :: "mux \<Rightarrow> nat \<Rightarrow> bool" where
  "delivered s k \<longleftrightarrow> sent (et_id (handler s k)) (mx_log s) @ pending_values (handler s k) @ ch_queue (out_chan s k) =
     ch_all (out_chan s k)"

definition fifo :: "mux \<Rightarrow> bool" where
  "fifo s \<longleftrightarrow> links s \<and> ids s \<and> waiting s \<and> (plain s \<longrightarrow> known_results s) \<and>
     (plain s \<longrightarrow> length (mx_handlers s) < 2 ^ 32 \<longrightarrow> (\<forall>k < length (mx_handlers s). delivered s k))"

lemma sent_simps [simp]:
  "sent i [] = []" "sent i (log @ log') = sent i log @ sent i log'"
  "sent i [contents s (TreeInit j ex)] = []" "sent i [contents s (TreeRemove j)] = []"
  "sent i [contents s (Batch j k sl)] = (if j = i then slice_read (et_arrays (handler s k)) sl else [])"
  by (auto simp: sent_def contents_def empty_message_def batch_message_def)

lemma unat_Suc_id: "Suc n < 2 ^ 32 \<Longrightarrow> unat (word_of_nat (Suc n) :: u32) = Suc n"
  by (simp add: unsigned_of_nat take_bit_nat_eq_self del: of_nat_Suc)

lemma et_id_inj:
  assumes "ids s" "length (mx_handlers s) < 2 ^ 32" "j < length (mx_handlers s)" "k < length (mx_handlers s)"
    and "et_id (handler s j) = et_id (handler s k)"
  shows "j = k"
proof -
  have "(word_of_nat (Suc j) :: u32) = word_of_nat (Suc k)"
    using assms by (simp add: ids_def del: of_nat_Suc)
  then have "unat (word_of_nat (Suc j) :: u32) = unat (word_of_nat (Suc k) :: u32)"
    by (rule arg_cong)
  then show ?thesis
    using assms(2-4) unat_Suc_id [of j] unat_Suc_id [of k] by linarith
qed

lemma treeId_fresh:
  assumes "ids s" "Suc (length (mx_handlers s)) < 2 ^ 32"
  shows "mx_treeId s \<notin> et_id ` set (mx_handlers s)"
proof
  assume "mx_treeId s \<in> et_id ` set (mx_handlers s)"
  then obtain k where k: "k < length (mx_handlers s)" "mx_treeId s = et_id (handler s k)"
    by (auto simp: in_set_conv_nth)
  then have "unat (word_of_nat (Suc (length (mx_handlers s))) :: u32) = unat (word_of_nat (Suc k) :: u32)"
    using assms(1) unfolding ids_def by metis
  then show False
    using assms(2) k unat_Suc_id [of k] unat_Suc_id [of "length (mx_handlers s)"] by linarith
qed

lemma out_chan_inj:
  assumes "links s" "j < length (mx_handlers s)" "k < length (mx_handlers s)"
    and "ex_Output (et_exec (handler s j)) = ex_Output (et_exec (handler s k))"
  shows "j = k"
proof -
  have "distinct (map (\<lambda>t. ex_Output (et_exec t)) (mx_handlers s))"
    using assms(1) by (simp add: links_def Let_def comp_def)
  then show ?thesis
    using assms(2-) by (simp add: distinct_conv_nth) metis
qed

lemma out_chan_waiting:
  assumes "links s" "k < length (mx_handlers s)" "ex \<in> set (mx_addTreeChan s)"
  shows "ex_Output ex \<noteq> ex_Output (et_exec (handler s k))"
proof
  assume e: "ex_Output ex = ex_Output (et_exec (handler s k))"
  have "ex_Output (et_exec (handler s k)) \<in> (\<lambda>t. ex_Output (et_exec t)) ` set (mx_handlers s)"
    using assms(2) by simp
  moreover have "ex_Output ex \<in> ex_Output ` set (mx_addTreeChan s)"
    using assms(3) by simp
  ultimately show False
    using assms(1) e by (auto simp: links_def Let_def image_image comp_def)
qed

lemma out_chan_valid: "links s \<Longrightarrow> k < length (mx_handlers s) \<Longrightarrow> ex_Output (et_exec (handler s k)) < length (mx_chans s)"
  by (simp add: links_def Let_def)

lemma links_cong:
  "map et_exec (mx_handlers s') = map et_exec (mx_handlers s) \<Longrightarrow> mx_addTreeChan s' = mx_addTreeChan s \<Longrightarrow>
    length (mx_chans s') = length (mx_chans s) \<Longrightarrow> links s \<Longrightarrow> links s'"
  by (simp add: links_def)

lemma ids_cong:
  assumes "map et_id (mx_handlers s') = map et_id (mx_handlers s)" "mx_treeId s' = mx_treeId s" "ids s"
  shows "ids s'"
proof -
  have l: "length (mx_handlers s') = length (mx_handlers s)"
    using assms(1) by (rule map_eq_imp_length_eq)
  have "et_id (handler s' k) = et_id (handler s k)" if "k < length (mx_handlers s)" for k
    using arg_cong [OF assms(1), of "\<lambda>l. l ! k"] that l by simp
  then show ?thesis
    using assms l by (simp add: ids_def)
qed

lemma map_upd_at: "f (g (xs ! k)) = f (xs ! k) \<Longrightarrow> map f (upd_at k g xs) = map f xs"
  by (simp add: upd_at_def map_update list_update_same_conv) (metis list_update_id map_update)

lemma fifoI:
  assumes "links s" "ids s" "waiting s" "plain s \<Longrightarrow> known_results s"
    and "\<And>k. plain s \<Longrightarrow> length (mx_handlers s) < 2 ^ 32 \<Longrightarrow> k < length (mx_handlers s) \<Longrightarrow> delivered s k"
  shows "fifo s"
  using assms by (simp add: fifo_def)

lemma fifoD:
  assumes "fifo s"
  shows "links s" "ids s" "waiting s" "plain s \<Longrightarrow> known_results s"
    and "plain s \<Longrightarrow> length (mx_handlers s) < 2 ^ 32 \<Longrightarrow> k < length (mx_handlers s) \<Longrightarrow> delivered s k"
  using assms by (simp_all add: fifo_def)

lemma fifo_add:
  assumes f: "fifo s"
  shows "fifo (AddExecution qid csize strategy s)" (is "fifo ?s'")
proof (rule fifoI)
  have chan: "mx_chans ?s' ! ex_Output ex = mx_chans s ! ex_Output ex" if "ex_Output ex < length (mx_chans s)" for ex
    using that by (simp add: AddExecution_def nth_append)
  have less: "ex_Output ex < length (mx_chans s)" if "ex \<in> set (map et_exec (mx_handlers s) @ mx_addTreeChan s)" for ex
    using fifoD(1) [OF f] that by (simp only: links_def Let_def)
  show "links ?s'"
    using fifoD(1) [OF f] by (auto simp: links_def AddExecution_def Let_def less_Suc_eq)
  show "ids ?s'"
    using fifoD(2) [OF f] by (simp add: ids_def AddExecution_def)
  show "waiting ?s'"
    unfolding waiting_def
  proof
    fix ex assume "ex \<in> set (mx_addTreeChan ?s')"
    then consider "ex \<in> set (mx_addTreeChan s)" | "ex_Output ex = length (mx_chans s)"
      by (auto simp: AddExecution_def)
    then show "ch_queue (mx_chans ?s' ! ex_Output ex) = ch_all (mx_chans ?s' ! ex_Output ex)"
    proof cases
      case 1
      then show ?thesis
        using fifoD(3) [OF f] chan [OF less [of ex]] by (simp add: waiting_def)
    qed (simp add: AddExecution_def)
  qed
  show "known_results ?s'" if "plain ?s'"
    using that fifoD(4) [OF f] by (simp add: plain_def known_results_def AddExecution_def)
  show "delivered ?s' k" if "plain ?s'" "length (mx_handlers ?s') < 2 ^ 32" "k < length (mx_handlers ?s')" for k
  proof -
    have k: "k < length (mx_handlers s)"
      using that by (simp add: AddExecution_def)
    have "delivered s k"
      by (rule fifoD(5) [OF f]) (use that in \<open>simp_all add: plain_def AddExecution_def\<close>)
    then show ?thesis
      using chan [OF out_chan_valid [OF fifoD(1) [OF f] k]] by (simp add: delivered_def AddExecution_def)
  qed
qed

text \<open>A change of one channel, of the history and the queue alike.\<close>

lemma fifo_chan:
  assumes f: "fifo s" and g: "\<And>c. \<exists>vs. ch_queue (g c) = ch_queue c @ vs \<and> ch_all (g c) = ch_all c @ vs"
  shows "fifo (upd_chan c g s)"
proof -
  have all: "\<exists>vs. ch_queue (upd_at c g (mx_chans s) ! d) = ch_queue (mx_chans s ! d) @ vs \<and>
      ch_all (upd_at c g (mx_chans s) ! d) = ch_all (mx_chans s ! d) @ vs" for d
    using g [of "mx_chans s ! d"]
    by (cases "d = c \<and> c < length (mx_chans s)") (auto simp: upd_at_def list_update_beyond)
  show ?thesis
  proof (rule fifoI)
    show "links (upd_chan c g s)" "ids (upd_chan c g s)"
      using fifoD(1,2) [OF f] by (simp_all add: links_def ids_def mux_simps)
    show "waiting (upd_chan c g s)"
      unfolding waiting_def mux_simps
    proof
      fix ex assume "ex \<in> set (mx_addTreeChan s)"
      then show "ch_queue (upd_at c g (mx_chans s) ! ex_Output ex) = ch_all (upd_at c g (mx_chans s) ! ex_Output ex)"
        using all [of "ex_Output ex"] fifoD(3) [OF f] by (auto simp: waiting_def)
    qed
    show "known_results (upd_chan c g s)" if "plain (upd_chan c g s)"
      using that fifoD(4) [OF f] by (simp add: plain_def known_results_def mux_simps)
    show "delivered (upd_chan c g s) k"
      if "plain (upd_chan c g s)" "length (mx_handlers (upd_chan c g s)) < 2 ^ 32" "k < length (mx_handlers (upd_chan c g s))" for k
      using that fifoD(5) [OF f, of k] all [of "ex_Output (et_exec (handler s k))"]
      by (auto simp: plain_def delivered_def mux_simps)
  qed
qed

text \<open>Changes that the invariant does not see, and messages that are not batches.\<close>

lemma fifo_cong:
  assumes "fifo s" "mx_handlers s' = mx_handlers s" "mx_chans s' = mx_chans s" "mx_addTreeChan s' = mx_addTreeChan s"
    "mx_treeId s' = mx_treeId s" "plain s' = plain s" "mx_previousPendingId s' \<in> {mx_previousPendingId s, 0}" "mx_log s' = mx_log s"
  shows "fifo s'"
  using assms by (auto simp: fifo_def links_def ids_def waiting_def known_results_def delivered_def)

lemma fifo_send:
  assumes f: "fifo s" and m: "\<And>i. sent i [contents s m] = []"
  shows "fifo (send ok m s)"
proof (rule fifoI)
  have sent: "sent i (mx_log (send ok m s)) = sent i (mx_log s)" for i
    using m [of i] by (simp add: mux_simps)
  show "links (send ok m s)" "ids (send ok m s)" "waiting (send ok m s)"
    using fifoD(1-3) [OF f] by (simp_all add: links_def ids_def waiting_def mux_simps)
  show "known_results (send ok m s)" if "plain (send ok m s)"
    using that fifoD(4) [OF f] unfolding known_results_def sent by (simp add: plain_def mux_simps)
  show "delivered (send ok m s) k" if "plain (send ok m s)"
    "length (mx_handlers (send ok m s)) < 2 ^ 32" "k < length (mx_handlers (send ok m s))" for k
    using that fifoD(5) [OF f, of k] unfolding delivered_def sent by (simp add: plain_def mux_simps)
qed

lemma fifo_handler:
  assumes f: "fifo s" and g: "\<And>t. et_id (g t) = et_id t \<and> et_exec (g t) = et_exec t \<and> pending_values (g t) = pending_values t"
  shows "fifo (upd_handler k g s)"
proof -
  have same: "et_id (upd_at k g (mx_handlers s) ! j) = et_id (handler s j)"
    "et_exec (upd_at k g (mx_handlers s) ! j) = et_exec (handler s j)"
    "pending_values (upd_at k g (mx_handlers s) ! j) = pending_values (handler s j)" for j
    using g [of "handler s k"]
    by (cases "k < length (mx_handlers s)"; cases "j = k"; simp add: upd_at_def list_update_beyond)+
  have maps: "map et_id (upd_at k g (mx_handlers s)) = map et_id (mx_handlers s)"
    "map et_exec (upd_at k g (mx_handlers s)) = map et_exec (mx_handlers s)"
    by (intro nth_equalityI; simp add: same)+
  have img: "et_id ` set (upd_at k g (mx_handlers s)) = et_id ` set (mx_handlers s)"
    using arg_cong [OF maps(1), of set] by simp
  show ?thesis
  proof (rule fifoI)
    show "links (upd_handler k g s)"
      by (rule links_cong [OF _ _ _ fifoD(1) [OF f]]) (simp_all add: mux_simps maps)
    show "ids (upd_handler k g s)"
      by (rule ids_cong [OF _ _ fifoD(2) [OF f]]) (simp_all add: mux_simps maps)
    show "waiting (upd_handler k g s)"
      using fifoD(3) [OF f] by (simp add: waiting_def mux_simps)
    show "known_results (upd_handler k g s)" if "plain (upd_handler k g s)"
      using that fifoD(4) [OF f] by (simp add: plain_def known_results_def mux_simps img)
    show "delivered (upd_handler k g s) j" if "plain (upd_handler k g s)"
      "length (mx_handlers (upd_handler k g s)) < 2 ^ 32" "j < length (mx_handlers (upd_handler k g s))" for j
      using that fifoD(5) [OF f, of j] by (simp add: plain_def delivered_def mux_simps same)
  qed
qed

lemma fifo_process: "fifo s \<Longrightarrow> fifo (process_pending ok s)"
proof -
  assume f: "fifo s"
  show ?thesis
  proof (cases "plain s")
    case True
    then have "mx_previousPendingId s = 0"
      using fifoD(4) [OF f] by (simp add: known_results_def)
    then show ?thesis
      using f by (simp add: process_pending_def)
  next
    case False
    have np: "\<not> plain (process_pending ok s)"
      using False by (simp add: plain_def process_pending_def mux_simps)
    have "links (process_pending ok s)" "ids (process_pending ok s)" "waiting (process_pending ok s)"
      using fifoD(1-3) [OF f] by (simp_all add: links_def ids_def waiting_def process_pending_def mux_simps)
    then show ?thesis
      using np by (simp add: fifo_def)
  qed
qed

lemma fifo_cleanup: "fifo s \<Longrightarrow> fifo (cleanup order s)"
proof -
  have "fifo (fold (\<lambda>(i, ok) s. (send ok (TreeRemove i) s)\<lparr>mx_trees := mx_trees s - {i}\<rparr>) order s)" if "fifo s" for s
    using that
  proof (induction order arbitrary: s)
    case (Cons io order)
    obtain i ok where io: "io = (i, ok)" by fastforce
    have "fifo ((send ok (TreeRemove i) s)\<lparr>mx_trees := mx_trees s - {i}\<rparr>)"
      by (rule fifo_cong [OF fifo_send [OF Cons.prems, of "TreeRemove i" ok]]) (simp_all add: plain_def)
    then show ?case
      by (simp add: io Cons.IH)
  qed simp
  moreover assume f: "fifo s"
  have "fifo (s\<lparr>mx_previousPendingId := 0, mx_previousPendingVal := []\<rparr>)"
    by (rule fifo_cong [OF f]) (simp_all add: plain_def)
  ultimately show ?thesis
    by (simp add: cleanup_def)
qed

lemma fifo_start:
  assumes f: "fifo s" and exs: "mx_addTreeChan s = nexec # execs"
  shows "fifo (start_tree ok nexec (s\<lparr>mx_addTreeChan := execs\<rparr>))" (is "fifo ?s'")
proof (rule fifoI)
  let ?t = "\<lparr>et_id = mx_treeId s, et_exec = nexec, et_values = fst (make_slice 32 []), et_size = 0,
    et_arrays = snd (make_slice 32 []), et_out = [], et_running = True\<rparr>"
  have h: "mx_handlers ?s' = mx_handlers s @ [?t]" and c: "mx_chans ?s' = mx_chans s" "mx_addTreeChan ?s' = execs"
    "mx_treeId ?s' = mx_treeId s + 1" "mx_previousPendingId ?s' = mx_previousPendingId s"
    by (simp_all add: start_tree_def Let_def case_prod_beta mux_simps)
  have sent: "sent i (mx_log ?s') = sent i (mx_log s)" for i
    by (simp add: start_tree_def Let_def case_prod_beta mux_simps)
  have plain: "plain s" if "plain ?s'"
    using that by (simp add: plain_def start_tree_def Let_def case_prod_beta mux_simps)
  show "links ?s'"
    using fifoD(1) [OF f] by (auto simp: links_def Let_def h c exs)
  show "ids ?s'"
    using fifoD(2) [OF f] by (auto simp: ids_def h c nth_append less_Suc_eq)
  show "waiting ?s'"
    using fifoD(3) [OF f] by (simp add: waiting_def c exs)
  show "known_results ?s'" if "plain ?s'"
    using fifoD(4) [OF f plain [OF that]] by (simp add: known_results_def h c sent)
  show "delivered ?s' k" if p: "plain ?s'" and l: "length (mx_handlers ?s') < 2 ^ 32" and k: "k < length (mx_handlers ?s')" for k
  proof (cases "k < length (mx_handlers s)")
    case True
    have "delivered s k"
      by (rule fifoD(5) [OF f plain [OF p] _ True]) (use l in \<open>simp add: h\<close>)
    then show ?thesis
      using True by (simp add: delivered_def sent h c nth_append)
  next
    case False
    then have "k = length (mx_handlers s)"
      using k by (simp add: h)
    moreover have "sent (mx_treeId s) (mx_log s) = []"
      using fifoD(4) [OF f plain [OF p]] treeId_fresh [OF fifoD(2) [OF f]] l by (simp add: known_results_def h)
    moreover have "ch_queue (mx_chans s ! ex_Output nexec) = ch_all (mx_chans s ! ex_Output nexec)"
      using fifoD(3) [OF f] by (simp add: waiting_def exs)
    ultimately show ?thesis
      by (simp add: delivered_def sent h c pending_values_def)
  qed
qed

lemma fifo_batch:
  assumes f: "fifo s" and k: "k < length (mx_handlers s)" and out: "et_out (handler s k) \<noteq> []"
  shows "fifo (handler_send ok k s)" (is "fifo ?s'")
proof (rule fifoI)
  let ?t = "(handler s k)\<lparr>et_out := tl (et_out (handler s k))\<rparr>"
  let ?vs = "slice_read (et_arrays (handler s k)) (hd (et_out (handler s k)))"
  have h: "mx_handlers ?s' = (mx_handlers s)[k := ?t]" and c: "mx_chans ?s' = mx_chans s"
    "mx_addTreeChan ?s' = mx_addTreeChan s" "mx_treeId ?s' = mx_treeId s" "mx_previousPendingId ?s' = mx_previousPendingId s"
    by (simp_all add: handler_send_def mux_simps upd_at_def)
  have maps: "map et_id (mx_handlers ?s') = map et_id (mx_handlers s)" "map et_exec (mx_handlers ?s') = map et_exec (mx_handlers s)"
    by (intro nth_equalityI; simp add: h nth_list_update k)+
  have plain: "ok \<and> plain s" if "plain ?s'"
    using that by (simp add: plain_def handler_send_def mux_simps)
  have sent: "sent i (mx_log ?s') = sent i (mx_log s) @ (if et_id (handler s k) = i then ?vs else [])" if "plain ?s'" for i
    using plain [OF that] by (simp add: handler_send_def mux_simps)
  have img: "et_id ` set (mx_handlers ?s') = et_id ` set (mx_handlers s)"
    using arg_cong [OF maps(1), of set] by simp
  show "links ?s'"
    by (rule links_cong [OF maps(2) c(2) _ fifoD(1) [OF f]]) (simp add: c)
  show "ids ?s'"
    by (rule ids_cong [OF maps(1) c(3) fifoD(2) [OF f]])
  show "waiting ?s'"
    using fifoD(3) [OF f] by (simp add: waiting_def c)
  show "known_results ?s'" if p: "plain ?s'"
    unfolding known_results_def img sent [OF p] c(4)
    using fifoD(4) [OF f] plain [OF p] k by (auto simp: known_results_def)
  show "delivered ?s' j" if p: "plain ?s'" and l: "length (mx_handlers ?s') < 2 ^ 32" and j: "j < length (mx_handlers ?s')" for j
  proof -
    have l': "length (mx_handlers s) < 2 ^ 32" and j': "j < length (mx_handlers s)"
      using l j by (simp_all add: h)
    have d: "delivered s j"
      using plain [OF p] by (intro fifoD(5) [OF f] l' j') simp
    show ?thesis
    proof (cases "j = k")
      case True
      have "pending_values (handler s k) = ?vs @ pending_values ?t"
        using out by (cases "et_out (handler s k)") (simp_all add: pending_values_def)
      then show ?thesis
        using d True k by (simp add: delivered_def sent [OF p] h c)
    next
      case False
      then have "et_id (handler s k) \<noteq> et_id (handler s j)"
        using et_id_inj [OF fifoD(2) [OF f] l' j' k] by metis
      then show ?thesis
        using d False by (simp add: delivered_def sent [OF p] h c)
    qed
  qed
qed

lemma fifo_collect:
  assumes f: "fifo s" and k: "k < length (mx_handlers s)" and out: "et_out (handler s k) = []"
    and q: "ch_queue (out_chan s k) = val # avail @ later" and ok: "handler_ok (handler s k)"
  shows "fifo (handler_collect grow k val avail later s)" (is "fifo ?s'")
proof -
  let ?c = "ex_Output (et_exec (handler s k))"
  obtain t rest aside where co: "collect grow val avail (handler s k) = (t, rest, aside)"
    by (metis prod_cases3)
  have t: "et_id t = et_id (handler s k)" "et_exec t = et_exec (handler s k)"
    "val # avail = pending_values t @ (case aside of None \<Rightarrow> [] | Some v \<Rightarrow> [v]) @ rest"
    using collect_ok [OF _ co] ok by (auto simp: handler_ok_def pending_values_def)
  have h: "mx_handlers ?s' = (mx_handlers s)[k := t]"
    and c: "mx_chans ?s' = upd_at ?c (\<lambda>c. c\<lparr>ch_queue := rest @ later\<rparr>) (mx_chans s)"
      "mx_addTreeChan ?s' = mx_addTreeChan s" "mx_treeId ?s' = mx_treeId s" "mx_log ?s' = mx_log s"
    by (simp_all add: handler_collect_def co mux_simps upd_at_def)
  have maps: "map et_id (mx_handlers ?s') = map et_id (mx_handlers s)" "map et_exec (mx_handlers ?s') = map et_exec (mx_handlers s)"
    by (intro nth_equalityI; simp add: h nth_list_update k t)+
  have plain: "aside = None \<and> plain s" if "plain ?s'"
    using that by (auto simp: plain_def handler_collect_def co mux_simps)
  have pid: "mx_previousPendingId ?s' = mx_previousPendingId s" if "aside = None"
    by (simp add: handler_collect_def co that mux_simps)
  have img: "et_id ` set (mx_handlers ?s') = et_id ` set (mx_handlers s)"
    using arg_cong [OF maps(1), of set] by simp
  show ?thesis
  proof (rule fifoI)
    show "links ?s'"
      by (rule links_cong [OF maps(2) c(2) _ fifoD(1) [OF f]]) (simp add: c)
    show "ids ?s'"
      by (rule ids_cong [OF maps(1) c(3) fifoD(2) [OF f]])
    show "waiting ?s'"
      using fifoD(3) [OF f] out_chan_waiting [OF fifoD(1) [OF f] k] by (auto simp: waiting_def c)
    show "known_results ?s'" if "plain ?s'"
      using fifoD(4) [OF f] plain [OF that] pid unfolding known_results_def img by (simp add: c)
    show "delivered ?s' j" if p: "plain ?s'" and l: "length (mx_handlers ?s') < 2 ^ 32" and j: "j < length (mx_handlers ?s')" for j
    proof -
      have l': "length (mx_handlers s) < 2 ^ 32" and j': "j < length (mx_handlers s)"
        using l j by (simp_all add: h)
      have d: "delivered s j"
        using plain [OF p] by (intro fifoD(5) [OF f] l' j') simp
      show ?thesis
      proof (cases "j = k")
        case True
        have valid: "?c < length (mx_chans s)"
          by (rule out_chan_valid [OF fifoD(1) [OF f] k])
        have e: "pending_values t @ rest @ later = val # avail @ later"
          using arg_cong [OF t(3), of "\<lambda>l. l @ later"] plain [OF p] by simp
        have "pending_values (handler s k) = []"
          by (simp add: pending_values_def out)
        with valid show ?thesis
          using d True k q by (simp add: delivered_def h c t(1,2) e)
      next
        case False
        then have "ex_Output (et_exec (handler s j)) \<noteq> ?c"
          using out_chan_inj [OF fifoD(1) [OF f] j' k] by metis
        then show ?thesis
          using d False by (simp add: delivered_def h c)
      qed
    qed
  qed
qed

lemma fifo_close: "fifo s \<Longrightarrow> fifo (handler_close ok k s)"
proof -
  assume f: "fifo s"
  let ?s1 = "send ok (TreeRemove (et_id (handler s k))) s"
  have "fifo (?s1\<lparr>mx_trees := mx_trees ?s1 - {et_id (handler s k)}\<rparr>)"
    by (rule fifo_cong [OF fifo_send [OF f, of "TreeRemove (et_id (handler s k))" ok]]) (simp_all add: plain_def)
  then show ?thesis
    unfolding handler_close_def Let_def by (rule fifo_handler) (simp add: pending_values_def)
qed

lemma fifo_step: "mux_step grow s s' \<Longrightarrow> mux_ok s \<Longrightarrow> fifo s \<Longrightarrow> fifo s'"
proof (induction rule: mux_step.induct)
  case (add s qid csize strategy)
  then show ?case by (intro fifo_add)
next
  case (produce c s v)
  show ?case by (rule fifo_chan [OF produce.prems(2)]) simp
next
  case (close c s)
  show ?case by (rule fifo_chan [OF close.prems(2)]) simp
next
  case (cancel s)
  show ?case by (rule fifo_cong [OF cancel.prems(2)]) (simp_all add: plain_def)
next
  case (start s nexec execs ok)
  show ?case by (rule fifo_start [OF start.prems(2) start.hyps(2)])
next
  case (pending s ok)
  have "fifo (s\<lparr>mx_pendingChan := False\<rparr>)"
    by (rule fifo_cong [OF pending.prems(2)]) (simp_all add: plain_def)
  then show ?case by (rule fifo_process)
next
  case (stop s order)
  show ?case by (rule fifo_cong [OF fifo_cleanup [OF stop.prems(2), of order]]) (simp_all add: plain_def)
next
  case (receive k s val avail later)
  show ?case
    by (rule fifo_collect [OF receive.prems(2) receive.hyps(1,3,4) mux_ok_handler [OF receive.prems(1) receive.hyps(1)]])
next
  case (batch k s ok)
  show ?case by (rule fifo_batch [OF batch.prems(2) batch.hyps])
next
  case (finish k s ok)
  show ?case by (rule fifo_close [OF finish.prems(2)])
next
  case (leave k s)
  show ?case by (rule fifo_handler [OF leave.prems(2)]) (simp add: pending_values_def)
next
  case (reader s m ms)
  show ?case by (rule fifo_cong [OF reader.prems(2)]) (simp_all add: plain_def)
qed

lemma fifo_run: "mux_run grow s \<Longrightarrow> fifo s"
proof (induction rule: mux_run.induct)
  case init
  show ?case
    by (rule fifoI) (simp_all add: NewResultTreeMultiplexer_def links_def ids_def waiting_def known_results_def)
next
  case (step s s')
  show ?case
    by (rule fifo_step [OF step.hyps(2) mux_ok_run [OF step.hyps(1)] step.IH])
qed

text \<open>A handler can send all that is in its channel: it receives one value at a time, and no value is
  put aside.\<close>

definition resting :: "mux \<Rightarrow> nat \<Rightarrow> bool" where
  "resting s k \<longleftrightarrow> et_out (handler s k) = [] \<and> ch_queue (out_chan s k) = []"

definition same_progress :: "nat \<Rightarrow> mux \<Rightarrow> mux \<Rightarrow> bool" where
  "same_progress k s s' \<longleftrightarrow> length (mx_handlers s') = length (mx_handlers s) \<and> plain s' = plain s \<and>
     et_id (handler s' k) = et_id (handler s k) \<and> et_running (handler s' k) = et_running (handler s k) \<and>
     ch_all (out_chan s' k) = ch_all (out_chan s k)"

lemma batch_progress:
  assumes "k < length (mx_handlers s)"
  shows "same_progress k s (handler_send True k s)"
    and "et_out (handler (handler_send True k s) k) = tl (et_out (handler s k))"
    and "ch_queue (out_chan (handler_send True k s) k) = ch_queue (out_chan s k)"
  using assms by (simp_all add: same_progress_def handler_send_def mux_simps plain_def)

lemma receive_progress:
  assumes run: "mux_run grow s" and k: "k < length (mx_handlers s)"
  shows "same_progress k s (handler_collect grow k val [] later s)"
    and "length (et_out (handler (handler_collect grow k val [] later s) k)) = 1"
    and "ch_queue (out_chan (handler_collect grow k val [] later s) k) = later"
proof -
  let ?s' = "handler_collect grow k val [] later s"
  obtain t rest aside where co: "collect grow val [] (handler s k) = (t, rest, aside)"
    by (metis prod_cases3)
  have "idle_slice (handler s k)"
    using mux_ok_handler [OF mux_ok_run [OF run] k] by (simp add: handler_ok_def)
  then obtain sl where t: "et_id t = et_id (handler s k)" "et_exec t = et_exec (handler s k)"
      "et_running t = et_running (handler s k)" "et_out t = [sl]" "batch_ok (slice_read (et_arrays t) sl)"
      "val # [] = slice_read (et_arrays t) sl @ (case aside of None \<Rightarrow> [] | Some v \<Rightarrow> [v]) @ rest"
    using collect_ok [OF _ co] by auto
  then have r: "aside = None" "rest = []"
    by (auto simp: batch_ok_def Cons_eq_append_conv split: option.splits)
  have valid: "ex_Output (et_exec (handler s k)) < length (mx_chans s)"
    by (rule out_chan_valid [OF fifoD(1) [OF fifo_run [OF run]] k])
  show "same_progress k s ?s'" "length (et_out (handler ?s' k)) = 1" "ch_queue (out_chan ?s' k) = later"
    using k valid by (simp_all add: same_progress_def plain_def handler_collect_def co r t mux_simps)
qed

lemma same_progress_trans: "same_progress k s s' \<Longrightarrow> same_progress k s' s'' \<Longrightarrow> same_progress k s s''"
  by (simp add: same_progress_def)

lemma same_progress_handler:
  "same_progress k s s' \<Longrightarrow> k < length (mx_handlers s) \<Longrightarrow> k < length (mx_handlers s')"
  "same_progress k s s' \<Longrightarrow> et_running (handler s k) \<Longrightarrow> et_running (handler s' k)"
  by (simp_all add: same_progress_def)

lemma drain:
  assumes "mux_run grow s" "k < length (mx_handlers s)" "et_running (handler s k)"
  shows "\<exists>s'. (mux_step grow)\<^sup>*\<^sup>* s s' \<and> mux_run grow s' \<and> same_progress k s s' \<and> resting s' k"
  using assms
proof (induction "2 * length (ch_queue (out_chan s k)) + length (et_out (handler s k))" arbitrary: s rule: less_induct)
  case less
  consider (rest) "resting s k" | (out) "et_out (handler s k) \<noteq> []"
    | (queue) val later where "et_out (handler s k) = []" "ch_queue (out_chan s k) = val # later"
    unfolding resting_def by (metis neq_Nil_conv)
  then show ?case
  proof cases
    case rest
    then show ?thesis
      using less.prems by (intro exI [of _ s]) (simp add: same_progress_def)
  next
    case out
    note p = batch_progress [OF less.prems(2)]
    let ?s1 = "handler_send True k s"
    have st: "mux_step grow s ?s1"
      by (rule mux_step.batch [OF less.prems(2) out])
    have "\<exists>s'. (mux_step grow)\<^sup>*\<^sup>* ?s1 s' \<and> mux_run grow s' \<and> same_progress k ?s1 s' \<and> resting s' k"
    proof (rule less.hyps)
      show "mux_run grow ?s1" by (rule mux_run.step [OF less.prems(1) st])
    qed (use out less.prems in \<open>simp_all add: p same_progress_handler [OF p(1)]\<close>)
    then show ?thesis
      using st p(1) by (meson converse_rtranclp_into_rtranclp same_progress_trans)
  next
    case queue
    note p = receive_progress [OF less.prems(1,2), of val later]
    let ?s1 = "handler_collect grow k val [] later s"
    have st: "mux_step grow s ?s1"
      by (rule mux_step.receive [OF less.prems(2,3) queue(1)]) (simp add: queue)
    have "\<exists>s'. (mux_step grow)\<^sup>*\<^sup>* ?s1 s' \<and> mux_run grow s' \<and> same_progress k ?s1 s' \<and> resting s' k"
    proof (rule less.hyps)
      show "mux_run grow ?s1" by (rule mux_run.step [OF less.prems(1) st])
    qed (use queue less.prems in \<open>simp_all only: p same_progress_handler [OF p(1)], simp\<close>)
    then show ?thesis
      using st p(1) by (meson converse_rtranclp_into_rtranclp same_progress_trans)
  qed
qed

subsection \<open>Properties\<close>

text \<open>
  C34: Each batch that is sent has a value, and it has only one or its values are at most
  \<open>MaxBatchSize\<close> bytes together, however the goroutines interleave.
\<close>

theorem batches_are_small:
  assumes "mux_run grow s" and "m \<in> set (mx_log s)" and "sm_value_batch m = Some b"
  shows "vb_values b \<noteq> [] \<and> (length (vb_values b) = 1 \<or> sum_list (map length (vb_values b)) \<le> MaxBatchSize)"
  using mux_ok_run [OF assms(1)] assms(2,3) by (auto simp: mux_ok_def message_ok_def batch_ok_def dest!: bspec)

text \<open>
  C2: As long as no send has timed out and no value was put aside, the values that were sent for
  a result, those that its handler is about to send and those in the channel of its execution are
  the values that its encoder has put there, in their order.
\<close>

theorem values_are_sent_in_order:
  assumes "mux_run grow s" and "\<not> mx_dropped s" and "\<not> mx_aside s"
    and "length (mx_handlers s) < 2 ^ 32" and "k < length (mx_handlers s)"
  shows "sent (et_id (handler s k)) (mx_log s) @ pending_values (handler s k) @ ch_queue (out_chan s k) = ch_all (out_chan s k)"
  using fifoD(5) [OF fifo_run [OF assms(1)] _ assms(4,5)] assms(2,3) by (simp add: plain_def delivered_def)

text \<open>
  C35: As long as no send has timed out and no value was put aside, a handler that has not ended
  can go on to send everything that its encoder has produced.
\<close>

theorem handlers_can_drain_their_executions:
  assumes "mux_run grow s" and "\<not> mx_dropped s" and "\<not> mx_aside s"
    and "length (mx_handlers s) < 2 ^ 32" and "k < length (mx_handlers s)" and "et_running (handler s k)"
  shows "\<exists>s'. (mux_step grow)\<^sup>*\<^sup>* s s' \<and> sent (et_id (handler s k)) (mx_log s') = ch_all (out_chan s k)"
proof -
  obtain s' where s': "(mux_step grow)\<^sup>*\<^sup>* s s'" "mux_run grow s'" "same_progress k s s'" "resting s' k"
    using drain [OF assms(1,5,6)] by blast
  have "delivered s' k"
    by (rule fifoD(5) [OF fifo_run [OF s'(2)]])
      (use s'(3) assms in \<open>simp_all add: same_progress_def plain_def\<close>)
  then show ?thesis
    using s' by (auto simp: delivered_def resting_def same_progress_def pending_values_def)
qed

text \<open>One execution, whose encoder has produced \<open>vs\<close>.\<close>

definition one_execution :: "u8 list list \<Rightarrow> mux" where
  "one_execution vs = upd_chan 0 (\<lambda>_. \<lparr>ch_queue = vs, ch_closed = False, ch_all = vs\<rparr>)
     (start_tree True \<lparr>ex_QueryId = 7, ex_CacheSize = 10, ex_CacheStrategy = 0, ex_Output = 0\<rparr>
        ((AddExecution 7 10 0 NewResultTreeMultiplexer)\<lparr>mx_addTreeChan := []\<rparr>))"

lemma one_execution_run: "mux_run grow (one_execution vs)"
proof (induction vs rule: rev_induct)
  case Nil
  have "mux_run grow (start_tree True \<lparr>ex_QueryId = 7, ex_CacheSize = 10, ex_CacheStrategy = 0, ex_Output = 0\<rparr>
      ((AddExecution 7 10 0 NewResultTreeMultiplexer)\<lparr>mx_addTreeChan := []\<rparr>))"
  proof (rule mux_run.step [OF mux_run.step [OF mux_run.init mux_step.add] mux_step.start])
  qed (simp_all add: AddExecution_def NewResultTreeMultiplexer_def)
  then show ?case
    by (simp add: one_execution_def upd_chan_def upd_at_def start_tree_def send_def AddExecution_def
        NewResultTreeMultiplexer_def Let_def make_slice_def)
next
  case (snoc v vs)
  have "mux_run grow (upd_chan 0 (\<lambda>x. x\<lparr>ch_queue := ch_queue x @ [v], ch_all := ch_all x @ [v]\<rparr>) (one_execution vs))"
    by (rule mux_run.step [OF snoc.IH mux_step.produce])
      (simp_all add: one_execution_def mux_simps start_tree_def AddExecution_def NewResultTreeMultiplexer_def Let_def make_slice_def)
  then show ?case
    by (simp add: one_execution_def upd_chan_def upd_at_def start_tree_def send_def AddExecution_def
        NewResultTreeMultiplexer_def Let_def make_slice_def)
qed

lemmas one_execution_simps = one_execution_def upd_chan_def upd_at_def start_tree_def send_def AddExecution_def
  NewResultTreeMultiplexer_def Let_def make_slice_def contents_def

lemmas step_simps = handler_collect_def collect_def append_val_def slice_read_def handler_send_def
  upd_handler_def MaxBatchSize_def put_aside_def process_pending_def batch_message_def empty_message_def

lemma take_array:
  "take (Suc 0) ((replicate 32 x)[0 := a]) = [a]"
  "take (Suc (Suc 0)) ((replicate 32 x)[0 := a, Suc 0 := b]) = [a, b]"
  by (simp_all add: numeral_eq_Suc)

theorem values_are_sent_in_order_witness:
  "sent 1 (mx_log (one_execution [[1], [2]])) @ pending_values (handler (one_execution [[1], [2]]) 0) @ [[1], [2]] = [[1], [2]]"
  using values_are_sent_in_order [OF one_execution_run [of id "[[1], [2]]"], of 0]
  by (simp add: one_execution_simps)

theorem handlers_can_drain_their_executions_witness:
  "\<exists>s'. (mux_step id)\<^sup>*\<^sup>* (one_execution [[1], [2]]) s' \<and> sent 1 (mx_log s') = [[1], [2]]"
  using handlers_can_drain_their_executions [OF one_execution_run [of id "[[1], [2]]"], of 0]
  by (simp add: one_execution_simps)

theorem batches_are_small_witness:
  "\<exists>s. mux_run id s \<and> batch_message 1 [[1], [2]] \<in> set (mx_log s) \<and>
     (length [[1], [2] :: u8 list] = 1 \<or> sum_list (map length [[1], [2] :: u8 list]) \<le> MaxBatchSize)"
proof -
  let ?s0 = "one_execution [[1], [2]]"
  let ?s1 = "handler_collect id 0 [1] [[2]] [] ?s0"
  let ?s2 = "handler_send True 0 ?s1"
  have "mux_run id ?s1"
    by (rule mux_run.step [OF one_execution_run [of id "[[1], [2]]"] mux_step.receive]) (simp_all add: one_execution_simps)
  then have run: "mux_run id ?s2"
    by (rule mux_run.step [OF _ mux_step.batch]) (simp_all add: one_execution_simps step_simps)
  have m: "batch_message 1 [[1], [2]] \<in> set (mx_log ?s2)"
    by (simp add: one_execution_simps step_simps take_array)
  show ?thesis
    using batches_are_small [OF run m, of "\<lparr>vb_result_id = 1, vb_values = [[1], [2]], vb_unknown = []\<rparr>"] run m
    by (intro exI [of _ ?s2] conjI) (simp_all add: batch_message_def)
qed

definition big :: "u8 \<Rightarrow> u8 list" where
  "big = replicate 5000"

text \<open>
  A value that does not fit in a batch waits in the single field \<open>previousPendingVal\<close> for the
  main loop, and the handler does not wait for it: it sends the values after it, and the next value
  that does not fit takes its place, so that the first is never sent, though no send has failed.
\<close>

theorem values_put_aside_are_lost:
  "\<exists>s. mux_run grow s \<and> \<not> mx_dropped s \<and> ch_all (out_chan s 0) = [big 1, big 2, [3], big 4, big 5] \<and>
    ch_queue (out_chan s 0) = [] \<and> et_out (handler s 0) = [] \<and> mx_pendingChan s = False \<and>
    sent 1 (mx_log s) = [big 1, [3], big 4, big 5]"
proof -
  let ?s0 = "one_execution [big 1, big 2, [3], big 4, big 5]"
  let ?s1 = "handler_collect grow 0 (big 1) [big 2] [[3], big 4, big 5] ?s0"
  let ?s2 = "handler_send True 0 ?s1"
  let ?s3 = "handler_collect grow 0 [3] [] [big 4, big 5] ?s2"
  let ?s4 = "handler_send True 0 ?s3"
  let ?s5 = "handler_collect grow 0 (big 4) [big 5] [] ?s4"
  let ?s6 = "handler_send True 0 ?s5"
  let ?s7 = "process_pending True (?s6\<lparr>mx_pendingChan := False\<rparr>)"
  have len: "length (big x) = 5000" for x
    by (simp add: big_def)
  note simps = one_execution_simps step_simps len
  have "mux_run grow ?s1"
    by (rule mux_run.step [OF one_execution_run mux_step.receive]) (simp_all add: simps)
  then have "mux_run grow ?s2"
    by (rule mux_run.step [OF _ mux_step.batch]) (simp_all add: simps)
  then have "mux_run grow ?s3"
    by (rule mux_run.step [OF _ mux_step.receive]) (simp_all add: simps)
  then have "mux_run grow ?s4"
    by (rule mux_run.step [OF _ mux_step.batch]) (simp_all add: simps)
  then have "mux_run grow ?s5"
    by (rule mux_run.step [OF _ mux_step.receive]) (simp_all add: simps)
  then have "mux_run grow ?s6"
    by (rule mux_run.step [OF _ mux_step.batch]) (simp_all add: simps)
  then have run: "mux_run grow ?s7"
    by (rule mux_run.step [OF _ mux_step.pending]) (simp_all add: simps)
  show ?thesis
    by (intro exI [of _ ?s7] conjI run) (simp_all add: simps sent_def take_array)
qed

text \<open>
  C36: A handler reuses the array of the batch it has sent (\<open>values[:0]\<close>) for its next one: a
  reader that comes to the first batch only then reads the value of the second, and the first value
  never reaches it.
\<close>

theorem sent_batch_is_overwritten:
  "\<exists>s. mux_run grow s \<and> \<not> mx_dropped s \<and> \<not> mx_aside s \<and> mx_outpChan s = [] \<and>
    sent 1 (mx_log s) = [[1], [2]] \<and> sent 1 (mx_read s) = [[2], [2]]"
proof -
  let ?read = "\<lambda>s m ms. s\<lparr>mx_outpChan := ms, mx_read := mx_read s @ [contents s m]\<rparr>"
  let ?s1 = "handler_collect grow 0 [1] [] [[2]] (one_execution [[1], [2]])"
  let ?s2 = "handler_send True 0 ?s1"
  let ?s3 = "handler_collect grow 0 [2] [] [] ?s2"
  let ?s4 = "handler_send True 0 ?s3"
  let ?b = "Batch 1 0 \<lparr>sl_arr = 0, sl_len = 1\<rparr>"
  let ?s5 = "?read ?s4 (TreeInit 1 \<lparr>ex_QueryId = 7, ex_CacheSize = 10, ex_CacheStrategy = 0, ex_Output = 0\<rparr>) [?b, ?b]"
  let ?s6 = "?read ?s5 ?b [?b]"
  let ?s7 = "?read ?s6 ?b []"
  note simps = one_execution_simps step_simps
  have "mux_run grow ?s1"
    by (rule mux_run.step [OF one_execution_run mux_step.receive]) (simp_all add: simps)
  then have "mux_run grow ?s2"
    by (rule mux_run.step [OF _ mux_step.batch]) (simp_all add: simps)
  then have "mux_run grow ?s3"
    by (rule mux_run.step [OF _ mux_step.receive]) (simp_all add: simps)
  then have "mux_run grow ?s4"
    by (rule mux_run.step [OF _ mux_step.batch]) (simp_all add: simps)
  then have "mux_run grow ?s5"
    by (rule mux_run.step [OF _ mux_step.reader]) (simp add: simps)
  then have "mux_run grow ?s6"
    by (rule mux_run.step [OF _ mux_step.reader]) (simp add: simps)
  then have run: "mux_run grow ?s7"
    by (rule mux_run.step [OF _ mux_step.reader]) (simp add: simps)
  show ?thesis
    by (intro exI [of _ ?s7] conjI run) (simp_all add: simps sent_def take_array)
qed

end
