(* ===== verification/Session.thy ===== *)
theory Session
  imports QTree
begin

text \<open>
  \<open>server/session.go\<close>, \<open>server/execution.go\<close>, \<open>server/server.go\<close> and the receiving loop of
  \<open>server/rpc/session.go\<close>: the sessions of the server. A session keeps the executions of its client's
  queries, each with a query tree of its own. A message starts a query, changes the tree of one, or
  ends one. An execution is an object that its goroutines share, so it stays in \<open>se_execs\<close> when it
  leaves the map.

  The error channel of a query holds ten errors and nothing reads it. An error that does not fit
  blocks the handler of the message, which holds the mutex of the session: the outcome \<open>Stuck\<close>.
  A \<open>select\<close> of a send and a context that is done may take either branch: \<open>sel\<close> is its choice.
\<close>

subsection \<open>State\<close>

definition PathCacheSize :: u32 where
  "PathCacheSize = 100"

definition ResultBufferSize :: u32 where
  "ResultBufferSize = 50"

record queryExecution =
  qx_cancelled :: bool
  qx_qid :: u32
  qx_cacheSize :: u32
  qx_cacheStrat :: i32
  qx_outpCap :: u32
  qx_qt :: QTree

datatype session_error =
    DuplicateQueryId
  | BuildFailed build_error
  | MutationFailed qt_error

text \<open>The goroutines of a query: the encoder, the root resolver and the call of the multiplexer.\<close>

datatype goroutine = EncoderRun addr | RootRes addr | MultiplexerAdd addr

record Session =
  se_cancelled :: bool
  se_schema :: "Schema option"
  se_queries :: "u32 \<rightharpoonup> addr"
  se_execs :: "queryExecution list"
  se_started :: "goroutine list"
  se_sendChan :: "(u32 \<times> session_error) list"
  se_qtNode :: "QTree option"

datatype outcome =
    Panicked
  | Stuck
  | Returned Session "session_error option"

text \<open>\<open>NewServer\<close>, \<open>BuildSession\<close> and \<open>NewSession\<close>, which builds a tree that nothing uses.\<close>

definition NewSession :: "Schema \<Rightarrow> Session" where
  "NewSession sc =
     \<lparr>se_cancelled = False, se_schema = Some sc, se_queries = Map.empty, se_execs = [], se_started = [],
      se_sendChan = [], se_qtNode = map_option NewQueryTree (ap_RootQuery (Definitions sc))\<rparr>"

text \<open>\<open>send\<close>, of a query error: the only message that the session itself sends.\<close>

definition send_error :: "bool \<Rightarrow> u32 \<Rightarrow> session_error \<Rightarrow> Session \<Rightarrow> Session" where
  "send_error sel qid e s =
     (if se_cancelled s \<and> \<not> sel then s else s\<lparr>se_sendChan := se_sendChan s @ [(qid, e)]\<rparr>)"

subsection \<open>Messages\<close>

definition handleInitQuery :: "bool \<Rightarrow> RGQLQueryInit \<Rightarrow> Session \<Rightarrow> Session \<times> session_error option" where
  "handleInitQuery sel msg s =
     (let qid = qi_query_id msg
      in if se_queries s qid \<noteq> None then (send_error sel qid DuplicateQueryId s, Some DuplicateQueryId)
         else (case BuildQueryTree (se_schema s) of
                 Inl e \<Rightarrow> (send_error sel qid (BuildFailed e) s, Some (BuildFailed e))
               | Inr qt \<Rightarrow>
                   let a = length (se_execs s);
                       e = \<lparr>qx_cancelled = se_cancelled s, qx_qid = qid, qx_cacheSize = PathCacheSize,
                            qx_cacheStrat = 0, qx_outpCap = ResultBufferSize, qx_qt = qt\<rparr>
                   in (s\<lparr>se_execs := se_execs s @ [e], se_queries := (se_queries s)(qid \<mapsto> a),
                         se_started := se_started s @ [EncoderRun a, RootRes a, MultiplexerAdd a]\<rparr>, None)))"

definition upd_exec :: "addr \<Rightarrow> (queryExecution \<Rightarrow> queryExecution) \<Rightarrow> Session \<Rightarrow> Session" where
  "upd_exec a f s = s\<lparr>se_execs := upd_at a f (se_execs s)\<rparr>"

definition handleFinishQuery :: "RGQLQueryFinish \<Rightarrow> Session \<Rightarrow> Session" where
  "handleFinishQuery msg s =
     (case se_queries s (qf_query_id msg) of
        None \<Rightarrow> s
      | Some a \<Rightarrow> (upd_exec a (\<lambda>e. e\<lparr>qx_cancelled := True\<rparr>) s)
                    \<lparr>se_queries := (se_queries s)(qf_query_id msg := None)\<rparr>)"

definition errCap :: nat where
  "errCap = 10"

text \<open>The mutation of the tree of a query; a message for a query that does not exist is ignored.\<close>

definition mutate :: "definitions \<Rightarrow> (ast_type \<Rightarrow> addr option) \<Rightarrow> (VariableStore \<Rightarrow> u32 list) \<Rightarrow>
    RGQLQueryTreeMutation \<Rightarrow> Session \<Rightarrow> outcome" where
  "mutate defs lookup ord m s =
     (case se_queries s (tm_query_id m) of
        None \<Rightarrow> Returned s None
      | Some a \<Rightarrow>
          (case ApplyTreeMutation defs lookup ord m (qx_qt (se_execs s ! a)) of
             None \<Rightarrow> Panicked
           | Some (qt, e) \<Rightarrow>
               if errCap < length (qt_errCh qt) then Stuck
               else Returned (upd_exec a (\<lambda>x. x\<lparr>qx_qt := qt\<rparr>) s) (map_option MutationFailed e)))"

definition HandleMessage :: "definitions \<Rightarrow> (ast_type \<Rightarrow> addr option) \<Rightarrow> (VariableStore \<Rightarrow> u32 list) \<Rightarrow> bool \<Rightarrow>
    RGQLClientMessage \<Rightarrow> Session \<Rightarrow> outcome" where
  "HandleMessage defs lookup ord sel msg s =
     (case cm_init_query msg of
        Some i \<Rightarrow> (case handleInitQuery sel i s of (s', e) \<Rightarrow> Returned s' e)
      | None \<Rightarrow>
          (case (case cm_mutate_tree msg of None \<Rightarrow> Returned s None | Some m \<Rightarrow> mutate defs lookup ord m s) of
             Returned s1 None \<Rightarrow>
               Returned (case cm_finish_query msg of None \<Rightarrow> s1 | Some f \<Rightarrow> handleFinishQuery f s1) None
           | r \<Rightarrow> r))"

definition Cancel :: "Session \<Rightarrow> Session" where
  "Cancel s = s\<lparr>se_cancelled := True, se_execs := map (\<lambda>e. e\<lparr>qx_cancelled := True\<rparr>) (se_execs s)\<rparr>"

text \<open>The goroutine of \<open>Execute\<close> that receives, on the messages that arrive before \<open>Recv\<close> fails: it
  ends at the first message whose handler returns an error, and the session is then cancelled.\<close>

fun receive_loop :: "definitions \<Rightarrow> (ast_type \<Rightarrow> addr option) \<Rightarrow> (VariableStore \<Rightarrow> u32 list) \<Rightarrow> bool \<Rightarrow>
    RGQLClientMessage list \<Rightarrow> Session \<Rightarrow> outcome" where
  "receive_loop defs lookup ord sel [] s = Returned (Cancel s) None"
| "receive_loop defs lookup ord sel (m # ms) s =
     (case HandleMessage defs lookup ord sel m s of
        Returned s' None \<Rightarrow> receive_loop defs lookup ord sel ms s'
      | Returned s' (Some e) \<Rightarrow> Returned (Cancel s') (Some e)
      | r \<Rightarrow> r)"

subsection \<open>Invariants\<close>

text \<open>Handles that a message may take.\<close>

definition message_args :: "RGQLClientMessage \<Rightarrow> nat" where
  "message_args msg = (case cm_mutate_tree msg of None \<Rightarrow> 0 | Some m \<Rightarrow> mutation_args (tm_node_mutation m))"

text \<open>The sessions that messages can lead to, with handles for \<open>n\<close> more arguments.\<close>

inductive session_run :: "definitions \<Rightarrow> (ast_type \<Rightarrow> addr option) \<Rightarrow> Schema \<Rightarrow> nat \<Rightarrow> Session \<Rightarrow> bool"
  for defs lookup sc where
  new: "n < 2 ^ 32 \<Longrightarrow> session_run defs lookup sc n (NewSession sc)"
| message: "session_run defs lookup sc (n + message_args m) s \<Longrightarrow>
    HandleMessage defs lookup ord sel m s = Returned s' e \<Longrightarrow> session_run defs lookup sc n s'"
| cancel: "session_run defs lookup sc n s \<Longrightarrow> session_run defs lookup sc n (Cancel s)"

text \<open>The queries in the map are the executions that are not cancelled, each under its id.\<close>

definition linked :: "Session \<Rightarrow> bool" where
  "linked s \<longleftrightarrow>
     (\<forall>i a. se_queries s i = Some a \<longrightarrow> a < length (se_execs s) \<and> qx_qid (se_execs s ! a) = i) \<and>
     (\<forall>a < length (se_execs s). qx_cancelled (se_execs s ! a) \<longleftrightarrow>
        se_cancelled s \<or> se_queries s (qx_qid (se_execs s ! a)) \<noteq> Some a)"

definition trees :: "(QTree \<Rightarrow> bool) \<Rightarrow> Session \<Rightarrow> bool" where
  "trees P s \<longleftrightarrow> (\<forall>x \<in> set (se_execs s). P (qx_qt x))"

text \<open>A query started.\<close>

definition init_session :: "u32 \<Rightarrow> QTree \<Rightarrow> Session \<Rightarrow> Session" where
  "init_session qid qt s =
     (let a = length (se_execs s)
      in s\<lparr>se_execs := se_execs s @ [\<lparr>qx_cancelled = se_cancelled s, qx_qid = qid, qx_cacheSize = PathCacheSize,
             qx_cacheStrat = 0, qx_outpCap = ResultBufferSize, qx_qt = qt\<rparr>],
           se_queries := (se_queries s)(qid \<mapsto> a),
           se_started := se_started s @ [EncoderRun a, RootRes a, MultiplexerAdd a]\<rparr>)"

lemma send_error_fields [simp]:
  "se_cancelled (send_error sel q e s) = se_cancelled s" "se_schema (send_error sel q e s) = se_schema s"
  "se_queries (send_error sel q e s) = se_queries s" "se_execs (send_error sel q e s) = se_execs s"
  "se_started (send_error sel q e s) = se_started s"
  by (simp_all add: send_error_def)

lemma upd_exec_fields [simp]:
  "se_cancelled (upd_exec a f s) = se_cancelled s" "se_schema (upd_exec a f s) = se_schema s"
  "se_queries (upd_exec a f s) = se_queries s" "se_execs (upd_exec a f s) = upd_at a f (se_execs s)"
  by (simp_all add: upd_exec_def)

lemma linked_init: "linked s \<Longrightarrow> se_queries s qid = None \<Longrightarrow> linked (init_session qid qt s)"
  by (auto simp: linked_def init_session_def Let_def nth_append less_Suc_eq)

lemma linked_tree: "linked s \<Longrightarrow> linked (upd_exec a (\<lambda>x. x\<lparr>qx_qt := qt\<rparr>) s)"
  by (auto simp: linked_def nth_upd_at)

lemma linked_finish: "linked s \<Longrightarrow> linked (handleFinishQuery msg s)"
  by (auto simp: linked_def handleFinishQuery_def nth_upd_at split: option.split)

lemma linked_cong:
  "se_cancelled s' = se_cancelled s \<Longrightarrow> se_queries s' = se_queries s \<Longrightarrow> se_execs s' = se_execs s \<Longrightarrow> linked s \<Longrightarrow> linked s'"
  by (simp add: linked_def)

lemma linked_Cancel: "linked s \<Longrightarrow> linked (Cancel s)"
  by (auto simp: linked_def Cancel_def)

lemma trees_init: "trees P s \<Longrightarrow> P qt \<Longrightarrow> trees P (init_session qid qt s)"
  by (auto simp: trees_def init_session_def Let_def)

lemma trees_tree: "trees P s \<Longrightarrow> P qt \<Longrightarrow> trees P (upd_exec a (\<lambda>x. x\<lparr>qx_qt := qt\<rparr>) s)"
  by (auto simp: trees_def upd_at_def dest!: set_update_subset_insert [THEN subsetD])

lemma trees_finish: "trees P s \<Longrightarrow> trees P (handleFinishQuery msg s)"
proof (cases "se_queries s (qf_query_id msg)")
  case (Some a)
  assume t: "trees P s"
  show ?thesis
  proof (cases "a < length (se_execs s)")
    case True
    then have "P (qx_qt (se_execs s ! a))"
      using t by (simp add: trees_def)
    then show ?thesis
      using t Some by (auto simp: trees_def handleFinishQuery_def upd_at_def dest!: set_update_subset_insert [THEN subsetD])
  next
    case False
    then show ?thesis
      using t Some by (simp add: trees_def handleFinishQuery_def upd_at_def list_update_beyond)
  qed
qed (simp add: handleFinishQuery_def)

lemma handleInitQuery_cases:
  assumes "handleInitQuery sel msg s = (s', e)"
  obtains (failed) err where "s' = send_error sel (qi_query_id msg) err s" "e = Some err"
  | (started) qt where "s' = init_session (qi_query_id msg) qt s" "e = None" "se_queries s (qi_query_id msg) = None"
      "BuildQueryTree (se_schema s) = Inr qt"
  using assms by (fastforce simp: handleInitQuery_def init_session_def Let_def split: if_splits sum.splits)

lemma mutate_cases:
  assumes "mutate defs lookup ord m s = Returned s' e"
  obtains (ignored) "s' = s" "e = None" "se_queries s (tm_query_id m) = None"
  | (mutated) a qt err where "se_queries s (tm_query_id m) = Some a"
      "ApplyTreeMutation defs lookup ord m (qx_qt (se_execs s ! a)) = Some (qt, err)"
      "s' = upd_exec a (\<lambda>x. x\<lparr>qx_qt := qt\<rparr>) s" "e = map_option MutationFailed err"
  using assms by (auto simp: mutate_def split: option.splits if_splits)

lemma HandleMessage_cases:
  assumes "HandleMessage defs lookup ord sel msg s = Returned s' e"
  obtains (init) i where "cm_init_query msg = Some i" "handleInitQuery sel i s = (s', e)"
  | (tree) m s1 e1 where "cm_init_query msg = None" "cm_mutate_tree msg = Some m"
      "mutate defs lookup ord m s = Returned s1 e1"
      "s' = s1 \<or> (\<exists>f. s' = handleFinishQuery f s1 \<and> cm_finish_query msg = Some f)"
  | (plain) "cm_init_query msg = None" "cm_mutate_tree msg = None"
      "s' = s \<or> (\<exists>f. s' = handleFinishQuery f s \<and> cm_finish_query msg = Some f)"
  using assms by (auto simp: HandleMessage_def split: option.splits outcome.splits prod.splits)

lemma linked_HandleMessage:
  assumes "linked s" and "HandleMessage defs lookup ord sel msg s = Returned s' e"
  shows "linked s'"
  using assms(2)
proof (cases rule: HandleMessage_cases)
  case (init i)
  from init(2) show ?thesis
  proof (cases rule: handleInitQuery_cases)
    case (failed err)
    show ?thesis
      unfolding failed by (rule linked_cong [OF _ _ _ assms(1)]) simp_all
  next
    case (started qt)
    show ?thesis
      unfolding started(1) by (rule linked_init [OF assms(1) started(3)])
  qed
next
  case (tree m s1 e1)
  from tree(3) have "linked s1"
    by (cases rule: mutate_cases) (use assms(1) linked_tree in auto)
  then show ?thesis
    using tree(4) linked_finish by blast
next
  case plain
  then show ?thesis
    using assms(1) linked_finish by blast
qed

lemma trees_HandleMessage:
  assumes inv: "trees (qt_inv defs lookup (n + message_args msg)) s" and n: "n < 2 ^ 32"
    and h: "HandleMessage defs lookup ord sel msg s = Returned s' e" and l: "linked s"
  shows "trees (qt_inv defs lookup n) s'"
proof -
  have s: "trees (qt_inv defs lookup n) s"
    using inv by (auto simp: trees_def intro: qt_inv_mono)
  from h show ?thesis
  proof (cases rule: HandleMessage_cases)
    case (init i)
    from init(2) show ?thesis
    proof (cases rule: handleInitQuery_cases)
      case (failed err)
      then show ?thesis
        using s by (simp add: trees_def)
    next
      case (started qt)
      have "qt_inv defs lookup n qt"
        using started(4) new_tree_inv [OF n] by (auto simp: BuildQueryTree_def split: option.splits)
      then show ?thesis
        unfolding started(1) by (rule trees_init [OF s])
    qed
  next
    case (tree m s1 e1)
    from tree(3) have "trees (qt_inv defs lookup n) s1"
    proof (cases rule: mutate_cases)
      case (mutated a qt err)
      have "a < length (se_execs s)"
        using l mutated(1) by (simp add: linked_def)
      then have "qt_inv defs lookup (n + mutation_args (tm_node_mutation m)) (qx_qt (se_execs s ! a))"
        using inv tree(2) by (simp add: trees_def message_args_def)
      then have "qt_inv defs lookup n qt"
        using mutation_inv mutated(2) by blast
      then show ?thesis
        unfolding mutated(3) by (rule trees_tree [OF s])
    qed (use s in simp)
    then show ?thesis
      using tree(4) trees_finish by blast
  next
    case plain
    then show ?thesis
      using s trees_finish by blast
  qed
qed

text \<open>The nodes of a tree stay at definitions that the parser could have made.\<close>

lemma apply_nodes_schema:
  assumes "lookup_ok defs lookup" and "schema_ok defs t" and "qt_inv defs lookup (n + mutation_args aqns) t"
    and "apply_nodes defs lookup aqns t = Some (t', e)"
  shows "schema_ok defs t'"
  using assms(2-4)
proof (induction aqns arbitrary: t)
  case (Cons aqn aqns)
  have inv: "qt_inv defs lookup (n + mutation_args aqns) t"
    by (rule qt_inv_mono [OF Cons.prems(2)]) (simp add: mutation_args_def)
  consider (skip) "apply_nodes defs lookup aqns t = Some (t', e)"
    | (add) nod data where "qt_RootNodeMap t (nm_node_id aqn) = Some nod" "nm_operation aqn = SUBTREE_ADD_CHILD" "nm_node aqn = Some data"
    | (del) nod t1 where "qt_RootNodeMap t (nm_node_id aqn) = Some nod" "Dispose (length (qt_nodes t)) nod t = Some t1"
        "apply_nodes defs lookup aqns t1 = Some (t', e)"
    using Cons.prems(3) by (auto split: option.splits if_splits)
  then show ?case
  proof cases
    case skip
    show ?thesis
      by (rule Cons.IH [OF Cons.prems(1) inv skip])
  next
    case add
    have nod: "nod < length (qt_nodes t)"
      using shape_map [OF _ add(1)] inv by (simp add: qt_inv_def)
    obtain t1 e1 where ac: "AddChild defs lookup nod data t = Some (t1, e1)" and s1: "schema_ok defs t1"
      using AddChild_total(1) [OF assms(1) Cons.prems(1) nod] by blast
    have "qt_inv defs lookup (n + mutation_args aqns + arg_count data) t"
      using Cons.prems(2) add(3) by (simp add: mutation_args_def ac_simps)
    then have "qt_inv defs lookup (n + mutation_args aqns) t1"
      using AddChild_inv(1) [OF ac] nod by simp
    then show ?thesis
      using Cons.IH [OF s1] Cons.prems(3) add ac s1 by (cases e1) auto
  next
    case del
    have nod: "nod < length (qt_nodes t)"
      using shape_map [OF _ del(1)] inv by (simp add: qt_inv_def)
    have "qt_inv defs lookup (n + mutation_args aqns) t1 \<and> schema_ok defs t1"
      using Dispose_total [OF inv Cons.prems(1) nod] del(2) by auto
    then show ?thesis
      using Cons.IH del(3) by blast
  qed
qed simp

lemma mutation_schema:
  assumes "qt_inv defs lookup (n + mutation_args (tm_node_mutation m)) t" and "schema_ok defs t"
    and "lookup_ok defs lookup" and "ApplyTreeMutation defs lookup ord m t = Some (t', e)"
  shows "schema_ok defs t'"
proof -
  let ?vs = "fold (\<lambda>v vs. fst (VariableStore_Put v vs)) (tm_variables m) (qt_VariableStore t)"
  let ?t1 = "t\<lparr>qt_VariableStore := ?vs\<rparr>"
  have "vs_inv (n + mutation_args (tm_node_mutation m)) ?vs" "same_handles (qt_VariableStore t) ?vs"
    using put_all assms(1) by (auto simp: qt_inv_def args_ok_def)
  then have inv: "qt_inv defs lookup (n + mutation_args (tm_node_mutation m)) ?t1"
    using store_inv(1) [OF assms(1)] by blast
  have sc: "schema_ok defs ?t1"
    using assms(2) by (simp add: schema_ok_def)
  obtain t2 e2 where ap: "apply_nodes defs lookup (tm_node_mutation m) ?t1 = Some (t2, e2)"
    and t': "qt_nodes t' = qt_nodes t2"
    using assms(4) by (auto simp: ApplyTreeMutation_def Let_def split: option.splits)
  show ?thesis
    using apply_nodes_schema [OF assms(3) sc inv ap] t' by (simp add: schema_ok_def)
qed

lemma trees_schema_HandleMessage:
  assumes inv: "trees (qt_inv defs lookup (n + message_args msg)) s" and sc: "trees (schema_ok defs) s"
    and h: "HandleMessage defs lookup ord sel msg s = Returned s' e" and l: "linked s" "lookup_ok defs lookup"
    and root: "se_schema s = Some d" "\<And>r. ap_RootQuery (Definitions d) = Some r \<Longrightarrow> definition_ok (defs ! r)"
  shows "trees (schema_ok defs) s'"
  using h
proof (cases rule: HandleMessage_cases)
  case (init i)
  from init(2) show ?thesis
  proof (cases rule: handleInitQuery_cases)
    case (failed err)
    then show ?thesis
      using sc by (simp add: trees_def)
  next
    case (started qt)
    have "schema_ok defs qt"
      using started(4) root by (auto simp: BuildQueryTree_def schema_ok_def NewQueryTree_def new_node_def split: option.splits)
    then show ?thesis
      unfolding started(1) by (rule trees_init [OF sc])
  qed
next
  case (tree m s1 e1)
  from tree(3) have "trees (schema_ok defs) s1"
  proof (cases rule: mutate_cases)
    case (mutated a qt err)
    have "a < length (se_execs s)"
      using l mutated(1) by (simp add: linked_def)
    then have "qt_inv defs lookup (n + mutation_args (tm_node_mutation m)) (qx_qt (se_execs s ! a))"
      "schema_ok defs (qx_qt (se_execs s ! a))"
      using inv sc tree(2) by (simp_all add: trees_def message_args_def)
    then have "schema_ok defs qt"
      by (rule mutation_schema [OF _ _ l(2) mutated(2)])
    then show ?thesis
      unfolding mutated(3) by (rule trees_tree [OF sc])
  qed (use sc in simp)
  then show ?thesis
    using tree(4) trees_finish by blast
next
  case plain
  then show ?thesis
    using sc trees_finish by blast
qed

lemma session_run_ok:
  "session_run defs lookup sc n s \<Longrightarrow> n < 2 ^ 32 \<and> linked s \<and> trees (qt_inv defs lookup n) s"
proof (induction rule: session_run.induct)
  case (new n)
  then show ?case
    by (simp add: NewSession_def linked_def trees_def)
next
  case (message n m s ord sel s' e)
  have "n < 2 ^ 32"
    using message.IH by simp
  then show ?case
    using message.IH linked_HandleMessage [OF _ message.hyps(2)] trees_HandleMessage [OF _ _ message.hyps(2)] by blast
next
  case (cancel n s)
  then show ?case
    using linked_Cancel by (auto simp: trees_def Cancel_def)
qed

lemma HandleMessage_schema:
  assumes "HandleMessage defs lookup ord sel msg s = Returned s' e"
  shows "se_schema s' = se_schema s"
  using assms
proof (cases rule: HandleMessage_cases)
  case (init i)
  from init(2) show ?thesis
    by (cases rule: handleInitQuery_cases) (simp_all add: init_session_def Let_def)
next
  case (tree m s1 e1)
  from tree(3) have "se_schema s1 = se_schema s"
    by (cases rule: mutate_cases) simp_all
  then show ?thesis
    using tree(4) by (auto simp: handleFinishQuery_def split: option.splits)
next
  case plain
  then show ?thesis
    by (auto simp: handleFinishQuery_def split: option.splits)
qed

text \<open>What the parser and \<open>DocumentToParts\<close> give to the server.\<close>

definition server_schema_ok :: "definitions \<Rightarrow> (ast_type \<Rightarrow> addr option) \<Rightarrow> Schema \<Rightarrow> bool" where
  "server_schema_ok defs lookup sc \<longleftrightarrow> lookup_ok defs lookup \<and>
     (case ap_RootQuery (Definitions sc) of None \<Rightarrow> True | Some r \<Rightarrow> definition_ok (defs ! r))"

lemma session_run_schema:
  assumes "session_run defs lookup sc n s" and "server_schema_ok defs lookup sc"
  shows "se_schema s = Some sc \<and> trees (schema_ok defs) s"
  using assms(1)
proof (induction rule: session_run.induct)
  case (new n)
  show ?case
    by (simp add: NewSession_def trees_def)
next
  case (message n m s ord sel s' e)
  have "linked s" "trees (qt_inv defs lookup (n + message_args m)) s"
    using session_run_ok [OF message.hyps(1)] by blast+
  moreover have "definition_ok (defs ! r)" if "ap_RootQuery (Definitions sc) = Some r" for r
    using assms(2) that by (simp add: server_schema_ok_def)
  ultimately show ?case
    using trees_schema_HandleMessage [OF _ _ message.hyps(2), of n sc] message.IH assms(2) HandleMessage_schema [OF message.hyps(2)]
    by (simp add: server_schema_ok_def)
next
  case (cancel n s)
  then show ?case
    by (auto simp: trees_def Cancel_def)
qed

subsection \<open>Properties\<close>

text \<open>
  C37: the queries of a session are its executions that are not cancelled, each under its own id
  and with a query tree of its own that satisfies the invariant of the tree, after any sequence of
  messages; when the session is cancelled, every execution is.
\<close>

theorem session_keeps_live_queries:
  assumes "session_run defs lookup sc n s" and "a < length (se_execs s)"
  shows "qt_inv defs lookup n (qx_qt (se_execs s ! a)) \<and>
    (qx_cancelled (se_execs s ! a) \<longleftrightarrow> se_cancelled s \<or> se_queries s (qx_qid (se_execs s ! a)) \<noteq> Some a)"
  using session_run_ok [OF assms(1)] assms(2) by (auto simp: linked_def trees_def)


text \<open>The definitions of the samples as a schema; a query with \<open>k\<close> fields that do not exist.\<close>

definition sample_schema :: Schema where
  "sample_schema = \<lparr>Document = [], Definitions = new_parts\<lparr>ap_RootQuery := Some 0\<rparr>\<rparr>"

definition init_message :: "u32 \<Rightarrow> RGQLClientMessage" where
  "init_message i = \<lparr>cm_init_query = Some \<lparr>qi_query_id = i, qi_force_serial = False, qi_operation_type = '''', qi_unknown = []\<rparr>,
     cm_mutate_tree = None, cm_finish_query = None, cm_unknown = []\<rparr>"

definition mutate_message :: "RGQLQueryTreeMutation \<Rightarrow> RGQLClientMessage" where
  "mutate_message m = \<lparr>cm_init_query = None, cm_mutate_tree = Some m, cm_finish_query = None, cm_unknown = []\<rparr>"

definition unknown_fields :: "nat \<Rightarrow> RGQLQueryTreeMutation" where
  "unknown_fields k = \<lparr>tm_query_id = 0,
     tm_node_mutation = [\<lparr>nm_node_id = 0, nm_operation = SUBTREE_ADD_CHILD, nm_node =
       Some (RGQLQueryTreeNode 1 ''self'' [] [] (replicate k (RGQLQueryTreeNode 2 ''nope'' [] [] [] [])) []), nm_unknown = []\<rparr>],
     tm_variables = [], tm_unknown = []\<rparr>"


definition sample_session :: Session where
  "sample_session = init_session 0 (NewQueryTree 0) (NewSession sample_schema)"

lemma sample_session_run:
  assumes "n < 2 ^ 32"
  shows "session_run sample_definitions sample_lookup sample_schema n sample_session"
proof (rule session_run.message)
  show "session_run sample_definitions sample_lookup sample_schema (n + message_args (init_message 0)) (NewSession sample_schema)"
    using assms by (intro session_run.new) (simp add: message_args_def init_message_def)
  show "HandleMessage sample_definitions sample_lookup (\<lambda>_. []) True (init_message 0) (NewSession sample_schema) =
      Returned sample_session None"
    by (simp add: HandleMessage_def init_message_def handleInitQuery_def sample_session_def init_session_def Let_def
        BuildQueryTree_def NewSession_def sample_schema_def)
qed

lemma session_keeps_live_queries_witness:
  "qt_inv sample_definitions sample_lookup 3 (NewQueryTree 0) \<and> se_queries sample_session 0 = Some 0"
  using session_keeps_live_queries [OF sample_session_run [of 3], of 0]
  by (simp add: sample_session_def init_session_def Let_def NewSession_def)


end
