(* ===== verification/Rpc.thy ===== *)
theory Rpc
  imports Session "HOL-Library.Sublist"
begin

text \<open>
  \<open>server/rpc/session.go\<close>: a session on a stream. \<open>Execute\<close> runs two loops, as the steps of \<open>rpc_step\<close>: a goroutine
  receives messages and hands them to the session of \<open>Session\<close>; the main loop selects between the context, the error of
  that goroutine and the messages to send, which the session and its multiplexer put in a channel of ten. Logging is left
  out.
\<close>

subsection \<open>State\<close>

text \<open>A message for the client: an error of the session, or what the multiplexer sends.\<close>

datatype 'r server_out =
    QueryError u32 session_error
  | FromMultiplexer 'r

datatype rpc_error =
    Canceled
  | RecvFailed
  | HandlerFailed session_error
  | SendFailed

datatype receiver = Receiving | ReceiverBlocked | ReceiverDone

record 'r rpc_Session =
  rs_ctxDone :: bool
  rs_session :: Session
  rs_sendCh :: "'r server_out list"
  rs_errCh :: "rpc_error list"
  rs_receiver :: receiver
  rs_sent :: "'r server_out list"
  rs_result :: "rpc_error option"

definition sendCap :: nat where
  "sendCap = 10"

definition rpc_NewSession :: "Schema \<Rightarrow> 'r rpc_Session" where
  "rpc_NewSession sc =
     \<lparr>rs_ctxDone = False, rs_session = NewSession sc, rs_sendCh = [], rs_errCh = [], rs_receiver = Receiving, rs_sent = [],
      rs_result = None\<rparr>"

text \<open>What handling a message adds to the channel.\<close>

definition error_messages :: "(u32 \<times> session_error) list \<Rightarrow> 'r server_out list" where
  "error_messages es = map (\<lambda>(q, e). QueryError q e) es"

definition put_errors :: "Session \<Rightarrow> 'r rpc_Session \<Rightarrow> 'r rpc_Session" where
  "put_errors s' st = st\<lparr>rs_session := s',
     rs_sendCh := rs_sendCh st @ error_messages (drop (length (se_sendChan (rs_session st))) (se_sendChan s'))\<rparr>"

text \<open>The return of \<open>Execute\<close>, with the deferred \<open>Cancel\<close>.\<close>

definition return_rpc :: "rpc_error \<Rightarrow> 'r rpc_Session \<Rightarrow> 'r rpc_Session" where
  "return_rpc e st = st\<lparr>rs_result := Some e, rs_session := Cancel (rs_session st)\<rparr>"

subsection \<open>Steps\<close>

text \<open>
  The receiver takes a message, which is handled in one step, when the channels have room for what it sends; \<open>handle_stuck\<close>
  is the handler that never returns, and a handler that panics has no step. Then the multiplexer, the context of the caller, and the cases of the main loop. The
  number is that of the arguments of the message.
\<close>

inductive rpc_step :: "definitions \<Rightarrow> (ast_type \<Rightarrow> addr option) \<Rightarrow> nat \<Rightarrow> 'r rpc_Session \<Rightarrow> 'r rpc_Session \<Rightarrow> bool"
  for defs lookup where
  handle: "rs_receiver st = Receiving \<Longrightarrow> HandleMessage defs lookup ord sel m (rs_session st) = Returned s' None \<Longrightarrow>
    length (rs_sendCh (put_errors s' st)) \<le> sendCap \<Longrightarrow> rpc_step defs lookup (message_args m) st (put_errors s' st)"
| handle_fails: "rs_receiver st = Receiving \<Longrightarrow> HandleMessage defs lookup ord sel m (rs_session st) = Returned s' (Some e) \<Longrightarrow>
    length (rs_sendCh (put_errors s' st)) \<le> sendCap \<Longrightarrow> rs_errCh st = [] \<Longrightarrow>
    rpc_step defs lookup (message_args m) st ((put_errors s' st)\<lparr>rs_errCh := [HandlerFailed e], rs_receiver := ReceiverDone\<rparr>)"
| handle_stuck: "rs_receiver st = Receiving \<Longrightarrow> HandleMessage defs lookup ord sel m (rs_session st) = Stuck \<Longrightarrow>
    rpc_step defs lookup 0 st (st\<lparr>rs_receiver := ReceiverBlocked\<rparr>)"
| recv_fails: "rs_receiver st = Receiving \<Longrightarrow> rs_errCh st = [] \<Longrightarrow>
    rpc_step defs lookup 0 st (st\<lparr>rs_errCh := [RecvFailed], rs_receiver := ReceiverDone\<rparr>)"
| multiplexer: "length (rs_sendCh st) < sendCap \<Longrightarrow>
    rpc_step defs lookup 0 st (st\<lparr>rs_sendCh := rs_sendCh st @ [FromMultiplexer r]\<rparr>)"
| ctx_done: "rpc_step defs lookup 0 st (st\<lparr>rs_ctxDone := True, rs_session := Cancel (rs_session st)\<rparr>)"
| loop_canceled: "rs_result st = None \<Longrightarrow> rs_ctxDone st \<Longrightarrow> rpc_step defs lookup 0 st (return_rpc Canceled st)"
| loop_error: "rs_result st = None \<Longrightarrow> rs_errCh st = [e] \<Longrightarrow> rpc_step defs lookup 0 st (return_rpc e (st\<lparr>rs_errCh := []\<rparr>))"
| loop_sends: "rs_result st = None \<Longrightarrow> rs_sendCh st = x # xs \<Longrightarrow>
    rpc_step defs lookup 0 st (st\<lparr>rs_sendCh := xs, rs_sent := rs_sent st @ [x]\<rparr>)"
| send_fails: "rs_result st = None \<Longrightarrow> rs_sendCh st = x # xs \<Longrightarrow>
    rpc_step defs lookup 0 st (return_rpc SendFailed (st\<lparr>rs_sendCh := xs\<rparr>))"

inductive rpc_run :: "definitions \<Rightarrow> (ast_type \<Rightarrow> addr option) \<Rightarrow> Schema \<Rightarrow> nat \<Rightarrow> 'r rpc_Session \<Rightarrow> bool" for defs lookup sc where
  start: "n < 2 ^ 32 \<Longrightarrow> rpc_run defs lookup sc n (rpc_NewSession sc)"
| step: "rpc_run defs lookup sc (n + k) st \<Longrightarrow> rpc_step defs lookup k st st' \<Longrightarrow> rpc_run defs lookup sc n st'"

subsection \<open>Invariant\<close>

lemma HandleMessage_reports:
  assumes "HandleMessage defs lookup ord sel msg s = Returned s' e"
  shows "\<exists>es. se_sendChan s' = se_sendChan s @ es"
  using assms
proof (cases rule: HandleMessage_cases)
  case (init i)
  from init(2) show ?thesis
    by (cases rule: handleInitQuery_cases) (auto simp: init_session_def Let_def send_error_def)
next
  case (tree m s1 e1)
  from tree(3) have "se_sendChan s1 = se_sendChan s"
    by (cases rule: mutate_cases) (simp_all add: upd_exec_def)
  then show ?thesis
    using tree(4) by (auto simp: handleFinishQuery_def upd_exec_def split: option.splits)
next
  case plain
  then show ?thesis
    by (auto simp: handleFinishQuery_def upd_exec_def split: option.splits)
qed

lemma HandleMessage_cancelled:
  assumes "HandleMessage defs lookup ord sel msg s = Returned s' e"
  shows "se_cancelled s' = se_cancelled s"
  using assms
proof (cases rule: HandleMessage_cases)
  case (init i)
  from init(2) show ?thesis
    by (cases rule: handleInitQuery_cases) (simp_all add: init_session_def Let_def)
next
  case (tree m s1 e1)
  from tree(3) have "se_cancelled s1 = se_cancelled s"
    by (cases rule: mutate_cases) simp_all
  then show ?thesis
    using tree(4) by (auto simp: handleFinishQuery_def split: option.splits)
next
  case plain
  then show ?thesis
    by (auto simp: handleFinishQuery_def split: option.splits)
qed

fun is_error_message :: "'r server_out \<Rightarrow> bool" where
  "is_error_message (QueryError q e) = True"
| "is_error_message (FromMultiplexer r) = False"

lemma filter_error_messages [simp]: "filter is_error_message (error_messages es) = error_messages es"
  by (auto simp: error_messages_def filter_id_conv)

lemma Cancel_fields [simp]: "se_sendChan (Cancel s) = se_sendChan s" "se_cancelled (Cancel s)"
  by (simp_all add: Cancel_def)

lemma error_messages_append [simp]: "error_messages (xs @ ys) = error_messages xs @ error_messages ys"
  by (simp add: error_messages_def)

text \<open>The errors of the session that were sent are the first ones, in order; the others are in the channel, unless a send failed.\<close>

definition rpc_inv :: "'r rpc_Session \<Rightarrow> bool" where
  "rpc_inv st \<longleftrightarrow> prefix (filter is_error_message (rs_sent st)) (error_messages (se_sendChan (rs_session st))) \<and>
     (rs_result st \<noteq> Some SendFailed \<longrightarrow>
        filter is_error_message (rs_sent st) @ filter is_error_message (rs_sendCh st) = error_messages (se_sendChan (rs_session st))) \<and>
     (rs_result st \<noteq> None \<or> rs_ctxDone st \<longrightarrow> se_cancelled (rs_session st)) \<and>
     (rs_receiver st \<noteq> ReceiverDone \<longrightarrow> rs_errCh st = []) \<and>
     (rs_receiver st = ReceiverDone \<longrightarrow> rs_result st = None \<longrightarrow> length (rs_errCh st) = 1) \<and>
     length (rs_sendCh st) \<le> sendCap"

lemma put_errors_fields [simp]:
  "rs_ctxDone (put_errors s' st) = rs_ctxDone st" "rs_session (put_errors s' st) = s'" "rs_errCh (put_errors s' st) = rs_errCh st"
  "rs_receiver (put_errors s' st) = rs_receiver st" "rs_sent (put_errors s' st) = rs_sent st" "rs_result (put_errors s' st) = rs_result st"
  by (simp_all add: put_errors_def)

lemma put_errors_inv:
  assumes "rpc_inv st" and h: "HandleMessage defs lookup ord sel m (rs_session st) = Returned s' e"
    and "length (rs_sendCh (put_errors s' st)) \<le> sendCap"
  shows "rpc_inv (put_errors s' st)"
proof -
  obtain es where es: "se_sendChan s' = se_sendChan (rs_session st) @ es"
    using HandleMessage_reports [OF h] by blast
  have "rs_sendCh (put_errors s' st) = rs_sendCh st @ error_messages es"
    by (simp add: put_errors_def es)
  then show ?thesis
    using assms(1,3) HandleMessage_cancelled [OF h] es unfolding rpc_inv_def by (simp flip: append_assoc)
qed

lemma rpc_step_inv:
  assumes "rpc_step defs lookup k st st'" and "rpc_inv st"
  shows "rpc_inv st'"
  using assms
proof (cases rule: rpc_step.cases)
  case (handle ord sel m s')
  then show ?thesis
    using put_errors_inv assms(2) by blast
next
  case (handle_fails ord sel m s' e)
  then have "rpc_inv (put_errors s' st)"
    using put_errors_inv assms(2) by blast
  then show ?thesis
    using handle_fails unfolding rpc_inv_def by simp
next
  case (loop_sends x xs)
  then have all: "filter is_error_message (rs_sent st @ [x]) @ filter is_error_message xs = error_messages (se_sendChan (rs_session st))"
    using assms(2) unfolding rpc_inv_def by (simp split: if_splits)
  then have "prefix (filter is_error_message (rs_sent st @ [x])) (error_messages (se_sendChan (rs_session st)))"
    by (metis prefixI)
  then show ?thesis
    using loop_sends all assms(2) unfolding rpc_inv_def by simp
qed (auto simp: rpc_inv_def return_rpc_def)

lemma session_run_fewer: "session_run defs lookup sc m s \<Longrightarrow> m = n + k \<Longrightarrow> session_run defs lookup sc n s"
proof (induction arbitrary: n rule: session_run.induct)
  case (new m)
  then show ?case
    by (intro session_run.new) simp
next
  case (message m' m s ord sel s' e)
  have "session_run defs lookup sc (n + message_args m) s"
    by (rule message.IH) (simp add: message.prems)
  then show ?case
    by (rule session_run.message [OF _ message.hyps(2)])
next
  case (cancel m s)
  then show ?case
    by (blast intro: session_run.cancel)
qed

text \<open>The session inside is one that messages and \<open>Cancel\<close> lead to.\<close>

lemma rpc_step_session:
  assumes "rpc_step defs lookup k st st'" and "session_run defs lookup sc (n + k) (rs_session st)"
  shows "session_run defs lookup sc n (rs_session st')"
  using assms
proof (cases rule: rpc_step.cases)
  case (handle ord sel m s')
  then show ?thesis
    using session_run.message [of defs lookup sc n m "rs_session st"] assms(2) by auto
next
  case (handle_fails ord sel m s' e)
  then show ?thesis
    using session_run.message [of defs lookup sc n m "rs_session st"] assms(2) by auto
qed (use assms(2) in \<open>auto simp: return_rpc_def intro: session_run.cancel\<close>)

lemma rpc_run_ok: "rpc_run defs lookup sc n st \<Longrightarrow> rpc_inv st \<and> session_run defs lookup sc n (rs_session st)"
proof (induction rule: rpc_run.induct)
  case (start n)
  then show ?case
    by (simp add: rpc_inv_def rpc_NewSession_def session_run.new) (simp add: NewSession_def error_messages_def)
next
  case (step n k st st')
  then show ?case
    using rpc_step_inv rpc_step_session by blast
qed

subsection \<open>Properties\<close>

text \<open>
  C17: a session on a stream ends cleanly, whatever the client sends and however the two loops and the multiplexer
  interleave. The errors that the session reports are sent in order and none is sent twice. When \<open>Execute\<close> has returned,
  every query of the client is cancelled. When the receiver has ended, its error is not lost: \<open>Execute\<close> has returned, or
  the error waits in its channel and the main loop can return it.
\<close>

theorem rpc_session_ends_cleanly:
  assumes "rpc_run defs lookup sc n st"
  shows "prefix (filter is_error_message (rs_sent st)) (error_messages (se_sendChan (rs_session st))) \<and>
    (rs_result st \<noteq> None \<longrightarrow> (\<forall>x \<in> set (se_execs (rs_session st)). qx_cancelled x)) \<and>
    (rs_receiver st = ReceiverDone \<longrightarrow> rs_result st \<noteq> None \<or>
      (\<exists>e. rs_errCh st = [e] \<and> rpc_step defs lookup 0 st (return_rpc e (st\<lparr>rs_errCh := []\<rparr>))))"
proof -
  have inv: "rpc_inv st" and run: "session_run defs lookup sc n (rs_session st)"
    using rpc_run_ok [OF assms] by simp_all
  have "linked (rs_session st)"
    using session_run_ok [OF run] by simp
  then have "\<forall>x \<in> set (se_execs (rs_session st)). qx_cancelled x" if "rs_result st \<noteq> None"
    using inv that by (auto simp: rpc_inv_def linked_def in_set_conv_nth)
  moreover have "\<exists>e. rs_errCh st = [e] \<and> rpc_step defs lookup 0 st (return_rpc e (st\<lparr>rs_errCh := []\<rparr>))"
    if "rs_receiver st = ReceiverDone" "rs_result st = None"
    using inv that by (auto simp: rpc_inv_def length_Suc_conv intro: rpc_step.loop_error)
  ultimately show ?thesis
    using inv by (auto simp: rpc_inv_def)
qed

text \<open>A client that starts the same query twice: the session before and after \<open>Execute\<close> returns.\<close>

definition duplicate_reported :: "unit rpc_Session" where
  "duplicate_reported = \<lparr>rs_ctxDone = False, rs_session = send_error True 0 DuplicateQueryId sample_session,
     rs_sendCh = [QueryError 0 DuplicateQueryId], rs_errCh = [HandlerFailed DuplicateQueryId], rs_receiver = ReceiverDone,
     rs_sent = [], rs_result = None\<rparr>"

definition duplicate_returned :: "unit rpc_Session" where
  "duplicate_returned = return_rpc (HandlerFailed DuplicateQueryId) (duplicate_reported\<lparr>rs_errCh := []\<rparr>)"

lemma duplicate_run:
  "rpc_run sample_definitions sample_lookup sample_schema 0 duplicate_reported"
  "rpc_run sample_definitions sample_lookup sample_schema 0 duplicate_returned"
proof -
  let ?s0 = "rpc_NewSession sample_schema :: unit rpc_Session" and ?s1 = "send_error True 0 DuplicateQueryId sample_session"
  let ?m = "init_message 0" and ?step = "rpc_step sample_definitions sample_lookup"
  have first: "HandleMessage sample_definitions sample_lookup (\<lambda>_. []) True ?m (rs_session ?s0) = Returned sample_session None"
    by (simp add: rpc_NewSession_def HandleMessage_def init_message_def handleInitQuery_def sample_session_def init_session_def Let_def
        BuildQueryTree_def NewSession_def sample_schema_def)
  let ?t = "put_errors sample_session ?s0"
  have t: "?t = ?s0\<lparr>rs_session := sample_session\<rparr>"
    by (simp add: put_errors_def rpc_NewSession_def sample_session_def init_session_def NewSession_def Let_def error_messages_def)
  have second: "HandleMessage sample_definitions sample_lookup (\<lambda>_. []) True ?m (rs_session ?t) = Returned ?s1 (Some DuplicateQueryId)"
    by (simp add: HandleMessage_def init_message_def handleInitQuery_def sample_session_def init_session_def Let_def)
  have args: "message_args ?m = 0"
    by (simp add: message_args_def init_message_def)
  have reported: "(put_errors ?s1 ?t)\<lparr>rs_errCh := [HandlerFailed DuplicateQueryId], rs_receiver := ReceiverDone\<rparr> = duplicate_reported"
    unfolding t by (simp add: duplicate_reported_def put_errors_def rpc_NewSession_def sample_session_def init_session_def NewSession_def
        Let_def error_messages_def send_error_def)
  have "?step 0 ?s0 ?t"
    using rpc_step.handle [of ?s0, OF _ first] t args by (simp add: rpc_NewSession_def sendCap_def)
  then have "rpc_run sample_definitions sample_lookup sample_schema 0 ?t"
    using rpc_run.step [OF rpc_run.start, of 0 0] by simp
  moreover have "?step 0 ?t duplicate_reported"
  proof -
    have "length (rs_sendCh (put_errors ?s1 ?t)) \<le> sendCap"
      using reported [THEN arg_cong, of rs_sendCh] by (simp add: duplicate_reported_def sendCap_def)
    then show ?thesis
      using rpc_step.handle_fails [of ?t, OF _ second] reported args t by (simp add: rpc_NewSession_def)
  qed
  ultimately show 1: "rpc_run sample_definitions sample_lookup sample_schema 0 duplicate_reported"
    using rpc_run.step [of _ _ _ 0 0] by simp
  have "?step 0 duplicate_reported duplicate_returned"
    unfolding duplicate_returned_def by (rule rpc_step.loop_error) (simp_all add: duplicate_reported_def)
  then show "rpc_run sample_definitions sample_lookup sample_schema 0 duplicate_returned"
    using rpc_run.step [of _ _ _ 0 0] 1 by simp
qed

lemma rpc_session_ends_cleanly_witness:
  "rs_result duplicate_returned = Some (HandlerFailed DuplicateQueryId) \<and> qx_cancelled (se_execs (rs_session duplicate_returned) ! 0) \<and>
   rpc_step sample_definitions sample_lookup 0 duplicate_reported duplicate_returned"
proof -
  have "length (se_execs (rs_session duplicate_returned)) = 1"
    by (simp add: duplicate_returned_def return_rpc_def duplicate_reported_def Cancel_def sample_session_def init_session_def
        NewSession_def Let_def)
  then have "se_execs (rs_session duplicate_returned) ! 0 \<in> set (se_execs (rs_session duplicate_returned))"
    by simp
  moreover have "rs_result duplicate_returned = Some (HandlerFailed DuplicateQueryId)"
    by (simp add: duplicate_returned_def return_rpc_def)
  ultimately show ?thesis
    using rpc_session_ends_cleanly [OF duplicate_run(2)] rpc_session_ends_cleanly [OF duplicate_run(1)]
    by (auto simp: duplicate_returned_def duplicate_reported_def)
qed

text \<open>Nothing is sent after \<open>Execute\<close> has returned, so an error that ended the session need not reach the client.\<close>

lemma nothing_is_sent_after_return:
  assumes "rpc_step defs lookup k st st'" and "rs_result st \<noteq> None"
  shows "rs_sent st' = rs_sent st \<and> rs_result st' = rs_result st"
  using assms by (cases rule: rpc_step.cases) auto

lemma duplicate_query_error_need_not_be_sent:
  "rpc_run sample_definitions sample_lookup sample_schema 0 duplicate_returned \<and> rs_sent duplicate_returned = [] \<and>
   rs_sendCh duplicate_returned = [QueryError 0 DuplicateQueryId] \<and> rs_result duplicate_returned \<noteq> None"
  using duplicate_run(2) by (simp add: duplicate_returned_def duplicate_reported_def return_rpc_def)

end
