(* ===== verification/Introspect.thy ===== *)
theory Introspect
  imports Schema
begin

text \<open>
  \<open>introspect/introspect.go\<close>: the resolvers behind \<open>__schema\<close> and \<open>__type\<close>, and the resolver that
  \<open>schema.FromDocument\<close> makes of a schema. A type resolver holds an interface value: a definition
  (the address of one), a type node, a nil pointer to an object definition, which is not a nil
  interface, or nothing. A method that is called on one of the last two panics: \<open>None\<close>, where the
  method can panic. A nil slice or pointer in an answer is a \<open>None\<close> of its own.

  The kind strings of nodes, and what \<open>GetValue\<close> of a value node returns when it is a
  string, come from the AST package: they are the parameters \<open>kind_of\<close> and \<open>get_value\<close>.
\<close>

subsection \<open>Resolvers\<close>

datatype interface_node = DefNode addr | TypeRefNode ast_type | NilObject | NilNode

record TypeResolver =
  tr_NameCache :: string
  tr_AST :: interface_node

record SchemaResolver =
  sr_RootQuery :: interface_node
  sr_NamedTypes :: "string \<rightharpoonup> addr"

record ObjectResolver =
  or_AST :: addr
  or_SchemaResolver :: "SchemaResolver option"

datatype FieldResolver = FieldResolver field_definition
datatype EnumValueResolver = EnumValueResolver string
datatype InputValueResolver = InputValueResolver input_value_definition
datatype DirectiveResolver = DirectiveResolver

definition type_resolver :: "interface_node \<Rightarrow> TypeResolver" where
  "type_resolver n = \<lparr>tr_NameCache = '''', tr_AST = n\<rparr>"

definition ObjectResolver_Schema :: "ObjectResolver \<Rightarrow> SchemaResolver option" where
  "ObjectResolver_Schema sr = or_SchemaResolver sr"

definition ObjectResolver_Type :: "ObjectResolver \<Rightarrow> TypeResolver" where
  "ObjectResolver_Type sr = type_resolver (DefNode (or_AST sr))"

definition QueryType :: "SchemaResolver \<Rightarrow> TypeResolver option" where
  "QueryType r = (if sr_RootQuery r = NilNode then None else Some (type_resolver (sr_RootQuery r)))"

definition Directives :: "SchemaResolver \<Rightarrow> DirectiveResolver list" where
  "Directives r = []"

text \<open>\<open>order\<close> is the order in which the range visits the names.\<close>

definition Types :: "string list \<Rightarrow> SchemaResolver \<Rightarrow> TypeResolver list" where
  "Types order r = map (type_resolver \<circ> DefNode) (List.map_filter (sr_NamedTypes r) order)"

subsection \<open>Types\<close>

definition trim_suffix :: "string \<Rightarrow> string \<Rightarrow> string" where
  "trim_suffix s suf = (if length suf \<le> length s \<and> drop (length s - length suf) s = suf
     then take (length s - length suf) s else s)"

definition node_kind :: "(type_definition + ast_type \<Rightarrow> string) \<Rightarrow> definitions \<Rightarrow> interface_node \<Rightarrow> string option" where
  "node_kind kind_of defs n =
     (case n of
        DefNode a \<Rightarrow> Some (kind_of (Inl (defs ! a)))
      | TypeRefNode t \<Rightarrow> Some (kind_of (Inr t))
      | _ \<Rightarrow> None)"

definition Kind :: "(type_definition + ast_type \<Rightarrow> string) \<Rightarrow> definitions \<Rightarrow> TypeResolver \<Rightarrow> string option" where
  "Kind kind_of defs r =
     map_option (\<lambda>k. map to_upper (trim_suffix k ''Definition'')) (node_kind kind_of defs (tr_AST r))"

text \<open>The assertion to \<open>namedType\<close> holds of definitions and fails of type nodes and of nil.\<close>

definition resolveNamedType :: "definitions \<Rightarrow> interface_node \<Rightarrow> string option option" where
  "resolveNamedType defs typ =
     (case typ of
        DefNode a \<Rightarrow> (case od_name (defs ! a) of None \<Rightarrow> Some None
                       | Some n \<Rightarrow> if n = '''' then Some None else Some (Some n))
      | NilObject \<Rightarrow> None
      | _ \<Rightarrow> Some None)"

text \<open>\<open>Name\<close>, with the resolver after it has filled its cache.\<close>

definition TypeResolver_Name :: "definitions \<Rightarrow> TypeResolver \<Rightarrow> (TypeResolver \<times> string option) option" where
  "TypeResolver_Name defs r =
     (if tr_NameCache r \<noteq> '''' then Some (r, Some (tr_NameCache r))
      else (case resolveNamedType defs (tr_AST r) of
              None \<Rightarrow> None
            | Some None \<Rightarrow> Some (r, None)
            | Some (Some n) \<Rightarrow> Some (r\<lparr>tr_NameCache := n\<rparr>, Some n)))"

definition TypeResolver_Description :: "TypeResolver \<Rightarrow> string option" where
  "TypeResolver_Description r = None"

text \<open>\<open>Fields\<close>, on a nil object a panic.\<close>

definition has_prefix :: "string \<Rightarrow> string \<Rightarrow> bool" where
  "has_prefix p s = (take (length p) s = p)"

definition Fields :: "definitions \<Rightarrow> TypeResolver \<Rightarrow> FieldResolver list option option" where
  "Fields defs r =
     (case tr_AST r of
        DefNode a \<Rightarrow>
          (if is_object (defs ! a)
           then Some (Some (map FieldResolver
                  (filter (\<lambda>f. case fd_field_name f of None \<Rightarrow> False | Some n \<Rightarrow> \<not> has_prefix ''__'' n)
                    (od_fields (defs ! a)))))
           else Some None)
      | NilObject \<Rightarrow> None
      | _ \<Rightarrow> Some None)"

definition InputFields :: "TypeResolver \<Rightarrow> InputValueResolver list" where
  "InputFields r = []"

definition Interfaces :: "TypeResolver \<Rightarrow> TypeResolver list" where
  "Interfaces r = []"

definition PossibleTypes :: "TypeResolver \<Rightarrow> TypeResolver list" where
  "PossibleTypes r = []"

definition EnumValues :: "definitions \<Rightarrow> TypeResolver \<Rightarrow> EnumValueResolver list option" where
  "EnumValues defs r =
     (case tr_AST r of
        DefNode a \<Rightarrow> (case defs ! a of EnumDefinition n vs \<Rightarrow> Some (map EnumValueResolver vs) | _ \<Rightarrow> None)
      | _ \<Rightarrow> None)"

definition lookup_node :: "(ast_type \<Rightarrow> addr option) \<Rightarrow> ast_type \<Rightarrow> interface_node" where
  "lookup_node lookup t = (case lookup t of None \<Rightarrow> NilNode | Some a \<Rightarrow> DefNode a)"

definition OfType :: "(ast_type \<Rightarrow> addr option) \<Rightarrow> TypeResolver \<Rightarrow> TypeResolver option" where
  "OfType lookup r =
     (case tr_AST r of TypeRefNode (List t) \<Rightarrow> Some (type_resolver (lookup_node lookup t)) | _ \<Rightarrow> None)"

subsection \<open>Fields, values and directives\<close>

primrec FieldResolver_Type :: "(ast_type \<Rightarrow> addr option) \<Rightarrow> FieldResolver \<Rightarrow> TypeResolver option" where
  "FieldResolver_Type lookup (FieldResolver f) =
     (case lookup (fd_type f) of None \<Rightarrow> None | Some a \<Rightarrow> Some (type_resolver (DefNode a)))"

primrec FieldResolver_IsDeprecated :: "FieldResolver \<Rightarrow> bool" where
  "FieldResolver_IsDeprecated (FieldResolver f) = False"

primrec FieldResolver_DeprecationReason :: "FieldResolver \<Rightarrow> string option" where
  "FieldResolver_DeprecationReason (FieldResolver f) = None"

primrec FieldResolver_Name :: "FieldResolver \<Rightarrow> string option" where
  "FieldResolver_Name (FieldResolver f) = fd_field_name f"

primrec FieldResolver_Description :: "FieldResolver \<Rightarrow> string option" where
  "FieldResolver_Description (FieldResolver f) = None"

primrec FieldResolver_Args :: "FieldResolver \<Rightarrow> InputValueResolver list" where
  "FieldResolver_Args (FieldResolver f) = map InputValueResolver (fd_arguments f)"

primrec EnumValueResolver_Name :: "EnumValueResolver \<Rightarrow> string" where
  "EnumValueResolver_Name (EnumValueResolver v) = v"

primrec EnumValueResolver_Description :: "EnumValueResolver \<Rightarrow> string option" where
  "EnumValueResolver_Description (EnumValueResolver v) = None"

primrec EnumValueResolver_IsDeprecated :: "EnumValueResolver \<Rightarrow> bool" where
  "EnumValueResolver_IsDeprecated (EnumValueResolver v) = False"

primrec EnumValueResolver_DeprecationReason :: "EnumValueResolver \<Rightarrow> string option" where
  "EnumValueResolver_DeprecationReason (EnumValueResolver v) = None"

fun InputValueResolver_Name :: "InputValueResolver \<Rightarrow> string" where
  "InputValueResolver_Name (InputValueResolver (InputValueDefinition n t d)) = n"

fun InputValueResolver_Description :: "InputValueResolver \<Rightarrow> string option" where
  "InputValueResolver_Description (InputValueResolver v) = None"

fun InputValueResolver_Type :: "(ast_type \<Rightarrow> addr option) \<Rightarrow> InputValueResolver \<Rightarrow> TypeResolver" where
  "InputValueResolver_Type lookup (InputValueResolver (InputValueDefinition n t d)) =
     type_resolver (lookup_node lookup t)"

fun DefaultValue :: "(ast_value \<Rightarrow> string option) \<Rightarrow> InputValueResolver \<Rightarrow> string" where
  "DefaultValue get_value (InputValueResolver (InputValueDefinition n t None)) = ''''"
| "DefaultValue get_value (InputValueResolver (InputValueDefinition n t (Some v))) =
     (case get_value v of None \<Rightarrow> '''' | Some s \<Rightarrow> s)"

definition DirectiveResolver_Name :: "DirectiveResolver \<Rightarrow> string" where
  "DirectiveResolver_Name r = ''''"

definition DirectiveResolver_Description :: "DirectiveResolver \<Rightarrow> string" where
  "DirectiveResolver_Description r = ''''"

definition DirectiveResolver_Args :: "DirectiveResolver \<Rightarrow> InputValueResolver list option" where
  "DirectiveResolver_Args r = None"

definition Locations :: "DirectiveResolver \<Rightarrow> string list option" where
  "Locations r = None"

subsection \<open>The resolver of a schema (schema.FromDocument)\<close>

text \<open>The field \<open>RootQuery\<close> of the parts is a pointer: without a root query it is nil, and the
  interface that holds it is not.\<close>

definition schemaResolver :: "Schema \<Rightarrow> SchemaResolver" where
  "schemaResolver s =
     \<lparr>sr_RootQuery = (case ap_RootQuery (Definitions s) of None \<Rightarrow> NilObject | Some a \<Rightarrow> DefNode a),
      sr_NamedTypes = ap_Types (Definitions s)\<rparr>"

subsection \<open>What introspection can reach\<close>

inductive introspected :: "definitions \<Rightarrow> Schema \<Rightarrow> TypeResolver \<Rightarrow> bool" for defs s where
  query: "QueryType (schemaResolver s) = Some r \<Longrightarrow> introspected defs s r"
| types: "r \<in> set (Types order (schemaResolver s)) \<Longrightarrow> introspected defs s r"
| field: "introspected defs s r \<Longrightarrow> Fields defs r = Some (Some fs) \<Longrightarrow> f \<in> set fs \<Longrightarrow>
    FieldResolver_Type (LookupType (Definitions s)) f = Some r' \<Longrightarrow> introspected defs s r'"
| arg: "introspected defs s r \<Longrightarrow> Fields defs r = Some (Some fs) \<Longrightarrow> f \<in> set fs \<Longrightarrow>
    v \<in> set (FieldResolver_Args f) \<Longrightarrow> introspected defs s (InputValueResolver_Type (LookupType (Definitions s)) v)"
| named: "introspected defs s r \<Longrightarrow> TypeResolver_Name defs r = Some (r', n) \<Longrightarrow> introspected defs s r'"
| wrapped: "introspected defs s r \<Longrightarrow> OfType (LookupType (Definitions s)) r = Some r' \<Longrightarrow> introspected defs s r'"

text \<open>What the names of a schema stand for, and that the types in it come from the parser: they are
  names in wrappers, and the types of arguments are in the schema.\<close>

definition known_definition :: "type_definition \<Rightarrow> bool" where
  "known_definition d \<longleftrightarrow> classified d \<or> (\<exists>n. d = ScalarDefinition n)"

primrec iv_type :: "input_value_definition \<Rightarrow> ast_type" where
  "iv_type (InputValueDefinition n t d) = t"

definition parsed_type :: "ast_type \<Rightarrow> bool" where
  "parsed_type t \<longleftrightarrow> (\<exists>n. UnwrapASTType t = Named n)"

definition introspectable :: "definitions \<Rightarrow> Schema \<Rightarrow> bool" where
  "introspectable defs s \<longleftrightarrow>
     (\<exists>a < length defs. ap_RootQuery (Definitions s) = Some a \<and> is_object (defs ! a)) \<and>
     (\<forall>n a. ap_Types (Definitions s) n = Some a \<longrightarrow> a < length defs \<and> known_definition (defs ! a)) \<and>
     (\<forall>d < length defs. \<forall>f. f \<in> set (od_fields (defs ! d)) \<longrightarrow> parsed_type (fd_type f) \<and>
        (\<forall>v. v \<in> set (fd_arguments f) \<longrightarrow> parsed_type (iv_type v) \<and> LookupType (Definitions s) (iv_type v) \<noteq> None))"

definition documented_kinds :: "(type_definition + ast_type \<Rightarrow> string) \<Rightarrow> bool" where
  "documented_kinds kind_of \<longleftrightarrow>
     (\<forall>n fs. kind_of (Inl (ObjectDefinition n fs)) = ''ObjectDefinition'') \<and>
     (\<forall>n vs. kind_of (Inl (EnumDefinition n vs)) = ''EnumDefinition'') \<and>
     (\<forall>n. kind_of (Inl (UnionDefinition n)) = ''UnionDefinition'') \<and>
     (\<forall>n. kind_of (Inl (ScalarDefinition n)) = ''ScalarDefinition'') \<and>
     (\<forall>k n. kind_of (Inl (OtherDefinition k n)) = k)"

definition shown_kinds :: "string list" where
  "shown_kinds = [''OBJECT'', ''ENUM'', ''UNION'', ''SCALAR'']"

lemma lookup_parsed:
  assumes "introspectable defs s" and "parsed_type t" and "LookupType (Definitions s) t = Some a"
  shows "a < length defs \<and> known_definition (defs ! a)"
proof -
  obtain n where "UnwrapASTType t = Named n"
    using assms(2) by (auto simp: parsed_type_def)
  then have "LookupType (Definitions s) (Named n) = Some a"
    using parts.lookup_unwrap [of "Definitions s" t] assms(3) by simp
  then show ?thesis
    using assms(1) by (cases n) (auto simp: introspectable_def split: if_splits)
qed

lemma Fields_field:
  assumes "Fields defs r = Some (Some fs)" and "FieldResolver f \<in> set fs"
  shows "\<exists>a. tr_AST r = DefNode a \<and> f \<in> set (od_fields (defs ! a))"
  using assms by (auto simp: Fields_def split: interface_node.splits if_splits)

lemma introspected_known:
  assumes i: "introspectable defs s" and "introspected defs s r"
  shows "\<exists>a < length defs. tr_AST r = DefNode a \<and> known_definition (defs ! a)"
  using assms(2)
proof (induction rule: introspected.induct)
  case (query r)
  then show ?case
    using i by (auto simp: introspectable_def QueryType_def schemaResolver_def type_resolver_def known_definition_def
        classified_def dest!: is_objectD split: if_splits)
next
  case (types r order)
  then show ?case
    using i by (auto simp: introspectable_def Types_def schemaResolver_def type_resolver_def map_filter_def)
next
  case (field r fs f r')
  obtain fd where f: "f = FieldResolver fd"
    by (cases f)
  obtain a where "a < length defs" "fd \<in> set (od_fields (defs ! a))"
    using Fields_field [OF field.hyps(2)] field.hyps(3) field.IH unfolding f by fastforce
  then have "parsed_type (fd_type fd)"
    using i by (auto simp: introspectable_def)
  then show ?case
    using lookup_parsed [OF i] field.hyps(4) unfolding f by (auto simp: type_resolver_def split: option.splits)
next
  case (arg r fs f v)
  obtain fd where f: "f = FieldResolver fd"
    by (cases f)
  obtain n t d where v: "v = InputValueResolver (InputValueDefinition n t d)"
    by (metis InputValueResolver.exhaust input_value_definition.exhaust)
  obtain a where a: "a < length defs" "fd \<in> set (od_fields (defs ! a))"
    using Fields_field [OF arg.hyps(2)] arg.hyps(3) arg.IH unfolding f by fastforce
  have "InputValueDefinition n t d \<in> set (fd_arguments fd)"
    using arg.hyps(4) unfolding f v by auto
  then have "parsed_type t \<and> LookupType (Definitions s) t \<noteq> None"
    using i a unfolding introspectable_def by (metis iv_type.simps)
  then show ?case
    using lookup_parsed [OF i] by (auto simp: v type_resolver_def lookup_node_def)
next
  case (named r r' n)
  then show ?case
    by (auto simp: TypeResolver_Name_def split: if_splits option.splits)
next
  case (wrapped r r')
  then show ?case
    by (auto simp: OfType_def)
qed

lemma kind_names:
  "map to_upper (trim_suffix ''ObjectDefinition'' ''Definition'') = ''OBJECT''"
  "map to_upper (trim_suffix ''EnumDefinition'' ''Definition'') = ''ENUM''"
  "map to_upper (trim_suffix ''UnionDefinition'' ''Definition'') = ''UNION''"
  "map to_upper (trim_suffix ''ScalarDefinition'' ''Definition'') = ''SCALAR''"
  by code_simp+

subsection \<open>Properties\<close>


text \<open>Without a root query the resolver of the query type is there, and panics.\<close>

lemma missing_root_query:
  assumes "ap_RootQuery (Definitions s) = None"
  shows "QueryType (schemaResolver s) = Some (type_resolver NilObject)" and "Kind kind_of defs (type_resolver NilObject) = None"
    and "TypeResolver_Name defs (type_resolver NilObject) = None"
  using assms by (simp_all add: QueryType_def schemaResolver_def Kind_def node_kind_def type_resolver_def
      TypeResolver_Name_def resolveNamedType_def)

definition tiny_definitions :: definitions where
  "tiny_definitions = [ObjectDefinition (Some ''Query'') [FieldDefinition (Some ''next'') [] (List (Named (Some ''Query'')))]]"

definition tiny_schema :: Schema where
  "tiny_schema = \<lparr>Document = [], Definitions = new_parts\<lparr>ap_Types := [''Query'' \<mapsto> 0], ap_RootQuery := Some 0\<rparr>\<rparr>"

definition definition_kind :: "type_definition + ast_type \<Rightarrow> string" where
  "definition_kind n = (case n of Inr t \<Rightarrow> ''Named'' | Inl d \<Rightarrow> case d of ObjectDefinition n fs \<Rightarrow> ''ObjectDefinition'' | EnumDefinition n vs \<Rightarrow> ''EnumDefinition''
     | UnionDefinition n \<Rightarrow> ''UnionDefinition'' | ScalarDefinition n \<Rightarrow> ''ScalarDefinition'' | OtherDefinition k n \<Rightarrow> k)"


end
