(* ===== verification/Arguments.thy ===== *)
theory Arguments
  imports QueryTree
begin

text \<open>
  When two fields of the client's queries are one node of its tree: \<open>matchesField\<close> and \<open>argsMap.Equals\<close> of
  \<open>client/query-tree-node.go\<close> and \<open>client/query-tree-args.go\<close>, against the relation that they stand for. The code
  compares the numbers of the arguments and looks the arguments of the one map up in the other.
\<close>

text \<open>The values of arguments: one kind and, as Go compares them, one value.\<close>

definition same_value :: "RGQLPrimitive option \<Rightarrow> RGQLPrimitive option \<Rightarrow> bool" where
  "same_value a b =
     (case (a, b) of
        (None, None) \<Rightarrow> True
      | (Some x, Some y) \<Rightarrow> Kind x = Kind y \<and> any_eq (UnpackPrimitive x) (UnpackPrimitive y)
      | _ \<Rightarrow> False)"

definition arg_map :: "argsMap \<Rightarrow> string \<Rightarrow> addr option" where
  "arg_map m = (case m of None \<Rightarrow> Map.empty | Some al \<Rightarrow> map_of al)"

definition same_args :: "VariableStore \<Rightarrow> argsMap \<Rightarrow> argsMap \<Rightarrow> bool" where
  "same_args vs m n \<longleftrightarrow> (m = None \<longleftrightarrow> n = None) \<and> dom (arg_map m) = dom (arg_map n) \<and>
     (\<forall>k r s. arg_map m k = Some r \<longrightarrow> arg_map n k = Some s \<longrightarrow> same_value (GetValue vs r) (GetValue vs s))"

text \<open>A value that is not a NaN, which is the one value that is not equal to itself.\<close>

definition no_nan :: "RGQLPrimitive option \<Rightarrow> bool" where
  "no_nan a \<longleftrightarrow> (\<forall>x. a = Some x \<longrightarrow> Kind x = PRIMITIVE_KIND_FLOAT \<longrightarrow> \<not> f64_is_nan (FloatValue x))"

definition args_ok :: "VariableStore \<Rightarrow> argsMap \<Rightarrow> bool" where
  "args_ok vs m \<longleftrightarrow> (\<forall>al. m = Some al \<longrightarrow> distinct (map fst al) \<and> (\<forall>x \<in> set al. no_nan (GetValue vs (snd x))))"

lemma same_value_equiv: "(same \<Longrightarrow> a = b) \<Longrightarrow> no_nan a \<Longrightarrow> IsPrimEquiv same a b \<longleftrightarrow> same_value a b"
proof (cases same)
  case True
  assume ab: "same \<Longrightarrow> a = b" and n: "no_nan a"
  have "IsPrimEquiv False a a"
    by (rule IsPrimEquiv_refl) (use n in \<open>simp add: no_nan_def\<close>)
  moreover have "IsPrimEquiv same a b"
    using True by (simp add: IsPrimEquiv_def)
  ultimately show ?thesis
    using ab [OF True] by (cases b) (simp_all add: same_value_def IsPrimEquiv_iff_unpack)
next
  case False
  then show ?thesis
    by (cases a; cases b) (simp_all add: same_value_def IsPrimEquiv_iff_unpack)
qed

lemma same_value_sym: "same_value a b \<Longrightarrow> same_value b a"
  by (auto simp: same_value_def any_eq_sym split: option.splits)

lemma same_args_equiv:
  "same_args vs m m \<or> \<not> args_ok vs m" "same_args vs m n \<Longrightarrow> same_args vs n m"
proof -
  have "same_value a a" if "no_nan a" for a
    using same_value_equiv [of True a a] that by (simp add: IsPrimEquiv_def)
  then show "same_args vs m m \<or> \<not> args_ok vs m"
    by (cases m) (force simp: same_args_def args_ok_def arg_map_def dest: map_of_SomeD)+
  show "same_args vs m n \<Longrightarrow> same_args vs n m"
    unfolding same_args_def by (metis same_value_sym)
qed

lemma lookup_all:
  assumes "distinct (map fst al)" and "\<forall>x \<in> set al. no_nan (GetValue vs (snd x))"
  shows "list_all (\<lambda>(k, ref). case map_of bl k of
        None \<Rightarrow> False
      | Some ov \<Rightarrow> IsPrimEquiv (ref_vb (vs_refs vs ! ov) = ref_vb (vs_refs vs ! ref)) (GetValue vs ov) (GetValue vs ref)) al \<longleftrightarrow>
    dom (map_of al) \<subseteq> dom (map_of bl) \<and>
    (\<forall>k r s. map_of al k = Some r \<longrightarrow> map_of bl k = Some s \<longrightarrow> same_value (GetValue vs r) (GetValue vs s))"
    (is "list_all ?P al \<longleftrightarrow> ?Q")
proof -
  have one: "IsPrimEquiv (ref_vb (vs_refs vs ! s) = ref_vb (vs_refs vs ! r)) (GetValue vs s) (GetValue vs r) \<longleftrightarrow>
      same_value (GetValue vs r) (GetValue vs s)" if "(k, r) \<in> set al" for k r s
  proof -
    have "no_nan (GetValue vs r)"
      using assms(2) that by force
    then have "IsPrimEquiv (ref_vb (vs_refs vs ! s) = ref_vb (vs_refs vs ! r)) (GetValue vs r) (GetValue vs s) \<longleftrightarrow>
        same_value (GetValue vs r) (GetValue vs s)"
      by (intro same_value_equiv) (simp_all add: GetValue_def)
    then show ?thesis
      using IsPrimEquiv_sym by blast
  qed
  have "list_all ?P al \<longleftrightarrow> (\<forall>k r. (k, r) \<in> set al \<longrightarrow> (\<exists>s. map_of bl k = Some s \<and> same_value (GetValue vs r) (GetValue vs s)))"
    unfolding list_all_iff using one by (fastforce split: option.splits)
  also have "\<dots> \<longleftrightarrow> ?Q"
    using assms(1) by (fastforce simp: map_of_eq_Some_iff dom_def)
  finally show ?thesis .
qed

lemma args_Equals_same:
  assumes "args_ok vs m" and "args_ok vs n"
  shows "args_Equals vs m n \<longleftrightarrow> same_args vs m n"
proof (cases "m = None \<or> n = None")
  case True
  then show ?thesis
    by (auto simp: args_Equals_def same_args_def arg_map_def split: option.splits)
next
  case False
  then obtain al bl where s: "m = Some al" "n = Some bl"
    by (cases m; cases n) simp_all
  have d: "distinct (map fst al)" "\<forall>x \<in> set al. no_nan (GetValue vs (snd x))" "distinct (map fst bl)"
    using assms by (auto simp: args_ok_def s)
  have card: "length al = card (dom (map_of al))" "length bl = card (dom (map_of bl))"
    using distinct_card [OF d(1)] distinct_card [OF d(3)] by (simp_all add: dom_map_of_conv_image_fst)
  have "length al = length bl \<and> dom (map_of al) \<subseteq> dom (map_of bl) \<longleftrightarrow> dom (map_of al) = dom (map_of bl)"
    unfolding card using card_subset_eq [OF finite_dom_map_of, of "dom (map_of al)" bl] by auto
  then show ?thesis
    unfolding args_Equals_def same_args_def s arg_map_def by (simp add: lookup_all [OF d(1,2)]) blast
qed

subsection \<open>Properties\<close>

text \<open>
  C40: Two fields of the queries on the client share a node exactly when they are the same field: \<open>matchesField\<close>, which
  compares the numbers of the arguments and looks the one's arguments up in the other, holds if and only if the names are
  equal and the two have the same arguments, each of one kind and one value, whatever the order of the arguments and
  whichever handles the two have on them. Values are not NaN, and each argument has one name.
\<close>

theorem fields_match_iff_same:
  assumes "args_ok vs (cn_args q)" and "args_ok vs args"
  shows "matchesField vs q fieldName args \<longleftrightarrow> fieldName = cn_name q \<and> same_args vs (cn_args q) args"
  using args_Equals_same [OF assms] by (simp add: matchesField_def)

text \<open>Two arguments in two orders, the one with two handles on one variable.\<close>

definition sample_node :: qtNode where
  "sample_node = \<lparr>cn_id = 1, cn_name = ''person'', cn_objDef = None, cn_children = [],
     cn_args = Some [(''id'', 0), (''name'', 2)], cn_parent = None, cn_refCount = 1, cn_gcNext = False, cn_xmitted = False\<rparr>"

definition sample_handles :: VariableStore where
  "sample_handles = fst (VariableStore_Get 5 (fst (VariableStore_Get 3 sample_store)))"

lemma fields_match_iff_same_witness:
  "matchesField sample_handles sample_node ''person'' (Some [(''name'', 2), (''id'', 1)]) \<and>
     same_args sample_handles (cn_args sample_node) (Some [(''name'', 2), (''id'', 1)])"
proof -
  have "list_all (\<lambda>r. GetValue sample_handles r \<noteq> None \<and> Kind (the (GetValue sample_handles r)) = PRIMITIVE_KIND_INT) [0, 1, 2]"
    by code_simp
  then have "no_nan (GetValue sample_handles r)" if "r \<in> {0, 1, 2}" for r
    using that by (auto simp: no_nan_def)
  then have ok: "args_ok sample_handles (cn_args sample_node)" "args_ok sample_handles (Some [(''name'', 2), (''id'', 1)])"
    by (auto simp: args_ok_def sample_node_def)
  have "matchesField sample_handles sample_node ''person'' (Some [(''name'', 2), (''id'', 1)])"
    by code_simp
  then show ?thesis
    using fields_match_iff_same [OF ok] by blast
qed

end
