(* ===== verification/GoCode.thy ===== *)
theory GoCode
  imports Types
begin

text \<open>
  The two sides of the code generator: the Go types that it reads (\<open>go/types\<close>) and the Go code
  that it writes (\<open>go/ast\<close>), as far as \<open>analysis/\<close> uses them, with the tables of
  \<open>types/gqlast/primitive.go\<close> and \<open>analysis/go-ast-typeref-expr.go\<close>.

  The named types of a program are a store; a type that is not named or basic carries the
  identity of its object, which the code compares. The functions of \<open>go/types\<close> that are used on
  basic types are those of the Go specification.
\<close>

subsection \<open>Go types\<close>

datatype basic_kind =
    Kind_Invalid | Kind_Bool | Kind_Int | Kind_Int8 | Kind_Int16 | Kind_Int32 | Kind_Int64
  | Kind_Uint | Kind_Uint8 | Kind_Uint16 | Kind_Uint32 | Kind_Uint64 | Kind_Uintptr
  | Kind_Float32 | Kind_Float64 | Kind_Complex64 | Kind_Complex128 | Kind_String | Kind_UnsafePointer
  | Kind_UntypedBool | Kind_UntypedInt | Kind_UntypedRune | Kind_UntypedFloat | Kind_UntypedComplex
  | Kind_UntypedString | Kind_UntypedNil

datatype chan_dir = SendRecv | SendOnly | RecvOnly

datatype go_type =
    BasicT basic_kind string
  | NamedT addr
  | PointerT nat go_type
  | ChanT nat chan_dir go_type
  | SliceT nat go_type
  | StructT nat "(string \<times> go_type) list"
  | OtherT nat

record go_func =
  gf_name :: string
  gf_params :: "go_type list"
  gf_results :: "go_type list"

text \<open>A package is its path and its name; predeclared types have none.\<close>

record go_named =
  gn_name :: string
  gn_pkg :: "(string \<times> string) option"
  gn_underlying :: go_type
  gn_methods :: "go_func list"

type_synonym go_types = "go_named list"

definition Underlying :: "go_types \<Rightarrow> go_type \<Rightarrow> go_type" where
  "Underlying gts t = (case t of NamedT a \<Rightarrow> gn_underlying (gts ! a) | _ \<Rightarrow> t)"

definition is_integer_kind :: "basic_kind \<Rightarrow> bool" where
  "is_integer_kind k \<longleftrightarrow> k \<in> {Kind_Int, Kind_Int8, Kind_Int16, Kind_Int32, Kind_Int64, Kind_Uint, Kind_Uint8,
     Kind_Uint16, Kind_Uint32, Kind_Uint64, Kind_Uintptr}"

definition is_float_kind :: "basic_kind \<Rightarrow> bool" where
  "is_float_kind k \<longleftrightarrow> k \<in> {Kind_Float32, Kind_Float64}"

text \<open>\<open>AssignableTo\<close> and \<open>ConvertibleTo\<close>, between the types of variables that are basic.\<close>

definition basic_assignable :: "basic_kind \<Rightarrow> basic_kind \<Rightarrow> bool" where
  "basic_assignable k k' \<longleftrightarrow> k = k'"

definition basic_convertible :: "basic_kind \<Rightarrow> basic_kind \<Rightarrow> bool" where
  "basic_convertible k k' \<longleftrightarrow> k = k' \<or>
     (is_integer_kind k \<or> is_float_kind k) \<and> (is_integer_kind k' \<or> is_float_kind k') \<or>
     is_integer_kind k \<and> k' = Kind_String"

subsection \<open>Primitives (types/gqlast/primitive.go)\<close>

definition PrimitivesKinds :: "string \<rightharpoonup> basic_kind" where
  "PrimitivesKinds = map_of
     [(''Int'', Kind_Int32), (''String'', Kind_String), (''Float'', Kind_Float32), (''Boolean'', Kind_Bool),
      (''Object'', Kind_Invalid), (''ID'', Kind_String)]"

text \<open>The object of a predeclared type: its name and its type.\<close>

definition PrimitivesTypes :: "string \<rightharpoonup> string \<times> basic_kind" where
  "PrimitivesTypes = map_of
     [(''Int'', (''int32'', Kind_Int32)), (''String'', (''string'', Kind_String)),
      (''Float'', (''float32'', Kind_Float32)), (''Boolean'', (''bool'', Kind_Bool)),
      (''ID'', (''string'', Kind_String))]"

fun GoBasicKindStrings :: "basic_kind \<Rightarrow> string" where
  "GoBasicKindStrings Kind_Invalid = ''invalid''"
| "GoBasicKindStrings Kind_Bool = ''bool''"
| "GoBasicKindStrings Kind_Int = ''int''"
| "GoBasicKindStrings Kind_Int8 = ''int8''"
| "GoBasicKindStrings Kind_Int16 = ''int16''"
| "GoBasicKindStrings Kind_Int32 = ''int32''"
| "GoBasicKindStrings Kind_Int64 = ''int64''"
| "GoBasicKindStrings Kind_Uint = ''uint''"
| "GoBasicKindStrings Kind_Uint8 = ''uint8''"
| "GoBasicKindStrings Kind_Uint16 = ''uint16''"
| "GoBasicKindStrings Kind_Uint32 = ''uint32''"
| "GoBasicKindStrings Kind_Uint64 = ''uint64''"
| "GoBasicKindStrings Kind_Uintptr = ''uintptr''"
| "GoBasicKindStrings Kind_Float32 = ''float32''"
| "GoBasicKindStrings Kind_Float64 = ''float64''"
| "GoBasicKindStrings Kind_Complex64 = ''complex64''"
| "GoBasicKindStrings Kind_Complex128 = ''complex128''"
| "GoBasicKindStrings Kind_String = ''string''"
| "GoBasicKindStrings Kind_UnsafePointer = ''unsafe pointer''"
| "GoBasicKindStrings Kind_UntypedBool = ''untyped bool''"
| "GoBasicKindStrings Kind_UntypedInt = ''untyped int''"
| "GoBasicKindStrings Kind_UntypedRune = ''untyped rune''"
| "GoBasicKindStrings Kind_UntypedFloat = ''untyped float''"
| "GoBasicKindStrings Kind_UntypedComplex = ''untyped complex''"
| "GoBasicKindStrings Kind_UntypedString = ''untyped string''"
| "GoBasicKindStrings Kind_UntypedNil = ''untyped nil''"

subsection \<open>Go code\<close>

datatype token = DEFINE | ASSIGN | EQL | NEQ | GTR | LSS | LOR | ADDRESS | ARROW

text \<open>Parameters and results are lists of names with a type. The flag of a channel type says that
  its direction is set, to both.\<close>

datatype go_expr =
    Ident string
  | StringLit string
  | Selector go_expr string
  | Call go_expr "go_expr list"
  | StarExpr go_expr
  | Unary token go_expr
  | Binary go_expr token go_expr
  | IndexExpr go_expr go_expr
  | Paren go_expr
  | CompositeLit go_expr
  | ChanType bool go_expr
  | FuncLit "(string list \<times> go_expr) list" "(string list \<times> go_expr) list" "go_stmt list"
and go_stmt =
    AssignStmt "go_expr list" token "go_expr list"
  | ExprStmt go_expr
  | ReturnStmt "go_expr list"
  | IfStmt "go_stmt option" go_expr "go_stmt list"
  | GoStmt go_expr
  | VarDecl string go_expr
  | SendStmt go_expr go_expr
  | IncStmt go_expr
  | ForStmt "go_stmt list"
  | SelectStmt "go_stmt list"
  | CommClause go_stmt "go_stmt list"
  | SwitchStmt go_expr "go_stmt list"
  | CaseClause "go_expr list" "go_stmt list"

datatype go_decl =
    ImportDecl "string list"
  | FuncDecl string "(string list \<times> go_expr) list" "go_stmt list"

record go_file =
  file_Name :: string
  file_Decls :: "go_decl list"

subsection \<open>References to types (analysis/go-ast-typeref-expr.go)\<close>

text \<open>\<open>None\<close> is the error of a type without a name.\<close>

primrec buildGoTypeReferenceExpr :: "go_types \<Rightarrow> go_type \<Rightarrow> go_expr option" where
  "buildGoTypeReferenceExpr gts (ChanT i d t) = map_option (ChanType False) (buildGoTypeReferenceExpr gts t)"
| "buildGoTypeReferenceExpr gts (BasicT k n) = Some (Ident n)"
| "buildGoTypeReferenceExpr gts (NamedT a) =
     Some (case gn_pkg (gts ! a) of
             Some (path, pkg) \<Rightarrow> Selector (Ident pkg) (gn_name (gts ! a))
           | None \<Rightarrow> Ident (gn_name (gts ! a)))"
| "buildGoTypeReferenceExpr gts (PointerT i t) = map_option StarExpr (buildGoTypeReferenceExpr gts t)"
| "buildGoTypeReferenceExpr gts (SliceT i t) = None"
| "buildGoTypeReferenceExpr gts (StructT i fs) = None"
| "buildGoTypeReferenceExpr gts (OtherT i) = None"

end
