(* ===== verification/Analysis.thy ===== *)
theory Analysis
  imports GoCode "HOL-Library.AList" "HOL-Library.Char_ord" "HOL-Library.List_Lexorder"
begin

text \<open>
  \<open>analysis/model.go\<close>, \<open>analysis/model-build.go\<close> and the builders of \<open>analysis/resolve-*.go\<close>: the
  analysis that binds the types of a schema to the types of a Go program. A resolver is an object,
  which other resolvers point to and which is completed after it was entered in the table, so the
  builder has a heap of them.

  The table has pairs of an AST node and a Go type as keys, which are compared by identity. A type
  node is known by its place (the definition, the field, the steps down), a definition by its
  address. The orders in which maps are ranged over are parameters.

  A call ends with a result, with an error, or with a panic; it may also not end, since a Go type
  may be a pointer to itself. The depth of the recursion is bounded by fuel, and \<open>NoFuel\<close> says that
  the bound was not enough.
\<close>

subsection \<open>Resolvers\<close>

record primitiveResolver =
  pr_ptrDepth :: nat
  pr_convertTo :: "string option"
  pr_primKind :: i32

record listResolver =
  lr_isPtr :: bool
  lr_elemResolver :: "addr option"

record funcArgField =
  af_fieldName :: string
  af_isPtr :: bool
  af_convertTo :: "(string \<times> basic_kind) option"

record funcResolver =
  fr_resultResolver :: addr
  fr_fieldName :: string
  fr_contextArg :: nat
  fr_argsArg :: nat
  fr_argsType :: "go_type option"
  fr_argsIsPtr :: bool
  fr_argsFields :: "(string \<times> funcArgField) list"
  fr_outputChanArg :: nat
  fr_outputType :: "go_type option"
  fr_outputIsList :: bool
  fr_returnsError :: bool

record objectResolver =
  ob_typeName :: string
  ob_goTypeName :: addr
  ob_goGenResolverFuncName :: string
  ob_fieldResolvers :: "(string \<times> addr) list"
  ob_arrayFields :: "string list"

datatype Resolver =
    PrimR primitiveResolver
  | ListR listResolver
  | FuncR funcResolver
  | ObjectR objectResolver

definition GetName :: "Resolver \<Rightarrow> string" where
  "GetName r = (case r of ObjectR o' \<Rightarrow> ob_goGenResolverFuncName o' | _ \<Rightarrow> '''')"

datatype analysis_error =
    RootResolverTypeNil
  | RootSchemaNil
  | UnsupportedKind
  | CannotFindType ast_type
  | UnexpectedNonPrimitive go_type
  | NotAPrimitive
  | CannotConvert go_type string
  | ChanNotRecvOnly go_type
  | ChanResolverUnimplemented
  | NotAListType go_type
  | NotANamedType go_type
  | ResolverNotFound string
  | UnexpectedArgType ast_type
  | UnexpectedFieldType go_type
  | FieldTypeMismatch string
  | MissingArgField string
  | ChanNotSendOnly go_type
  | ArgumentUnrecognized go_type
  | ContextExpected
  | SingleErrorExpected
  | ResultsExpected
  | UnknownGoType
  | UnrecognizedPrimitiveKind
  | Wrapped string analysis_error

datatype 'a build_result =
    Built 'a
  | Failed analysis_error
  | Crashed
  | NoFuel

fun bind_result :: "'a build_result \<Rightarrow> ('a \<Rightarrow> 'b build_result) \<Rightarrow> 'b build_result" where
  "bind_result (Built x) f = f x"
| "bind_result (Failed e) f = Failed e"
| "bind_result Crashed f = Crashed"
| "bind_result NoFuel f = NoFuel"

subsection \<open>The builder (modelBuilder)\<close>

datatype ast_ref = DefRef addr | TypeRef "nat list" ast_type

type_synonym typeResolverPair = "ast_ref \<times> go_type"

record modelBuilder =
  mb_heap :: "Resolver list"
  mb_resolvers :: "typeResolverPair \<rightharpoonup> addr"
  mb_imports :: "string set"

definition newModelBuilder :: modelBuilder where
  "newModelBuilder = \<lparr>mb_heap = [], mb_resolvers = Map.empty, mb_imports = {}\<rparr>"

text \<open>What the builder reads: the definitions of the schema, the lookup, and the Go types.\<close>

record analysis_env =
  en_defs :: definitions
  en_lookup :: "ast_type \<Rightarrow> addr option"
  en_types :: go_types

definition node_ref :: "nat list \<Rightarrow> ast_type \<Rightarrow> ast_ref" where
  "node_ref loc t = (case t of AsDefinition a \<Rightarrow> DefRef a | _ \<Rightarrow> TypeRef loc t)"

definition alloc :: "Resolver \<Rightarrow> modelBuilder \<Rightarrow> modelBuilder \<times> addr" where
  "alloc r mb = (mb\<lparr>mb_heap := mb_heap mb @ [r]\<rparr>, length (mb_heap mb))"

definition enter_pair :: "typeResolverPair \<Rightarrow> modelBuilder \<times> addr \<Rightarrow> modelBuilder \<times> addr" where
  "enter_pair pair r = ((fst r)\<lparr>mb_resolvers := (mb_resolvers (fst r))(pair \<mapsto> snd r)\<rparr>, snd r)"

type_synonym builder = "typeResolverPair \<Rightarrow> modelBuilder \<Rightarrow> (modelBuilder \<times> addr) build_result"

subsection \<open>Primitives and channels\<close>

text \<open>\<open>BasicTypLoop\<close>: the number of pointers and the type at their end.\<close>

primrec basic_loop :: "go_types \<Rightarrow> nat \<Rightarrow> nat \<Rightarrow> go_type \<Rightarrow> (nat \<times> go_type) option" where
  "basic_loop gts 0 depth t = None"
| "basic_loop gts (Suc fuel) depth t =
     (case t of
        PointerT i e \<Rightarrow> basic_loop gts fuel (depth + 1) e
      | NamedT a \<Rightarrow> basic_loop gts fuel depth (gn_underlying (gts ! a))
      | _ \<Rightarrow> Some (depth, t))"

definition buildChanValueResolver :: "builder \<Rightarrow> chan_dir \<Rightarrow> go_type \<Rightarrow> go_type \<Rightarrow> ast_ref \<Rightarrow> modelBuilder \<Rightarrow>
    (modelBuilder \<times> addr) build_result" where
  "buildChanValueResolver rec dir elem t gnode mb =
     (if dir \<noteq> RecvOnly then Failed (ChanNotRecvOnly t)
      else bind_result (rec (gnode, elem) mb) (\<lambda>_. Failed ChanResolverUnimplemented))"

definition buildPrimitiveResolver :: "analysis_env \<Rightarrow> nat \<Rightarrow> builder \<Rightarrow> go_type \<Rightarrow> ast_ref \<Rightarrow> string \<Rightarrow> modelBuilder \<Rightarrow>
    (modelBuilder \<times> addr) build_result" where
  "buildPrimitiveResolver env fuel rec t gnode name mb =
     (case basic_loop (en_types env) fuel 0 (Underlying (en_types env) t) of
        None \<Rightarrow> NoFuel
      | Some (ptrDepth, BasicT k n) \<Rightarrow>
          (case PrimitivesTypes name of
             None \<Rightarrow> Failed NotAPrimitive
           | Some (tname, tkind) \<Rightarrow>
               (case GraphQLPrimitivesProtoKinds name of
                  None \<Rightarrow> Failed NotAPrimitive
                | Some primKind \<Rightarrow>
                    if basic_assignable k tkind
                    then Built (alloc (PrimR \<lparr>pr_ptrDepth = ptrDepth, pr_convertTo = None, pr_primKind = primKind\<rparr>) mb)
                    else if basic_convertible k tkind
                    then Built (alloc (PrimR \<lparr>pr_ptrDepth = ptrDepth, pr_convertTo = Some tname, pr_primKind = primKind\<rparr>) mb)
                    else Failed (CannotConvert (BasicT k n) tname)))
      | Some (ptrDepth, ChanT i dir elem) \<Rightarrow> buildChanValueResolver rec dir elem (ChanT i dir elem) gnode mb
      | Some (ptrDepth, u) \<Rightarrow> Failed (UnexpectedNonPrimitive u))"

text \<open>\<open>lookupType\<close> and \<open>buildFollowResolver\<close>, on a \<open>*ast.Named\<close>.\<close>

definition buildFollowResolver :: "analysis_env \<Rightarrow> nat \<Rightarrow> builder \<Rightarrow> go_type \<Rightarrow> nat list \<Rightarrow> string option \<Rightarrow> modelBuilder \<Rightarrow>
    (modelBuilder \<times> addr) build_result" where
  "buildFollowResolver env fuel rec t loc n mb =
     (case n of
        None \<Rightarrow> (case en_lookup env (Named None) of None \<Rightarrow> Crashed | Some d \<Rightarrow> rec (DefRef d, t) mb)
      | Some name \<Rightarrow>
          if IsAstPrimitive (Named (Some name))
          then buildPrimitiveResolver env fuel rec t (TypeRef loc (Named n)) name mb
          else (case en_lookup env (Named (Some name)) of
                  None \<Rightarrow> Failed (CannotFindType (Named (Some name)))
                | Some d \<Rightarrow> rec (DefRef d, t) mb))"

subsection \<open>Lists\<close>

definition list_elem :: "go_types \<Rightarrow> go_type \<Rightarrow> bool \<times> go_type" where
  "list_elem gts t =
     (case Underlying gts t of
        PointerT i e \<Rightarrow> (True, Underlying gts e)
      | u \<Rightarrow> (False, u))"

definition strip_pointer :: "go_type \<Rightarrow> go_type" where
  "strip_pointer t = (case t of PointerT i e \<Rightarrow> e | _ \<Rightarrow> t)"

text \<open>The list resolver is in the table before its element is built.\<close>

definition buildListResolver :: "analysis_env \<Rightarrow> builder \<Rightarrow> typeResolverPair \<Rightarrow> nat list \<Rightarrow> ast_type \<Rightarrow> modelBuilder \<Rightarrow>
    (modelBuilder \<times> addr) build_result" where
  "buildListResolver env rec pair loc elemType mb =
     (case list_elem (en_types env) (snd pair) of
        (isPtr, ChanT i dir e) \<Rightarrow>
          if dir \<noteq> RecvOnly then Failed (NotAListType (snd pair)) else Failed ChanResolverUnimplemented
      | (isPtr, SliceT i e) \<Rightarrow>
          (case enter_pair pair (alloc (ListR \<lparr>lr_isPtr = isPtr, lr_elemResolver = None\<rparr>) mb) of
             (mb1, a) \<Rightarrow>
               bind_result (rec (node_ref (loc @ [0]) elemType, strip_pointer e) mb1)
                 (\<lambda>(mb2, elem). Built (mb2\<lparr>mb_heap := (mb_heap mb2)[a := ListR \<lparr>lr_isPtr = isPtr, lr_elemResolver = Some elem\<rparr>]\<rparr>, a)))
      | _ \<Rightarrow> Failed (NotAListType (snd pair)))"

subsection \<open>Functions\<close>

definition isErrorType :: "go_types \<Rightarrow> go_type \<Rightarrow> bool" where
  "isErrorType gts t =
     (case t of NamedT a \<Rightarrow> gn_pkg (gts ! a) = None \<and> gn_name (gts ! a) = ''error'' | _ \<Rightarrow> False)"

text \<open>A field of the argument struct for an argument: whether the type of the field fits.\<close>

definition check_field :: "go_types \<Rightarrow> string \<Rightarrow> go_type \<Rightarrow> (string \<times> basic_kind) option build_result" where
  "check_field gts argType fieldType =
     (case Underlying gts fieldType of
        BasicT k n \<Rightarrow>
          (let primKind = (case PrimitivesKinds argType of None \<Rightarrow> Kind_Invalid | Some k \<Rightarrow> k)
           in if k = primKind then Built None
              else (case PrimitivesTypes argType of
                      None \<Rightarrow> Crashed
                    | Some (tname, tkind) \<Rightarrow>
                        if basic_convertible k tkind then Built (Some (tname, tkind)) else Failed (FieldTypeMismatch argType)))
      | _ \<Rightarrow> Failed (UnexpectedFieldType fieldType))"

text \<open>The range over the fields of the struct: whether the field was found, and its conversion.\<close>

fun find_arg_field :: "go_types \<Rightarrow> string \<Rightarrow> string \<Rightarrow> (string \<times> go_type) list \<Rightarrow> bool \<times> (string \<times> basic_kind) option \<Rightarrow>
    (bool \<times> (string \<times> basic_kind) option) build_result" where
  "find_arg_field gts exported argType [] acc = Built acc"
| "find_arg_field gts exported argType ((name, t) # flds) acc =
     (if name \<noteq> exported then find_arg_field gts exported argType flds acc
      else bind_result (check_field gts argType t)
        (\<lambda>conv. find_arg_field gts exported argType flds (True, if conv = None then snd acc else conv)))"

fun args_fields :: "go_types \<Rightarrow> bool \<Rightarrow> (string \<times> go_type) list \<Rightarrow> input_value_definition list \<Rightarrow>
    (string \<times> funcArgField) list \<Rightarrow> (string \<times> funcArgField) list build_result" where
  "args_fields gts isPtr flds [] acc = Built acc"
| "args_fields gts isPtr flds (InputValueDefinition name t d # args) acc =
     (let exported = ToPascalCase name
      in case t of
           Named None \<Rightarrow> (if exported \<in> fst ` set flds then Crashed else Failed (MissingArgField exported))
         | Named (Some argType) \<Rightarrow>
             bind_result (find_arg_field gts exported argType flds (False, None))
               (\<lambda>(found, conv).
                  if found
                  then args_fields gts isPtr flds args
                    (AList.update name \<lparr>af_fieldName = exported, af_isPtr = isPtr, af_convertTo = conv\<rparr> acc)
                  else Failed (MissingArgField exported))
         | _ \<Rightarrow> Failed (UnexpectedArgType t))"

text \<open>The struct that a parameter is, or points to.\<close>

definition arg_struct :: "go_types \<Rightarrow> go_type \<Rightarrow> bool \<times> (string \<times> go_type) list option" where
  "arg_struct gts t =
     (case t of
        PointerT i e \<Rightarrow> (True, case Underlying gts e of StructT j fs \<Rightarrow> Some fs | _ \<Rightarrow> None)
      | _ \<Rightarrow> (False, case Underlying gts t of StructT j fs \<Rightarrow> Some fs | _ \<Rightarrow> None))"

text \<open>Whether a parameter is the context: \<open>None\<close> is the panic at a named type without a package.\<close>

definition is_context :: "go_types \<Rightarrow> go_type \<Rightarrow> bool option" where
  "is_context gts t =
     (case t of
        NamedT a \<Rightarrow> (case gn_pkg (gts ! a) of
                       None \<Rightarrow> None
                     | Some (path, pkg) \<Rightarrow> Some (path = ''context'' \<and> gn_name (gts ! a) = ''Context''))
      | _ \<Rightarrow> Some False)"

text \<open>The \<open>i\<close>-th parameter of the function.\<close>

definition func_param :: "go_types \<Rightarrow> input_value_definition list \<Rightarrow> go_type \<Rightarrow> nat \<Rightarrow> funcResolver \<Rightarrow> funcResolver build_result" where
  "func_param gts args t i res =
     (case (if fr_contextArg res = 0 then is_context gts t else Some False) of
        None \<Rightarrow> Crashed
      | Some isContext \<Rightarrow>
          if isContext then Built (res\<lparr>fr_contextArg := i + 1\<rparr>)
          else (case (if fr_argsArg res = 0 then arg_struct gts t else (False, None)) of
                  (isPtr, Some flds) \<Rightarrow>
                    bind_result (args_fields gts isPtr flds args [])
                      (\<lambda>fs. Built (res\<lparr>fr_argsFields := fs, fr_argsArg := i + 1, fr_argsType := Some t, fr_argsIsPtr := isPtr\<rparr>))
                | (isPtr, None) \<Rightarrow>
                    (case t of
                       ChanT j dir e \<Rightarrow>
                         if fr_outputChanArg res \<noteq> 0 then Failed (ArgumentUnrecognized t)
                         else if dir \<noteq> SendOnly then Failed (ChanNotSendOnly t)
                         else Built (res\<lparr>fr_outputType := Some e, fr_outputChanArg := i + 1\<rparr>)
                     | _ \<Rightarrow> Failed (ArgumentUnrecognized t))))"

fun func_params :: "go_types \<Rightarrow> input_value_definition list \<Rightarrow> go_type list \<Rightarrow> nat \<Rightarrow> funcResolver \<Rightarrow> funcResolver build_result" where
  "func_params gts args [] i res = Built res"
| "func_params gts args (t # ts) i res = bind_result (func_param gts args t i res) (func_params gts args ts (i + 1))"

text \<open>The results of the function.\<close>

definition func_results :: "go_types \<Rightarrow> go_type list \<Rightarrow> funcResolver \<Rightarrow> funcResolver build_result" where
  "func_results gts results res =
     (if 0 < fr_outputChanArg res then
        (if fr_contextArg res = 0 then Failed ContextExpected
         else if results \<noteq> [] \<and> (length results \<noteq> 1 \<or> \<not> isErrorType gts (hd results)) then Failed SingleErrorExpected
         else Built (res\<lparr>fr_returnsError := results \<noteq> []\<rparr>))
      else (case results of
              [r] \<Rightarrow> if isErrorType gts r then Failed ResultsExpected else Built (res\<lparr>fr_outputType := Some r\<rparr>)
            | [r, e] \<Rightarrow>
                if \<not> isErrorType gts e \<or> isErrorType gts r then Failed ResultsExpected
                else Built (res\<lparr>fr_returnsError := True, fr_outputType := Some r\<rparr>)
            | _ \<Rightarrow> Failed ResultsExpected))"

definition new_func :: "string \<Rightarrow> funcResolver" where
  "new_func name = \<lparr>fr_resultResolver = 0, fr_fieldName = name, fr_contextArg = 0, fr_argsArg = 0, fr_argsType = None,
     fr_argsIsPtr = False, fr_argsFields = [], fr_outputChanArg = 0, fr_outputType = None, fr_outputIsList = False,
     fr_returnsError = False\<rparr>"

text \<open>The node of the result: the element of a list that comes through a channel, else the type of the field.\<close>

definition result_ref :: "nat list \<Rightarrow> ast_type \<Rightarrow> bool \<Rightarrow> ast_ref" where
  "result_ref loc t chan =
     (case t of
        List u \<Rightarrow> if chan then node_ref (loc @ [0]) u else node_ref loc t
      | _ \<Rightarrow> node_ref loc t)"

definition is_list :: "ast_type \<Rightarrow> bool" where
  "is_list t = (case t of List u \<Rightarrow> True | _ \<Rightarrow> False)"

definition buildFuncResolver :: "analysis_env \<Rightarrow> builder \<Rightarrow> nat list \<Rightarrow> go_func \<Rightarrow> field_definition \<Rightarrow> modelBuilder \<Rightarrow>
    (modelBuilder \<times> addr) build_result" where
  "buildFuncResolver env rec loc f fieldt mb =
     bind_result (func_params (en_types env) (fd_arguments fieldt) (gf_params f) 0 (new_func (gf_name f)))
       (\<lambda>res. bind_result (func_results (en_types env) (gf_results f) res)
          (\<lambda>res. case fr_outputType res of
               None \<Rightarrow> Crashed
             | Some outputType \<Rightarrow>
                 let res = res\<lparr>fr_outputIsList := is_list (fd_type fieldt)\<rparr>
                 in (case rec (result_ref loc (fd_type fieldt) (fr_outputChanArg res \<noteq> 0), strip_pointer outputType) mb of
                       Failed e \<Rightarrow> Failed (Wrapped ''build result resolver'' e)
                     | Built (mb', r) \<Rightarrow> Built (alloc (FuncR (res\<lparr>fr_resultResolver := r\<rparr>)) mb')
                     | e \<Rightarrow> e)))"

text \<open>\<open>findResolverFunc\<close>: the first method with one of the two names.\<close>

definition findResolverFunc :: "go_types \<Rightarrow> go_type \<Rightarrow> string \<Rightarrow> go_func build_result" where
  "findResolverFunc gts t fieldName =
     (case t of
        NamedT a \<Rightarrow>
          (case find (\<lambda>m. gf_name m = ToPascalCase fieldName \<or> gf_name m = ''Get'' @ ToPascalCase fieldName) (gn_methods (gts ! a)) of
             None \<Rightarrow> Failed (ResolverNotFound fieldName)
           | Some m \<Rightarrow> Built m)
      | _ \<Rightarrow> Failed (NotANamedType t))"

subsection \<open>Objects\<close>

definition set_object :: "addr \<Rightarrow> (objectResolver \<Rightarrow> objectResolver) \<Rightarrow> modelBuilder \<Rightarrow> modelBuilder" where
  "set_object a f mb =
     mb\<lparr>mb_heap := (mb_heap mb)[a := (case mb_heap mb ! a of ObjectR o' \<Rightarrow> ObjectR (f o') | r \<Rightarrow> r)]\<rparr>"

definition skipped_field :: "field_definition \<Rightarrow> bool" where
  "skipped_field f = (case fd_field_name f of None \<Rightarrow> True | Some n \<Rightarrow> n = '''' \<or> n = ''__schema'')"

text \<open>The fields of the object at \<open>a\<close>, from the \<open>i\<close>-th field of the definition \<open>d\<close> on.\<close>

fun object_fields :: "analysis_env \<Rightarrow> builder \<Rightarrow> go_type \<Rightarrow> addr \<Rightarrow> addr \<Rightarrow> nat \<Rightarrow> field_definition list \<Rightarrow> modelBuilder \<Rightarrow>
    modelBuilder build_result" where
  "object_fields env rec t d a i [] mb = Built mb"
| "object_fields env rec t d a i (field # flds) mb =
     (if skipped_field field then object_fields env rec t d a (i + 1) flds mb
      else let name = the (fd_field_name field)
        in bind_result (findResolverFunc (en_types env) t name)
          (\<lambda>f. bind_result (buildFuncResolver env rec [d, i] f field mb)
             (\<lambda>(mb1, r).
                let arr = (case fd_type field of NonNull u \<Rightarrow> is_list u | u \<Rightarrow> is_list u)
                in object_fields env rec t d a (i + 1) flds
                     (set_object a (\<lambda>o'. o'\<lparr>ob_fieldResolvers := AList.update name r (ob_fieldResolvers o'),
                        ob_arrayFields := (if arr then List.insert name (ob_arrayFields o') else ob_arrayFields o')\<rparr>) mb1))))"

definition object_named :: "go_type \<Rightarrow> addr option" where
  "object_named t = (case t of NamedT a \<Rightarrow> Some a | PointerT i (NamedT a) \<Rightarrow> Some a | _ \<Rightarrow> None)"

definition buildObjectResolver :: "analysis_env \<Rightarrow> builder \<Rightarrow> typeResolverPair \<Rightarrow> addr \<Rightarrow> string option \<Rightarrow> field_definition list \<Rightarrow>
    modelBuilder \<Rightarrow> (modelBuilder \<times> addr) build_result" where
  "buildObjectResolver env rec pair d n flds mb =
     (case object_named (snd pair) of
        None \<Rightarrow> Failed (NotANamedType (snd pair))
      | Some g \<Rightarrow>
          (case (n, gn_pkg (en_types env ! g)) of
             (Some name, Some (path, pkg)) \<Rightarrow>
               (case enter_pair pair (alloc (ObjectR \<lparr>ob_typeName = name, ob_goTypeName = g,
                        ob_goGenResolverFuncName = ''Resolve'' @ name, ob_fieldResolvers = [], ob_arrayFields = []\<rparr>) mb) of
                  (mb1, a) \<Rightarrow>
                    bind_result (object_fields env rec (snd pair) d a 0 flds (mb1\<lparr>mb_imports := insert path (mb_imports mb1)\<rparr>))
                      (\<lambda>mb2. Built (mb2, a)))
           | _ \<Rightarrow> Crashed))"

subsection \<open>buildResolver\<close>

primrec buildResolver :: "analysis_env \<Rightarrow> nat \<Rightarrow> builder" where
  "buildResolver env 0 pair mb = NoFuel"
| "buildResolver env (Suc fuel) pair mb =
     (case mb_resolvers mb pair of
        Some r \<Rightarrow> Built (mb, r)
      | None \<Rightarrow>
          (case fst pair of
             DefRef d \<Rightarrow>
               (case en_defs env ! d of
                  ObjectDefinition n flds \<Rightarrow>
                    bind_result (buildObjectResolver env (buildResolver env fuel) pair d n flds mb) (Built \<circ> enter_pair pair)
                | _ \<Rightarrow> Failed UnsupportedKind)
           | TypeRef loc t \<Rightarrow>
               (case t of
                  Named n \<Rightarrow> buildFollowResolver env fuel (buildResolver env fuel) (snd pair) loc n mb
                | NonNull u \<Rightarrow>
                    bind_result (buildResolver env fuel (node_ref (loc @ [0]) u, snd pair) mb) (Built \<circ> enter_pair pair)
                | List u \<Rightarrow>
                    bind_result (buildListResolver env (buildResolver env fuel) pair loc u mb) (Built \<circ> enter_pair pair)
                | _ \<Rightarrow> Failed UnsupportedKind)))"

subsection \<open>BuildModel\<close>

record Model =
  md_heap :: "Resolver list"
  md_rootResolver :: addr
  md_allResolvers :: "addr list"
  md_rootSchema :: addr
  md_imports :: "string list"

text \<open>\<open>rorder\<close> and \<open>iorder\<close> are the orders of the ranges over the table and the imports. Resolvers
  with one name may come in any order among themselves, which \<open>rorder\<close> gives too.\<close>

definition BuildModel :: "analysis_env \<Rightarrow> nat \<Rightarrow> (modelBuilder \<Rightarrow> typeResolverPair list) \<Rightarrow> (string set \<Rightarrow> string list) \<Rightarrow>
    addr option \<Rightarrow> go_type option \<Rightarrow> Model build_result" where
  "BuildModel env fuel rorder iorder rootSchema rootResolverType =
     (case (rootResolverType, rootSchema) of
        (None, _) \<Rightarrow> Failed RootResolverTypeNil
      | (_, None) \<Rightarrow> Failed RootSchemaNil
      | (Some t, Some d) \<Rightarrow>
          bind_result (buildResolver env fuel (DefRef d, t) newModelBuilder)
            (\<lambda>(mb, br). Built \<lparr>md_heap = mb_heap mb, md_rootResolver = br,
               md_allResolvers = sort_key (\<lambda>a. GetName (mb_heap mb ! a)) (List.map_filter (mb_resolvers mb) (rorder mb)),
               md_rootSchema = d, md_imports = iorder (mb_imports mb)\<rparr>))"

end
