(* ===== verification/Binding.thy ===== *)
theory Binding
  imports Analysis
begin

text \<open>
  What a model that \<open>BuildModel\<close> returns binds together: every object resolver has a function for
  each field of its definition, which calls a method of its Go type, and whose result is resolved as
  the type of the field says. The specification \<open>bound\<close> of a pair is stated on the heap and the
  table; the proof follows the recursion of the builders, with a set of objects and lists that are
  still open.
\<close>

subsection \<open>Specification\<close>

definition prim_bound :: "analysis_env \<Rightarrow> string \<Rightarrow> go_type \<Rightarrow> primitiveResolver \<Rightarrow> bool" where
  "prim_bound env name t r \<longleftrightarrow>
     (\<exists>fuel k n tname tkind.
        basic_loop (en_types env) fuel 0 (Underlying (en_types env) t) = Some (pr_ptrDepth r, BasicT k n) \<and>
        PrimitivesTypes name = Some (tname, tkind) \<and> GraphQLPrimitivesProtoKinds name = Some (pr_primKind r) \<and>
        (if k = tkind then pr_convertTo r = None else pr_convertTo r = Some tname \<and> basic_convertible k tkind))"

text \<open>The resolver at \<open>a\<close> resolves values of the Go type \<open>t\<close> at a type node.\<close>

primrec bound :: "analysis_env \<Rightarrow> Resolver list \<Rightarrow> (typeResolverPair \<rightharpoonup> addr) \<Rightarrow> nat list \<Rightarrow> ast_type \<Rightarrow> go_type \<Rightarrow> addr \<Rightarrow> bool" where
  "bound env heap reg loc (Named n) t a \<longleftrightarrow>
     (if IsAstPrimitive (Named n)
      then a < length heap \<and> (\<exists>r. heap ! a = PrimR r \<and> prim_bound env (the n) t r)
      else \<exists>d. en_lookup env (Named n) = Some d \<and> reg (DefRef d, t) = Some a)"
| "bound env heap reg loc (NonNull u) t a \<longleftrightarrow> bound env heap reg (loc @ [0]) u t a"
| "bound env heap reg loc (List u) t a \<longleftrightarrow> reg (TypeRef loc (List u), t) = Some a"
| "bound env heap reg loc (AsDefinition d) t a \<longleftrightarrow> reg (DefRef d, t) = Some a"
| "bound env heap reg loc OtherType t a \<longleftrightarrow> False"

definition bound_ref :: "analysis_env \<Rightarrow> Resolver list \<Rightarrow> (typeResolverPair \<rightharpoonup> addr) \<Rightarrow> ast_ref \<Rightarrow> go_type \<Rightarrow> addr \<Rightarrow> bool" where
  "bound_ref env heap reg node t a =
     (case node of DefRef d \<Rightarrow> reg (DefRef d, t) = Some a | TypeRef loc u \<Rightarrow> bound env heap reg loc u t a)"

text \<open>The function of a field: the method that it calls, what it makes of its signature, its result.\<close>

definition field_bound :: "analysis_env \<Rightarrow> Resolver list \<Rightarrow> (typeResolverPair \<rightharpoonup> addr) \<Rightarrow> nat list \<Rightarrow> field_definition \<Rightarrow>
    go_type \<Rightarrow> addr \<Rightarrow> bool" where
  "field_bound env heap reg loc fieldt t a \<longleftrightarrow> a < length heap \<and>
     (\<exists>f r r0 r1 out. findResolverFunc (en_types env) t (the (fd_field_name fieldt)) = Built f \<and>
        func_params (en_types env) (fd_arguments fieldt) (gf_params f) 0 (new_func (gf_name f)) = Built r0 \<and>
        func_results (en_types env) (gf_results f) r0 = Built r1 \<and> fr_outputType r1 = Some out \<and>
        heap ! a = FuncR r \<and>
        r = r1\<lparr>fr_outputIsList := is_list (fd_type fieldt), fr_resultResolver := fr_resultResolver r\<rparr> \<and>
        bound_ref env heap reg (result_ref loc (fd_type fieldt) (fr_outputChanArg r1 \<noteq> 0)) (strip_pointer out) (fr_resultResolver r))"

text \<open>An object whose first \<open>k\<close> fields are done.\<close>

definition fields_bound :: "analysis_env \<Rightarrow> Resolver list \<Rightarrow> (typeResolverPair \<rightharpoonup> addr) \<Rightarrow> addr \<Rightarrow> field_definition list \<Rightarrow> nat \<Rightarrow>
    go_type \<Rightarrow> objectResolver \<Rightarrow> bool" where
  "fields_bound env heap reg d fs k t r \<longleftrightarrow>
     (\<forall>i < k. \<not> skipped_field (fs ! i) \<longrightarrow> the (fd_field_name (fs ! i)) \<in> fst ` set (ob_fieldResolvers r)) \<and>
     (\<forall>x \<in> set (ob_fieldResolvers r). \<exists>i < k. \<not> skipped_field (fs ! i) \<and> fd_field_name (fs ! i) = Some (fst x) \<and>
        field_bound env heap reg [d, i] (fs ! i) t (snd x)) \<and>
     distinct (map fst (ob_fieldResolvers r))"

definition object_bound :: "analysis_env \<Rightarrow> Resolver list \<Rightarrow> (typeResolverPair \<rightharpoonup> addr) \<Rightarrow> addr \<Rightarrow> go_type \<Rightarrow> addr \<Rightarrow> bool" where
  "object_bound env heap reg d t a \<longleftrightarrow>
     (\<exists>n fs g pkg r. en_defs env ! d = ObjectDefinition (Some n) fs \<and> object_named t = Some g \<and>
        gn_pkg (en_types env ! g) = Some pkg \<and> heap ! a = ObjectR r \<and>
        ob_typeName r = n \<and> ob_goTypeName r = g \<and> ob_goGenResolverFuncName r = ''Resolve'' @ n \<and>
        fields_bound env heap reg d fs (length fs) t r)"

definition list_bound :: "analysis_env \<Rightarrow> Resolver list \<Rightarrow> (typeResolverPair \<rightharpoonup> addr) \<Rightarrow> nat list \<Rightarrow> ast_type \<Rightarrow> go_type \<Rightarrow> addr \<Rightarrow> bool" where
  "list_bound env heap reg loc u t a \<longleftrightarrow>
     (\<exists>isPtr i e b. list_elem (en_types env) t = (isPtr, SliceT i e) \<and>
        heap ! a = ListR \<lparr>lr_isPtr = isPtr, lr_elemResolver = Some b\<rparr> \<and>
        bound_ref env heap reg (node_ref (loc @ [0]) u) (strip_pointer e) b)"

subsection \<open>The invariant of the builder\<close>

text \<open>Definitions and lists are entered for good.\<close>

fun main_key :: "typeResolverPair \<Rightarrow> bool" where
  "main_key (DefRef d, t) = True"
| "main_key (TypeRef loc (List u), t) = True"
| "main_key p = False"

definition builder_inv :: "analysis_env \<Rightarrow> addr set \<Rightarrow> Resolver list \<Rightarrow> (typeResolverPair \<rightharpoonup> addr) \<Rightarrow> bool" where
  "builder_inv env opened heap reg \<longleftrightarrow>
     (\<forall>p a. reg p = Some a \<longrightarrow> a < length heap) \<and>
     (\<forall>d t a. reg (DefRef d, t) = Some a \<longrightarrow> a \<notin> opened \<longrightarrow> object_bound env heap reg d t a) \<and>
     (\<forall>loc u t a. reg (TypeRef loc (List u), t) = Some a \<longrightarrow> a \<notin> opened \<longrightarrow> list_bound env heap reg loc u t a) \<and>
     (\<forall>loc u t a. reg (TypeRef loc u, t) = Some a \<longrightarrow> bound env heap reg loc u t a) \<and>
     (\<forall>loc n t. reg (TypeRef loc (Named n), t) = None) \<and>
     (\<forall>p q a. main_key p \<longrightarrow> main_key q \<longrightarrow> reg p = Some a \<longrightarrow> reg q = Some a \<longrightarrow> p = q) \<and>
     (\<forall>a r. a < length heap \<longrightarrow> heap ! a = ObjectR r \<longrightarrow> (\<exists>d t. reg (DefRef d, t) = Some a)) \<and>
     (\<forall>a \<in> opened. a < length heap \<and> (\<forall>r. heap ! a \<noteq> PrimR r) \<and> (\<forall>r. heap ! a \<noteq> FuncR r))"

definition grows :: "Resolver list \<Rightarrow> (typeResolverPair \<rightharpoonup> addr) \<Rightarrow> Resolver list \<Rightarrow> (typeResolverPair \<rightharpoonup> addr) \<Rightarrow> bool" where
  "grows heap reg heap' reg' \<longleftrightarrow>
     (\<exists>ext. heap' = heap @ ext) \<and> (\<forall>p a. main_key p \<longrightarrow> reg p = Some a \<longrightarrow> reg' p = Some a)"

subsection \<open>What is bound stays bound\<close>

text \<open>The prims and functions of the heap stay, and so do the main keys.\<close>

definition keeps :: "Resolver list \<Rightarrow> (typeResolverPair \<rightharpoonup> addr) \<Rightarrow> Resolver list \<Rightarrow> (typeResolverPair \<rightharpoonup> addr) \<Rightarrow> bool" where
  "keeps heap reg heap' reg' \<longleftrightarrow> length heap \<le> length heap' \<and>
     (\<forall>a < length heap. (\<forall>r. heap ! a = PrimR r \<longrightarrow> heap' ! a = PrimR r) \<and> (\<forall>r. heap ! a = FuncR r \<longrightarrow> heap' ! a = FuncR r)) \<and>
     (\<forall>p a. main_key p \<longrightarrow> reg p = Some a \<longrightarrow> reg' p = Some a)"

lemma grows_keeps: "grows heap reg heap' reg' \<Longrightarrow> keeps heap reg heap' reg'"
  by (auto simp: grows_def keeps_def nth_append)

lemma table_grows_refl [simp]: "grows heap reg heap reg"
  by (simp add: grows_def)

lemma table_grows_trans: "grows h r h' r' \<Longrightarrow> grows h' r' h'' r'' \<Longrightarrow> grows h r h'' r''"
  by (auto simp: grows_def)

lemma grows_nth: "grows heap reg heap' reg' \<Longrightarrow> a < length heap \<Longrightarrow> heap' ! a = heap ! a"
  by (auto simp: grows_def nth_append)

lemma grows_length: "grows heap reg heap' reg' \<Longrightarrow> length heap \<le> length heap'"
  by (auto simp: grows_def)

lemma keeps_bound: "keeps heap reg heap' reg' \<Longrightarrow> bound env heap reg loc u t a \<Longrightarrow> bound env heap' reg' loc u t a"
  by (induction u arbitrary: loc) (auto simp: keeps_def split: if_splits)

lemma keeps_bound_ref: "keeps heap reg heap' reg' \<Longrightarrow> bound_ref env heap reg node t a \<Longrightarrow> bound_ref env heap' reg' node t a"
  by (cases node) (auto simp: bound_ref_def keeps_bound, auto simp: keeps_def)

lemma keeps_field_bound:
  assumes k: "keeps heap reg heap' reg'" and f: "field_bound env heap reg loc fieldt t a"
  shows "field_bound env heap' reg' loc fieldt t a"
proof -
  have "a < length heap'" "\<And>r. heap ! a = FuncR r \<Longrightarrow> heap' ! a = FuncR r"
    using k f by (auto simp: keeps_def field_bound_def)
  then show ?thesis
    using f keeps_bound_ref [OF k] unfolding field_bound_def by blast
qed

lemma keeps_fields_bound:
  "keeps heap reg heap' reg' \<Longrightarrow> fields_bound env heap reg d fs k t r \<Longrightarrow> fields_bound env heap' reg' d fs k t r"
  unfolding fields_bound_def using keeps_field_bound by blast

lemma keeps_object_bound:
  assumes "keeps heap reg heap' reg'" and "heap' ! a = heap ! a" and "object_bound env heap reg d t a"
  shows "object_bound env heap' reg' d t a"
  using assms(2,3) keeps_fields_bound [OF assms(1)] unfolding object_bound_def by fastforce

lemma keeps_list_bound:
  assumes "keeps heap reg heap' reg'" and "heap' ! a = heap ! a" and "list_bound env heap reg loc u t a"
  shows "list_bound env heap' reg' loc u t a"
  using assms(2,3) keeps_bound_ref [OF assms(1)] unfolding list_bound_def by fastforce

subsection \<open>Steps of the builder\<close>

lemma builder_invD:
  assumes "builder_inv env opened heap reg"
  shows "reg p = Some a \<Longrightarrow> a < length heap"
    and "reg (DefRef d, t) = Some a \<Longrightarrow> a \<notin> opened \<Longrightarrow> object_bound env heap reg d t a"
    and "reg (TypeRef loc (List u), t) = Some a \<Longrightarrow> a \<notin> opened \<Longrightarrow> list_bound env heap reg loc u t a"
    and "reg (TypeRef loc u, t) = Some a \<Longrightarrow> bound env heap reg loc u t a"
    and "reg (TypeRef loc (Named n), t) = None"
    and "main_key p \<Longrightarrow> main_key q \<Longrightarrow> reg p = Some a \<Longrightarrow> reg q = Some a \<Longrightarrow> p = q"
    and "a < length heap \<Longrightarrow> heap ! a = ObjectR r \<Longrightarrow> \<exists>d t. reg (DefRef d, t) = Some a"
    and "a \<in> opened \<Longrightarrow> a < length heap" and "a \<in> opened \<Longrightarrow> heap ! a \<noteq> PrimR pr" and "a \<in> opened \<Longrightarrow> heap ! a \<noteq> FuncR fr"
  using assms by (simp_all add: builder_inv_def del: split_paired_All split_paired_Ex)

lemma bound_less: "builder_inv env opened heap reg \<Longrightarrow> bound env heap reg loc u t a \<Longrightarrow> a < length heap"
proof (induction u arbitrary: loc)
  case (Named n)
  then show ?case
    using builder_invD(1) [OF Named.prems(1)] by (auto split: if_splits)
qed (auto dest: builder_invD(1))

lemma bound_ref_less: "builder_inv env opened heap reg \<Longrightarrow> bound_ref env heap reg node t a \<Longrightarrow> a < length heap"
  by (auto simp: bound_ref_def bound_less builder_invD(1) split: ast_ref.splits)

text \<open>The invariant on a heap that keeps what the old one has.\<close>

lemma builder_inv_keeps:
  assumes inv: "builder_inv env opened heap reg" and k: "keeps heap reg heap' reg'"
    and same: "\<And>a. a < length heap \<Longrightarrow> a \<notin> opened \<Longrightarrow> heap' ! a = heap ! a"
    and reg: "\<And>p a. reg' p = Some a \<Longrightarrow> reg p = Some a \<or> P p a"
    and new: "\<And>p a. P p a \<Longrightarrow> a < length heap' \<and> (\<forall>loc n. fst p \<noteq> TypeRef loc (Named n)) \<and>
      (\<forall>loc u. fst p = TypeRef loc u \<longrightarrow> bound env heap' reg' loc u (snd p) a) \<and> (main_key p \<longrightarrow> a \<in> opened' \<and> a \<notin> opened)"
    and inj: "\<And>p q a. main_key p \<Longrightarrow> main_key q \<Longrightarrow> reg' p = Some a \<Longrightarrow> reg' q = Some a \<Longrightarrow> p = q"
    and objs: "\<And>a r. a < length heap' \<Longrightarrow> heap' ! a = ObjectR r \<Longrightarrow> \<exists>d t. reg' (DefRef d, t) = Some a"
    and opened: "opened \<subseteq> opened'"
      "\<And>a. a \<in> opened' \<Longrightarrow> a < length heap' \<and> (\<forall>r. heap' ! a \<noteq> PrimR r) \<and> (\<forall>r. heap' ! a \<noteq> FuncR r)"
  shows "builder_inv env opened' heap' reg'"
  unfolding builder_inv_def
proof (intro conjI allI impI)
  have len: "length heap \<le> length heap'"
    using k by (simp add: keeps_def)
  have main: "reg p = Some a \<or> a \<in> opened'" if "reg' p = Some a" "main_key p" for p a
    using reg [OF that(1)] new that(2) by blast
  show "a < length heap'" if "reg' p = Some a" for p a
    using reg [OF that] new builder_invD(1) [OF inv] len by (meson order_less_le_trans)
  show "object_bound env heap' reg' d t a" if "reg' (DefRef d, t) = Some a" "a \<notin> opened'" for d t a
  proof -
    have r: "reg (DefRef d, t) = Some a"
      using main [OF that(1)] that(2) by simp
    have a: "a < length heap" "a \<notin> opened"
      using builder_invD(1) [OF inv r] opened(1) that(2) by auto
    show ?thesis
      by (rule keeps_object_bound [OF k same [OF a] builder_invD(2) [OF inv r a(2)]])
  qed
  show "list_bound env heap' reg' loc u t a" if "reg' (TypeRef loc (List u), t) = Some a" "a \<notin> opened'" for loc u t a
  proof -
    have r: "reg (TypeRef loc (List u), t) = Some a"
      using main [OF that(1)] that(2) by simp
    have a: "a < length heap" "a \<notin> opened"
      using builder_invD(1) [OF inv r] opened(1) that(2) by auto
    show ?thesis
      by (rule keeps_list_bound [OF k same [OF a] builder_invD(3) [OF inv r a(2)]])
  qed
  show "bound env heap' reg' loc u t a" if "reg' (TypeRef loc u, t) = Some a" for loc u t a
    using reg [OF that] new [of "(TypeRef loc u, t)" a] keeps_bound [OF k builder_invD(4) [OF inv]] by auto
  show "reg' (TypeRef loc (Named n), t) = None" for loc n t
  proof (rule ccontr)
    assume "reg' (TypeRef loc (Named n), t) \<noteq> None"
    then obtain a where "reg' (TypeRef loc (Named n), t) = Some a"
      by blast
    then show False
      using reg new builder_invD(5) [OF inv] by fastforce
  qed
qed (use inj objs opened(2) in blast)+

lemma enter_main:
  assumes inv: "builder_inv env opened heap reg" and p: "main_key p" "reg p = None"
    and r: "\<And>x. r \<noteq> PrimR x" "\<And>x. r \<noteq> FuncR x" "\<And>x. r = ObjectR x \<Longrightarrow> \<exists>d. fst p = DefRef d"
  shows "builder_inv env (insert (length heap) opened) (heap @ [r]) (reg(p \<mapsto> length heap))"
    and "grows heap reg (heap @ [r]) (reg(p \<mapsto> length heap))"
proof -
  show g: "grows heap reg (heap @ [r]) (reg(p \<mapsto> length heap))"
    using p(2) by (auto simp: grows_def)
  have old: "reg q \<noteq> Some (length heap)" for q
    using builder_invD(1) [OF inv, of q "length heap"] by blast
  show "builder_inv env (insert (length heap) opened) (heap @ [r]) (reg(p \<mapsto> length heap))"
  proof (rule builder_inv_keeps [OF inv grows_keeps [OF g], where P = "\<lambda>q a. q = p \<and> a = length heap"])
    show "q = p \<and> a = length heap \<Longrightarrow> a < length (heap @ [r]) \<and> (\<forall>loc n. fst q \<noteq> TypeRef loc (Named n)) \<and>
        (\<forall>loc u. fst q = TypeRef loc u \<longrightarrow> bound env (heap @ [r]) (reg(p \<mapsto> length heap)) loc u (snd q) a) \<and>
        (main_key q \<longrightarrow> a \<in> insert (length heap) opened \<and> a \<notin> opened)" for q a
      using p(1) builder_invD(8) [OF inv, of "length heap"] by (cases p rule: main_key.cases) auto
    show "p' = q'" if "main_key p'" "main_key q'" "(reg(p \<mapsto> length heap)) p' = Some a" "(reg(p \<mapsto> length heap)) q' = Some a" for p' q' a
      using that old builder_invD(6) [OF inv] by (auto split: if_splits)
    show "\<exists>d t. (reg(p \<mapsto> length heap)) (DefRef d, t) = Some a" if a: "a < length (heap @ [r])" and x: "(heap @ [r]) ! a = ObjectR x" for a x
    proof (cases "a = length heap")
      case True
      then show ?thesis
        using x r(3) by (cases p) auto
    next
      case False
      then obtain d t where "reg (DefRef d, t) = Some a"
        using a x builder_invD(7) [OF inv, of a x] by (auto simp: nth_append)
      then show ?thesis
        using p(2) by (metis fun_upd_other option.distinct(1))
    qed
    show "a < length (heap @ [r]) \<and> (\<forall>x. (heap @ [r]) ! a \<noteq> PrimR x) \<and> (\<forall>x. (heap @ [r]) ! a \<noteq> FuncR x)"
      if "a \<in> insert (length heap) opened" for a
      using that r(1,2) builder_invD(8,9,10) [OF inv] by (fastforce simp: nth_append)
  qed (auto simp: nth_append split: if_splits)
qed

lemma alloc_leaf:
  assumes inv: "builder_inv env opened heap reg" and r: "\<And>x. r \<noteq> ObjectR x"
  shows "builder_inv env opened (heap @ [r]) reg" and "grows heap reg (heap @ [r]) reg"
proof -
  show g: "grows heap reg (heap @ [r]) reg"
    by (simp add: grows_def)
  show "builder_inv env opened (heap @ [r]) reg"
  proof (rule builder_inv_keeps [OF inv grows_keeps [OF g], where P = "\<lambda>q a. False"])
    show "\<exists>d t. reg (DefRef d, t) = Some a" if "a < length (heap @ [r])" "(heap @ [r]) ! a = ObjectR x" for a x
      using that r builder_invD(7) [OF inv, of a x] by (auto simp: nth_append split: if_splits)
    show "a < length (heap @ [r]) \<and> (\<forall>x. (heap @ [r]) ! a \<noteq> PrimR x) \<and> (\<forall>x. (heap @ [r]) ! a \<noteq> FuncR x)"
      if "a \<in> opened" for a
      using that builder_invD(8,9,10) [OF inv] by (fastforce simp: nth_append)
    show "p = q" if "main_key p" "main_key q" "reg p = Some a" "reg q = Some a" for p q a
      using that builder_invD(6) [OF inv] by blast
  qed (auto simp: nth_append)
qed

text \<open>A change of an open object or list.\<close>

lemma update_open:
  assumes inv: "builder_inv env opened heap reg" and a: "a \<in> opened"
    and r: "\<And>x. r \<noteq> PrimR x" "\<And>x. r \<noteq> FuncR x" "\<And>x. r = ObjectR x \<Longrightarrow> \<exists>y. heap ! a = ObjectR y"
  shows "builder_inv env opened (heap[a := r]) reg" and "keeps heap reg (heap[a := r]) reg"
proof -
  have len: "a < length heap"
    using builder_invD(8) [OF inv a] .
  show k: "keeps heap reg (heap[a := r]) reg"
    using builder_invD(9,10) [OF inv a] len by (auto simp: keeps_def nth_list_update)
  show "builder_inv env opened (heap[a := r]) reg"
  proof (rule builder_inv_keeps [OF inv k, where P = "\<lambda>q a. False"])
    show "(heap[a := r]) ! b = heap ! b" if "b < length heap" "b \<notin> opened" for b
      using that a by (metis nth_list_update_neq)
    show "\<exists>d t. reg (DefRef d, t) = Some b" if b: "b < length (heap[a := r])" "(heap[a := r]) ! b = ObjectR x" for b x
    proof -
      have "\<exists>y. heap ! b = ObjectR y"
        using b r(3) len by (cases "b = a") auto
      then show ?thesis
        using b(1) builder_invD(7) [OF inv] by auto
    qed
    show "b < length (heap[a := r]) \<and> (\<forall>x. (heap[a := r]) ! b \<noteq> PrimR x) \<and> (\<forall>x. (heap[a := r]) ! b \<noteq> FuncR x)"
      if "b \<in> opened" for b
      using that r(1,2) len builder_invD(8,9,10) [OF inv that] by (simp add: nth_list_update)
    show "p = q" if "main_key p" "main_key q" "reg p = Some b" "reg q = Some b" for p q b
      using that builder_invD(6) [OF inv] by blast
  qed auto
qed

text \<open>An object or a list that is finished.\<close>

lemma close_open:
  assumes inv: "builder_inv env (insert a opened) heap reg"
    and obj: "\<And>d t. reg (DefRef d, t) = Some a \<Longrightarrow> object_bound env heap reg d t a"
    and lst: "\<And>loc u t. reg (TypeRef loc (List u), t) = Some a \<Longrightarrow> list_bound env heap reg loc u t a"
  shows "builder_inv env opened heap reg"
  unfolding builder_inv_def
proof (intro conjI allI impI ballI)
  show "object_bound env heap reg d t b" if "reg (DefRef d, t) = Some b" "b \<notin> opened" for d t b
    using that obj builder_invD(2) [OF inv] by (cases "b = a") auto
  show "list_bound env heap reg loc u t b" if "reg (TypeRef loc (List u), t) = Some b" "b \<notin> opened" for loc u t b
    using that lst builder_invD(3) [OF inv] by (cases "b = a") auto
qed (use builder_invD [OF inv] in \<open>simp_all del: split_paired_All split_paired_Ex\<close>)

text \<open>A non-null type, entered with what resolves the type below.\<close>

lemma enter_nonnull:
  assumes inv: "builder_inv env opened heap reg" and b: "bound env heap reg (loc @ [0]) u t a"
  shows "builder_inv env opened heap (reg((TypeRef loc (NonNull u), t) \<mapsto> a))"
    and "grows heap reg heap (reg((TypeRef loc (NonNull u), t) \<mapsto> a))"
    and "bound env heap (reg((TypeRef loc (NonNull u), t) \<mapsto> a)) loc (NonNull u) t a"
proof -
  let ?p = "(TypeRef loc (NonNull u), t)"
  show g: "grows heap reg heap (reg(?p \<mapsto> a))"
    by (auto simp: grows_def)
  show b': "bound env heap (reg(?p \<mapsto> a)) loc (NonNull u) t a"
    using keeps_bound [OF grows_keeps [OF g] b] by simp
  have other: "(reg(?p \<mapsto> a)) q = reg q" if "main_key q" for q
    using that by auto
  show "builder_inv env opened heap (reg(?p \<mapsto> a))"
  proof (rule builder_inv_keeps [OF inv grows_keeps [OF g], where P = "\<lambda>q b. q = ?p \<and> b = a"])
    show "q = ?p \<and> c = a \<Longrightarrow> c < length heap \<and> (\<forall>loc n. fst q \<noteq> TypeRef loc (Named n)) \<and>
        (\<forall>loc v. fst q = TypeRef loc v \<longrightarrow> bound env heap (reg(?p \<mapsto> a)) loc v (snd q) c) \<and>
        (main_key q \<longrightarrow> c \<in> opened \<and> c \<notin> opened)" for q c
      using bound_less [OF inv b] b' by auto
    show "p = q" if "main_key p" "main_key q" "(reg(?p \<mapsto> a)) p = Some b" "(reg(?p \<mapsto> a)) q = Some b" for p q b
      using that other builder_invD(6) [OF inv] by metis
    show "\<exists>d t'. (reg(?p \<mapsto> a)) (DefRef d, t') = Some b" if "b < length heap" "heap ! b = ObjectR x" for b x
      using builder_invD(7) [OF inv that] by auto
    show "b < length heap \<and> (\<forall>x. heap ! b \<noteq> PrimR x) \<and> (\<forall>x. heap ! b \<noteq> FuncR x)" if "b \<in> opened" for b
      using builder_invD(8,9,10) [OF inv that] by simp
  qed (auto split: if_splits)
qed

subsection \<open>The builders\<close>

abbreviation inv_mb :: "analysis_env \<Rightarrow> addr set \<Rightarrow> modelBuilder \<Rightarrow> bool" where
  "inv_mb env opened mb \<equiv> builder_inv env opened (mb_heap mb) (mb_resolvers mb)"

abbreviation grows_mb :: "modelBuilder \<Rightarrow> modelBuilder \<Rightarrow> bool" where
  "grows_mb mb mb' \<equiv> grows (mb_heap mb) (mb_resolvers mb) (mb_heap mb') (mb_resolvers mb')"

abbreviation bound_mb :: "analysis_env \<Rightarrow> modelBuilder \<Rightarrow> ast_ref \<Rightarrow> go_type \<Rightarrow> addr \<Rightarrow> bool" where
  "bound_mb env mb \<equiv> bound_ref env (mb_heap mb) (mb_resolvers mb)"

text \<open>What a builder does when it returns.\<close>

definition builds :: "analysis_env \<Rightarrow> addr set \<Rightarrow> modelBuilder \<Rightarrow> ast_ref \<Rightarrow> go_type \<Rightarrow> modelBuilder \<times> addr \<Rightarrow> bool" where
  "builds env opened mb node t r \<longleftrightarrow>
     inv_mb env opened (fst r) \<and> grows_mb mb (fst r) \<and> bound_mb env (fst r) node t (snd r)"

definition good_builder :: "analysis_env \<Rightarrow> builder \<Rightarrow> bool" where
  "good_builder env rec \<longleftrightarrow> (\<forall>opened mb node t r. inv_mb env opened mb \<longrightarrow> rec (node, t) mb = Built r \<longrightarrow> builds env opened mb node t r)"

lemma good_builderD:
  "good_builder env rec \<Longrightarrow> inv_mb env opened mb \<Longrightarrow> rec (node, t) mb = Built r \<Longrightarrow> builds env opened mb node t r"
  unfolding good_builder_def by blast

lemma bind_result_Built: "bind_result x f = Built y \<longleftrightarrow> (\<exists>z. x = Built z \<and> f z = Built y)"
  by (cases x) auto

lemma buildPrimitiveResolver_Built:
  assumes "buildPrimitiveResolver env fuel rec t gnode name mb = Built r"
  shows "\<exists>p. r = alloc (PrimR p) mb \<and> prim_bound env name t p"
proof -
  obtain ptrDepth k n where loop: "basic_loop (en_types env) fuel 0 (Underlying (en_types env) t) = Some (ptrDepth, BasicT k n)"
    using assms by (auto simp: buildPrimitiveResolver_def buildChanValueResolver_def bind_result_Built
        split: option.splits prod.splits go_type.splits if_splits)
  obtain tname tkind primKind where p: "PrimitivesTypes name = Some (tname, tkind)" "GraphQLPrimitivesProtoKinds name = Some primKind"
    using assms loop by (auto simp: buildPrimitiveResolver_def split: option.splits)
  define conv where "conv = (if k = tkind then None else Some tname)"
  have k: "k = tkind \<or> basic_convertible k tkind" and r: "r = alloc (PrimR \<lparr>pr_ptrDepth = ptrDepth, pr_convertTo = conv, pr_primKind = primKind\<rparr>) mb"
    using assms loop p by (auto simp: buildPrimitiveResolver_def basic_assignable_def conv_def split: if_splits)
  have "prim_bound env name t \<lparr>pr_ptrDepth = ptrDepth, pr_convertTo = conv, pr_primKind = primKind\<rparr>"
    using loop p k unfolding prim_bound_def conv_def by auto
  then show ?thesis
    using r by blast
qed

lemma follow_builds:
  assumes good: "good_builder env rec" and inv: "inv_mb env opened mb"
    and b: "buildFollowResolver env fuel rec t loc n mb = Built r"
  shows "builds env opened mb (TypeRef loc (Named n)) t r"
proof (cases "IsAstPrimitive (Named n)")
  case True
  then obtain name where n: "n = Some name"
    by (auto split: option.splits)
  obtain p where p: "r = alloc (PrimR p) mb" "prim_bound env name t p"
    using b True buildPrimitiveResolver_Built unfolding buildFollowResolver_def n by fastforce
  show ?thesis
    using alloc_leaf [OF inv, of "PrimR p"] p True
    by (auto simp: builds_def alloc_def bound_ref_def n simp del: IsAstPrimitive.simps)
next
  case False
  obtain d where d: "en_lookup env (Named n) = Some d" "rec (DefRef d, t) mb = Built r"
    using b False by (auto simp: buildFollowResolver_def simp del: IsAstPrimitive.simps split: option.splits if_splits)
  show ?thesis
    using good_builderD [OF good inv d(2)] d(1) False by (auto simp: builds_def bound_ref_def simp del: IsAstPrimitive.simps)
qed

lemma node_ref_bound [simp]:
  "bound_ref env heap reg (node_ref loc u) t a = bound env heap reg loc u t a"
  by (cases u) (simp_all add: node_ref_def bound_ref_def)

lemma list_builds:
  assumes good: "good_builder env rec" and inv: "inv_mb env opened mb"
    and new: "mb_resolvers mb (TypeRef loc (List u), t) = None"
    and b: "buildListResolver env rec (TypeRef loc (List u), t) loc u mb = Built r"
  shows "builds env opened mb (TypeRef loc (List u)) t r"
proof -
  let ?p = "(TypeRef loc (List u), t)" and ?a = "length (mb_heap mb)"
  obtain isPtr i e where le: "list_elem (en_types env) t = (isPtr, SliceT i e)"
    using b by (auto simp: buildListResolver_def split: prod.splits go_type.splits if_splits)
  let ?l = "\<lambda>x. ListR \<lparr>lr_isPtr = isPtr, lr_elemResolver = x\<rparr>"
  define mb1 where "mb1 = mb\<lparr>mb_heap := mb_heap mb @ [?l None], mb_resolvers := (mb_resolvers mb)(?p \<mapsto> ?a)\<rparr>"
  obtain mb2 x where rc: "rec (node_ref (loc @ [0]) u, strip_pointer e) mb1 = Built (mb2, x)"
    and r: "r = (mb2\<lparr>mb_heap := (mb_heap mb2)[?a := ?l (Some x)]\<rparr>, ?a)"
    using b by (auto simp: buildListResolver_def le enter_pair_def alloc_def bind_result_Built mb1_def)
  have inv1: "inv_mb env (insert ?a opened) mb1" and g1: "grows_mb mb mb1"
    using enter_main [OF inv _ new, of "?l None"] by (simp_all add: mb1_def)
  note rec = good_builderD [OF good inv1 rc, unfolded builds_def fst_conv snd_conv]
  have inv2: "inv_mb env (insert ?a opened) mb2" and g2: "grows_mb mb1 mb2"
    and x: "bound_mb env mb2 (node_ref (loc @ [0]) u) (strip_pointer e) x"
    using rec by blast+
  have g: "grows_mb mb mb2"
    by (rule table_grows_trans [OF g1 g2])
  have reg: "mb_resolvers mb2 ?p = Some ?a"
    using g2 by (simp add: grows_def mb1_def)
  have len: "?a < length (mb_heap mb2)"
    using builder_invD(1) [OF inv2 reg] .
  have upd: "builder_inv env (insert ?a opened) ((mb_heap mb2)[?a := ?l (Some x)]) (mb_resolvers mb2)"
    "keeps (mb_heap mb2) (mb_resolvers mb2) ((mb_heap mb2)[?a := ?l (Some x)]) (mb_resolvers mb2)"
    by (rule update_open [OF inv2], simp_all)+
  have one: "q = ?p" if "mb_resolvers mb2 q = Some ?a" "main_key q" for q
    using builder_invD(6) [OF inv2 that(2) _ that(1) reg] by simp
  have "builder_inv env opened ((mb_heap mb2)[?a := ?l (Some x)]) (mb_resolvers mb2)"
  proof (rule close_open [OF upd(1)])
    show "object_bound env ((mb_heap mb2)[?a := ?l (Some x)]) (mb_resolvers mb2) d t' ?a"
      if "mb_resolvers mb2 (DefRef d, t') = Some ?a" for d t'
      using one [OF that] by simp
    show "list_bound env ((mb_heap mb2)[?a := ?l (Some x)]) (mb_resolvers mb2) loc' u' t' ?a"
      if "mb_resolvers mb2 (TypeRef loc' (List u'), t') = Some ?a" for loc' u' t'
      using one [OF that] le keeps_bound_ref [OF upd(2) x] len by (simp add: list_bound_def)
  qed
  moreover have "grows (mb_heap mb) (mb_resolvers mb) ((mb_heap mb2)[?a := ?l (Some x)]) (mb_resolvers mb2)"
    using g by (auto simp: grows_def list_update_append)
  ultimately show ?thesis
    using reg by (simp add: builds_def r bound_ref_def)
qed

lemma buildFuncResolver_Built:
  assumes b: "buildFuncResolver env rec loc f fieldt mb = Built r"
  obtains r0 r1 out mb1 x where "func_params (en_types env) (fd_arguments fieldt) (gf_params f) 0 (new_func (gf_name f)) = Built r0"
    and "func_results (en_types env) (gf_results f) r0 = Built r1" and "fr_outputType r1 = Some out"
    and "rec (result_ref loc (fd_type fieldt) (fr_outputChanArg r1 \<noteq> 0), strip_pointer out) mb = Built (mb1, x)"
    and "r = alloc (FuncR (r1\<lparr>fr_outputIsList := is_list (fd_type fieldt), fr_resultResolver := x\<rparr>)) mb1"
proof -
  obtain r0 r1 out where ps: "func_params (en_types env) (fd_arguments fieldt) (gf_params f) 0 (new_func (gf_name f)) = Built r0"
    "func_results (en_types env) (gf_results f) r0 = Built r1" "fr_outputType r1 = Some out"
    using b by (auto simp: buildFuncResolver_def bind_result_Built Let_def split: option.splits)
  then show thesis
    using b that by (auto simp: buildFuncResolver_def bind_result_Built Let_def split: build_result.splits)
qed

lemma func_builds:
  assumes good: "good_builder env rec" and inv: "inv_mb env opened mb"
    and find: "findResolverFunc (en_types env) t (the (fd_field_name fieldt)) = Built f"
    and b: "buildFuncResolver env rec loc f fieldt mb = Built r"
  shows "inv_mb env opened (fst r) \<and> grows_mb mb (fst r) \<and>
    field_bound env (mb_heap (fst r)) (mb_resolvers (fst r)) loc fieldt t (snd r)"
proof -
  obtain r0 r1 out mb1 x where ps: "func_params (en_types env) (fd_arguments fieldt) (gf_params f) 0 (new_func (gf_name f)) = Built r0"
    "func_results (en_types env) (gf_results f) r0 = Built r1" "fr_outputType r1 = Some out"
    and rc: "rec (result_ref loc (fd_type fieldt) (fr_outputChanArg r1 \<noteq> 0), strip_pointer out) mb = Built (mb1, x)"
    and r: "r = alloc (FuncR (r1\<lparr>fr_outputIsList := is_list (fd_type fieldt), fr_resultResolver := x\<rparr>)) mb1"
    by (rule buildFuncResolver_Built [OF b])
  let ?node = "result_ref loc (fd_type fieldt) (fr_outputChanArg r1 \<noteq> 0)"
  let ?f = "\<lambda>x. r1\<lparr>fr_outputIsList := is_list (fd_type fieldt), fr_resultResolver := x\<rparr>"
  have inv1: "inv_mb env opened mb1" and g1: "grows_mb mb mb1" and x: "bound_mb env mb1 ?node (strip_pointer out) x"
    using good_builderD [OF good inv rc] by (simp_all add: builds_def)
  have inv2: "builder_inv env opened (mb_heap mb1 @ [FuncR (?f x)]) (mb_resolvers mb1)"
    and g2: "grows (mb_heap mb1) (mb_resolvers mb1) (mb_heap mb1 @ [FuncR (?f x)]) (mb_resolvers mb1)"
    using alloc_leaf [OF inv1, of "FuncR (?f x)"] by simp_all
  have "field_bound env (mb_heap mb1 @ [FuncR (?f x)]) (mb_resolvers mb1) loc fieldt t (length (mb_heap mb1))"
    using find ps keeps_bound_ref [OF grows_keeps [OF g2] x] unfolding field_bound_def by simp
  then show ?thesis
    using inv2 table_grows_trans [OF g1 g2] by (simp add: r alloc_def)
qed

lemma fields_bound_skip:
  "fields_bound env heap reg d fs i t r \<Longrightarrow> skipped_field (fs ! i) \<Longrightarrow> fields_bound env heap reg d fs (Suc i) t r"
  unfolding fields_bound_def by (metis less_Suc_eq)

lemma fields_bound_add:
  assumes f: "fields_bound env heap reg d fs i t r" and name: "fd_field_name (fs ! i) = Some name" "\<not> skipped_field (fs ! i)"
    and b: "field_bound env heap reg [d, i] (fs ! i) t x"
  shows "fields_bound env heap reg d fs (Suc i) t (r\<lparr>ob_fieldResolvers := AList.update name x (ob_fieldResolvers r), ob_arrayFields := arr\<rparr>)"
    (is "fields_bound env heap reg d fs (Suc i) t ?r")
  unfolding fields_bound_def
proof (intro conjI allI impI ballI)
  show "the (fd_field_name (fs ! j)) \<in> fst ` set (ob_fieldResolvers ?r)" if "j < Suc i" "\<not> skipped_field (fs ! j)" for j
    using that f name(1) by (auto simp: fields_bound_def dom_update less_Suc_eq)
  show "\<exists>j < Suc i. \<not> skipped_field (fs ! j) \<and> fd_field_name (fs ! j) = Some (fst y) \<and> field_bound env heap reg [d, j] (fs ! j) t (snd y)"
    if y: "y \<in> set (ob_fieldResolvers ?r)" for y
  proof -
    consider "y = (name, x)" | "y \<in> set (ob_fieldResolvers r)"
      using set_alist_update [of name x "ob_fieldResolvers r"] y by auto
    then show ?thesis
    proof cases
      case 1
      then show ?thesis
        using name b by auto
    next
      case 2
      then show ?thesis
        using f unfolding fields_bound_def by (meson less_SucI)
    qed
  qed
  show "distinct (map fst (ob_fieldResolvers ?r))"
    using f by (simp add: fields_bound_def distinct_update)
qed

lemma skipped_field_name: "\<not> skipped_field f \<Longrightarrow> fd_field_name f = Some (the (fd_field_name f))"
  by (auto simp: skipped_field_def split: option.splits)

definition same_head :: "objectResolver \<Rightarrow> objectResolver \<Rightarrow> bool" where
  "same_head r r' \<longleftrightarrow> ob_typeName r' = ob_typeName r \<and> ob_goTypeName r' = ob_goTypeName r \<and>
     ob_goGenResolverFuncName r' = ob_goGenResolverFuncName r"

text \<open>The heap below \<open>a\<close> stays, and the main keys.\<close>

definition grows_above :: "addr \<Rightarrow> modelBuilder \<Rightarrow> modelBuilder \<Rightarrow> bool" where
  "grows_above a mb mb' \<longleftrightarrow> take a (mb_heap mb') = take a (mb_heap mb) \<and> length (mb_heap mb) \<le> length (mb_heap mb') \<and>
     (\<forall>p b. main_key p \<longrightarrow> mb_resolvers mb p = Some b \<longrightarrow> mb_resolvers mb' p = Some b)"

lemma grows_above_trans: "grows_above a mb mb1 \<Longrightarrow> grows_above a mb1 mb2 \<Longrightarrow> grows_above a mb mb2"
  unfolding grows_above_def by (metis order_trans)

lemma object_fields_builds:
  assumes good: "good_builder env rec"
  shows "inv_mb env (insert a opened) mb \<Longrightarrow> mb_heap mb ! a = ObjectR r \<Longrightarrow>
    fields_bound env (mb_heap mb) (mb_resolvers mb) d fs i t r \<Longrightarrow> flds = drop i fs \<Longrightarrow> i \<le> length fs \<Longrightarrow>
    object_fields env rec t d a i flds mb = Built mb' \<Longrightarrow>
    inv_mb env (insert a opened) mb' \<and> grows_above a mb mb' \<and>
    (\<exists>r'. mb_heap mb' ! a = ObjectR r' \<and> same_head r r' \<and>
       fields_bound env (mb_heap mb') (mb_resolvers mb') d fs (length fs) t r')"
proof (induction flds arbitrary: i mb r)
  case Nil
  then show ?case
    by (auto simp: grows_above_def same_head_def)
next
  case (Cons field flds)
  have i: "i < length fs" and field: "field = fs ! i" and flds: "flds = drop (Suc i) fs"
    using Cons.prems(4) by (metis drop_eq_Nil list.distinct(1) not_le_imp_less,
        metis list.sel(1) hd_drop_conv_nth drop_eq_Nil list.distinct(1) not_le_imp_less, metis list.sel(3) drop_Suc tl_drop)
  show ?case
  proof (cases "skipped_field field")
    case True
    show ?thesis
      by (rule Cons.IH [OF Cons.prems(1,2) fields_bound_skip [OF Cons.prems(3)] flds])
        (use True field i Cons.prems(6) in \<open>simp_all\<close>)
  next
    case False
    define name where "name = the (fd_field_name field)"
    have name: "fd_field_name field = Some name"
      using skipped_field_name [OF False] by (simp add: name_def)
    obtain f r1 arr where f: "findResolverFunc (en_types env) t name = Built f"
      and r1: "buildFuncResolver env rec [d, i] f field mb = Built r1"
      and rest: "object_fields env rec t d a (i + 1) flds
        (set_object a (\<lambda>o'. o'\<lparr>ob_fieldResolvers := AList.update name (snd r1) (ob_fieldResolvers o'),
           ob_arrayFields := arr (ob_arrayFields o')\<rparr>) (fst r1)) = Built mb'"
      using Cons.prems(6) False by (auto simp: bind_result_Built Let_def name_def split: prod.splits if_splits)
    let ?mb1 = "fst r1"
    let ?r2 = "r\<lparr>ob_fieldResolvers := AList.update name (snd r1) (ob_fieldResolvers r), ob_arrayFields := arr (ob_arrayFields r)\<rparr>"
    let ?h2 = "(mb_heap ?mb1)[a := ObjectR ?r2]"
    note fb = func_builds [OF good Cons.prems(1) f [unfolded name_def] r1]
    have a: "a < length (mb_heap mb)"
      using builder_invD(8) [OF Cons.prems(1)] by simp
    have a1: "mb_heap ?mb1 ! a = ObjectR r" "a < length (mb_heap ?mb1)"
      using fb a Cons.prems(2) grows_nth grows_length by (metis, metis order_less_le_trans)
    have upd: "builder_inv env (insert a opened) ?h2 (mb_resolvers ?mb1)" "keeps (mb_heap ?mb1) (mb_resolvers ?mb1) ?h2 (mb_resolvers ?mb1)"
      using update_open [of env "insert a opened" "mb_heap ?mb1" "mb_resolvers ?mb1" a "ObjectR ?r2"] fb a1 by simp_all
    have mb2: "set_object a (\<lambda>o'. o'\<lparr>ob_fieldResolvers := AList.update name (snd r1) (ob_fieldResolvers o'),
        ob_arrayFields := arr (ob_arrayFields o')\<rparr>) ?mb1 = ?mb1\<lparr>mb_heap := ?h2\<rparr>"
      by (simp add: set_object_def a1)
    have bound: "fields_bound env ?h2 (mb_resolvers ?mb1) d fs (Suc i) t ?r2"
    proof (rule fields_bound_add)
      show "fields_bound env ?h2 (mb_resolvers ?mb1) d fs i t r"
        using keeps_fields_bound [OF upd(2)] keeps_fields_bound [OF grows_keeps] fb Cons.prems(3) by blast
      show "field_bound env ?h2 (mb_resolvers ?mb1) [d, i] (fs ! i) t (snd r1)"
        using keeps_field_bound [OF upd(2)] fb field by simp
    qed (use name False field in simp_all)
    have "inv_mb env (insert a opened) mb' \<and> grows_above a (?mb1\<lparr>mb_heap := ?h2\<rparr>) mb' \<and>
      (\<exists>r'. mb_heap mb' ! a = ObjectR r' \<and> same_head ?r2 r' \<and>
         fields_bound env (mb_heap mb') (mb_resolvers mb') d fs (length fs) t r')"
      by (rule Cons.IH [where i = "Suc i"]) (use upd(1) bound flds i rest a1 mb2 in simp_all)
    moreover have "grows_above a mb (?mb1\<lparr>mb_heap := ?h2\<rparr>)"
      using fb a by (auto simp: grows_above_def grows_def)
    moreover have "same_head ?r2 r' \<Longrightarrow> same_head r r'" for r'
      by (simp add: same_head_def)
    ultimately show ?thesis
      using grows_above_trans by blast
  qed
qed

lemma object_builds:
  assumes good: "good_builder env rec" and inv: "inv_mb env opened mb"
    and new: "mb_resolvers mb (DefRef d, t) = None" and def: "en_defs env ! d = ObjectDefinition n fs"
    and b: "buildObjectResolver env rec (DefRef d, t) d n fs mb = Built res"
  shows "builds env opened mb (DefRef d) t res"
proof -
  let ?p = "(DefRef d, t)" and ?a = "length (mb_heap mb)"
  obtain g name pkg where g: "object_named t = Some g" "n = Some name" "gn_pkg (en_types env ! g) = Some pkg"
    using b by (auto simp: buildObjectResolver_def split: option.splits)
  let ?r = "\<lparr>ob_typeName = name, ob_goTypeName = g, ob_goGenResolverFuncName = ''Resolve'' @ name,
    ob_fieldResolvers = [], ob_arrayFields = []\<rparr>"
  define mb1 where "mb1 = mb\<lparr>mb_heap := mb_heap mb @ [ObjectR ?r], mb_resolvers := (mb_resolvers mb)(?p \<mapsto> ?a),
    mb_imports := insert (fst pkg) (mb_imports mb)\<rparr>"
  obtain mb2 where fields: "object_fields env rec t d ?a 0 fs mb1 = Built mb2" and res: "res = (mb2, ?a)"
    using b by (auto simp: buildObjectResolver_def g enter_pair_def alloc_def bind_result_Built mb1_def split: prod.splits)
  have inv1: "inv_mb env (insert ?a opened) mb1" and g1: "grows_mb mb mb1"
    using enter_main [OF inv _ new, of "ObjectR ?r"] by (simp_all add: mb1_def)
  have "inv_mb env (insert ?a opened) mb2 \<and> grows_above ?a mb1 mb2 \<and>
    (\<exists>r'. mb_heap mb2 ! ?a = ObjectR r' \<and> same_head ?r r' \<and>
       fields_bound env (mb_heap mb2) (mb_resolvers mb2) d fs (length fs) t r')"
    by (rule object_fields_builds [OF good inv1 _ _ _ _ fields])
      (simp_all add: mb1_def fields_bound_def)
  then obtain r' where inv2: "inv_mb env (insert ?a opened) mb2" and g2: "grows_above ?a mb1 mb2"
    and r': "mb_heap mb2 ! ?a = ObjectR r'" "same_head ?r r'" "fields_bound env (mb_heap mb2) (mb_resolvers mb2) d fs (length fs) t r'"
    by blast
  have reg: "mb_resolvers mb2 ?p = Some ?a"
    using g2 by (simp add: grows_above_def mb1_def)
  have one: "q = ?p" if "mb_resolvers mb2 q = Some ?a" "main_key q" for q
    using builder_invD(6) [OF inv2 that(2) _ that(1) reg] by simp
  have "inv_mb env opened mb2"
  proof (rule close_open [OF inv2])
    show "object_bound env (mb_heap mb2) (mb_resolvers mb2) d' t' ?a" if "mb_resolvers mb2 (DefRef d', t') = Some ?a" for d' t'
      using one [OF that] r' def g by (simp add: object_bound_def same_head_def)
    show "list_bound env (mb_heap mb2) (mb_resolvers mb2) loc u t' ?a" if "mb_resolvers mb2 (TypeRef loc (List u), t') = Some ?a" for loc u t'
      using one [OF that] by simp
  qed
  moreover have "grows_mb mb mb2"
  proof -
    have "take ?a (mb_heap mb2) = mb_heap mb"
      using g2 by (simp add: grows_above_def mb1_def)
    then have "mb_heap mb2 = mb_heap mb @ drop ?a (mb_heap mb2)"
      by (metis append_take_drop_id)
    moreover have "mb_resolvers mb2 p = Some a" if "main_key p" "mb_resolvers mb p = Some a" for p a
    proof -
      have "mb_resolvers mb1 p = Some a"
        using g1 that unfolding grows_def by blast
      then show ?thesis
        using g2 that(1) unfolding grows_above_def by blast
    qed
    ultimately show ?thesis
      unfolding grows_def by blast
  qed
  ultimately show ?thesis
    using reg by (simp add: builds_def res bound_ref_def)
qed

lemma enter_same:
  assumes b: "builds env opened mb node t r" and m: "main_key (node, t)"
  shows "builds env opened mb node t (enter_pair (node, t) r)"
proof -
  have "mb_resolvers (fst r) (node, t) = Some (snd r)"
    using b m by (cases "(node, t)" rule: main_key.cases) (auto simp: builds_def bound_ref_def)
  then have "enter_pair (node, t) r = r"
    by (cases r) (simp add: enter_pair_def map_upd_triv)
  then show ?thesis
    using b by simp
qed

lemma nonnull_builds:
  assumes good: "good_builder env rec" and inv: "inv_mb env opened mb"
    and b: "rec (node_ref (loc @ [0]) u, t) mb = Built r"
  shows "builds env opened mb (TypeRef loc (NonNull u)) t (enter_pair (TypeRef loc (NonNull u), t) r)"
proof -
  have r: "inv_mb env opened (fst r)" "grows_mb mb (fst r)" "bound env (mb_heap (fst r)) (mb_resolvers (fst r)) (loc @ [0]) u t (snd r)"
    using good_builderD [OF good inv b] by (simp_all add: builds_def)
  show ?thesis
    using enter_nonnull [OF r(1,3)] table_grows_trans [OF r(2)] by (simp add: builds_def enter_pair_def bound_ref_def)
qed

lemma buildResolver_good: "good_builder env (buildResolver env fuel)"
proof (induction fuel)
  case 0
  show ?case
    by (simp add: good_builder_def)
next
  case (Suc fuel)
  show ?case
    unfolding good_builder_def
  proof (intro allI impI)
    fix opened mb node t r
    assume inv: "inv_mb env opened mb" and b: "buildResolver env (Suc fuel) (node, t) mb = Built r"
    show "builds env opened mb node t r"
    proof (cases "mb_resolvers mb (node, t)")
      case (Some a)
      have "bound_mb env mb node t a"
        using Some builder_invD(4) [OF inv] by (cases node) (simp_all add: bound_ref_def)
      then show ?thesis
        using b Some inv by (auto simp: builds_def)
    next
      case None
      show ?thesis
      proof (cases node)
        case (DefRef d)
        obtain n fs res where def: "en_defs env ! d = ObjectDefinition n fs"
          and res: "buildObjectResolver env (buildResolver env fuel) (DefRef d, t) d n fs mb = Built res" "r = enter_pair (DefRef d, t) res"
          using b None DefRef by (auto simp: bind_result_Built split: type_definition.splits)
        have "builds env opened mb (DefRef d) t res"
          by (rule object_builds [OF Suc.IH inv _ def res(1)]) (use None DefRef in simp)
        then show ?thesis
          unfolding DefRef res(2) by (rule enter_same) simp
      next
        case (TypeRef loc u)
        show ?thesis
        proof (cases u)
          case (Named n)
          show ?thesis
            unfolding TypeRef Named
            by (rule follow_builds [OF Suc.IH inv]) (use b None TypeRef Named in simp)
        next
          case (List v)
          obtain res where res: "buildListResolver env (buildResolver env fuel) (TypeRef loc (List v), t) loc v mb = Built res"
            "r = enter_pair (TypeRef loc (List v), t) res"
            using b None TypeRef List by (auto simp: bind_result_Built)
          have "builds env opened mb (TypeRef loc (List v)) t res"
            by (rule list_builds [OF Suc.IH inv _ res(1)]) (use None TypeRef List in simp)
          then show ?thesis
            unfolding TypeRef List res(2) by (rule enter_same) simp
        next
          case (NonNull v)
          obtain res where res: "buildResolver env fuel (node_ref (loc @ [0]) v, t) mb = Built res"
            "r = enter_pair (TypeRef loc (NonNull v), t) res"
            using b None TypeRef NonNull by (auto simp: bind_result_Built)
          show ?thesis
            unfolding TypeRef NonNull res(2) by (rule nonnull_builds [OF Suc.IH inv res(1)])
        qed (use b None TypeRef in simp_all)
      qed
    qed
  qed
qed

lemma new_builder_inv: "inv_mb env {} newModelBuilder"
  by (simp add: builder_inv_def newModelBuilder_def)

text \<open>The table of a model, when the analysis has ended.\<close>

lemma buildResolver_bound:
  assumes "buildResolver env fuel (DefRef d, t) newModelBuilder = Built (mb, a)"
  shows "mb_resolvers mb (DefRef d, t) = Some a"
    and "mb_resolvers mb (DefRef d', t') = Some a' \<Longrightarrow> object_bound env (mb_heap mb) (mb_resolvers mb) d' t' a'"
    and "mb_resolvers mb (TypeRef loc (List u), t') = Some a' \<Longrightarrow> list_bound env (mb_heap mb) (mb_resolvers mb) loc u t' a'"
    and "b < length (mb_heap mb) \<Longrightarrow> mb_heap mb ! b = ObjectR r \<Longrightarrow> \<exists>d t. mb_resolvers mb (DefRef d, t) = Some b"
    and "mb_resolvers mb p = Some b \<Longrightarrow> b < length (mb_heap mb)"
proof -
  have b: "builds env {} newModelBuilder (DefRef d) t (mb, a)"
    by (rule good_builderD [OF buildResolver_good new_builder_inv assms])
  then have inv: "inv_mb env {} mb"
    by (simp add: builds_def)
  show "mb_resolvers mb (DefRef d, t) = Some a"
    using b by (simp add: builds_def bound_ref_def)
  show "mb_resolvers mb (DefRef d', t') = Some a' \<Longrightarrow> object_bound env (mb_heap mb) (mb_resolvers mb) d' t' a'"
    using builder_invD(2) [OF inv] by simp
  show "mb_resolvers mb (TypeRef loc (List u), t') = Some a' \<Longrightarrow> list_bound env (mb_heap mb) (mb_resolvers mb) loc u t' a'"
    using builder_invD(3) [OF inv] by simp
  show "b < length (mb_heap mb) \<Longrightarrow> mb_heap mb ! b = ObjectR r \<Longrightarrow> \<exists>d t. mb_resolvers mb (DefRef d, t) = Some b"
    using builder_invD(7) [OF inv] .
  show "mb_resolvers mb p = Some b \<Longrightarrow> b < length (mb_heap mb)"
    using builder_invD(1) [OF inv] .
qed

subsection \<open>The table is finite\<close>

abbreviation finite_table :: "modelBuilder \<Rightarrow> bool" where
  "finite_table mb \<equiv> finite (dom (mb_resolvers mb))"

definition finite_builder :: "builder \<Rightarrow> bool" where
  "finite_builder rec \<longleftrightarrow> (\<forall>p mb r. finite_table mb \<longrightarrow> rec p mb = Built r \<longrightarrow> finite_table (fst r))"

lemma finite_builderD: "finite_builder rec \<Longrightarrow> finite_table mb \<Longrightarrow> rec p mb = Built r \<Longrightarrow> finite_table (fst r)"
  unfolding finite_builder_def by blast

lemma finite_builderI: "rec p mb = Built (mb', a) \<Longrightarrow> finite_builder rec \<Longrightarrow> finite_table mb \<Longrightarrow> finite_table mb'"
  using finite_builderD by fastforce

lemma finite_enter: "finite_table mb \<Longrightarrow> finite_table (fst (enter_pair p (mb, a)))"
  by (simp add: enter_pair_def)

lemma func_finite:
  assumes "finite_builder rec" and "finite_table mb" and b: "buildFuncResolver env rec loc f fieldt mb = Built r"
  shows "finite_table (fst r)"
  by (rule buildFuncResolver_Built [OF b]) (use finite_builderI [OF _ assms(1,2)] in \<open>auto simp: alloc_def\<close>)

lemma object_fields_finite:
  "finite_builder rec \<Longrightarrow> finite_table mb \<Longrightarrow> object_fields env rec t d a i flds mb = Built mb' \<Longrightarrow> finite_table mb'"
proof (induction flds arbitrary: i mb)
  case (Cons field flds)
  show ?case
  proof (cases "skipped_field field")
    case False
    obtain f r upd where r: "buildFuncResolver env rec [d, i] f field mb = Built r"
      and rest: "object_fields env rec t d a (i + 1) flds (set_object a upd (fst r)) = Built mb'"
      using Cons.prems(3) False by (auto simp: bind_result_Built Let_def split: prod.splits if_splits)
    have "finite_table (set_object a upd (fst r))"
      using func_finite [OF Cons.prems(1,2) r] by (simp add: set_object_def)
    then show ?thesis
      by (rule Cons.IH [OF Cons.prems(1) _ rest])
  qed (use Cons in simp)
qed simp

lemma object_finite:
  "finite_builder rec \<Longrightarrow> finite_table mb \<Longrightarrow> buildObjectResolver env rec p d n flds mb = Built r \<Longrightarrow> finite_table (fst r)"
  by (auto simp: buildObjectResolver_def bind_result_Built enter_pair_def alloc_def intro: object_fields_finite [rotated 2]
      split: option.splits prod.splits)

lemma list_finite:
  assumes "finite_builder rec" and "finite_table mb" and b: "buildListResolver env rec p loc u mb = Built r"
  shows "finite_table (fst r)"
proof -
  obtain mb1 r1 e where "rec (node_ref (loc @ [0]) u, strip_pointer e) mb1 = Built r1" "finite_table mb1"
    "mb_resolvers (fst r) = mb_resolvers (fst r1)"
    using b assms(2)
    by (fastforce simp: buildListResolver_def bind_result_Built enter_pair_def alloc_def split: prod.splits go_type.splits if_splits)
  then show ?thesis
    using finite_builderD [OF assms(1)] by metis
qed

lemma follow_finite:
  "finite_builder rec \<Longrightarrow> finite_table mb \<Longrightarrow> buildFollowResolver env fuel rec t loc n mb = Built r \<Longrightarrow> finite_table (fst r)"
  by (auto simp: buildFollowResolver_def alloc_def simp del: IsAstPrimitive.simps dest!: buildPrimitiveResolver_Built
      dest: finite_builderD split: option.splits if_splits)

lemma buildResolver_finite: "finite_builder (buildResolver env fuel)"
proof (induction fuel)
  case (Suc fuel)
  show ?case
    unfolding finite_builder_def
  proof (intro allI impI)
    fix p :: typeResolverPair and mb r
    assume f: "finite_table mb" and b: "buildResolver env (Suc fuel) p mb = Built r"
    show "finite_table (fst r)"
      using f b
      by (auto simp: bind_result_Built intro!: finite_enter dest: object_finite [OF Suc.IH f] list_finite [OF Suc.IH f]
          follow_finite [OF Suc.IH f] finite_builderD [OF Suc.IH f] split: option.splits ast_ref.splits ast_type.splits type_definition.splits)
  qed
qed (simp add: finite_builder_def)

subsection \<open>Properties\<close>

text \<open>A schema and a program, in the shape of \<open>example/simple\<close>.\<close>

definition simple_types :: go_types where
  "simple_types =
     [\<lparr>gn_name = ''RootResolver'', gn_pkg = Some (''simple'', ''simple''), gn_underlying = StructT 0 [], gn_methods =
         [\<lparr>gf_name = ''Names'', gf_params = [NamedT 2, ChanT 1 SendOnly (BasicT Kind_String ''string'')], gf_results = [NamedT 3]\<rparr>,
          \<lparr>gf_name = ''AllPeople'', gf_params = [], gf_results = [SliceT 2 (PointerT 3 (NamedT 1))]\<rparr>]\<rparr>,
      \<lparr>gn_name = ''PersonResolver'', gn_pkg = Some (''simple'', ''simple''), gn_underlying = StructT 4 [], gn_methods =
         [\<lparr>gf_name = ''Height'', gf_params = [], gf_results = [BasicT Kind_Int ''int'']\<rparr>]\<rparr>,
      \<lparr>gn_name = ''Context'', gn_pkg = Some (''context'', ''context''), gn_underlying = OtherT 5, gn_methods = []\<rparr>,
      \<lparr>gn_name = ''error'', gn_pkg = None, gn_underlying = OtherT 6, gn_methods = []\<rparr>]"

definition simple_defs :: definitions where
  "simple_defs =
     [ObjectDefinition (Some ''RootQuery'')
        [FieldDefinition (Some ''names'') [] (List (Named (Some ''String''))),
         FieldDefinition (Some ''allPeople'') [] (List (Named (Some ''Person'')))],
      ObjectDefinition (Some ''Person'') [FieldDefinition (Some ''height'') [] (NonNull (Named (Some ''Int'')))]]"

definition simple_env :: analysis_env where
  "simple_env = \<lparr>en_defs = simple_defs, en_lookup = (\<lambda>t. if t = Named (Some ''Person'') then Some 1 else None), en_types = simple_types\<rparr>"

lemma simple_builds: "\<exists>r. buildResolver simple_env 12 (DefRef 0, NamedT 0) newModelBuilder = Built r"
proof -
  have "(case buildResolver simple_env 12 (DefRef 0, NamedT 0) newModelBuilder of Built r \<Rightarrow> True | _ \<Rightarrow> False)"
    by code_simp
  then show ?thesis
    by (simp split: build_result.splits)
qed

text \<open>A range over the table visits every key once, in some order.\<close>

definition table_order :: "(modelBuilder \<Rightarrow> typeResolverPair list) \<Rightarrow> bool" where
  "table_order rorder \<longleftrightarrow> (\<forall>mb. finite_table mb \<longrightarrow> set (rorder mb) = dom (mb_resolvers mb) \<and> distinct (rorder mb))"

lemma some_table_order: "\<exists>rorder. table_order rorder"
proof -
  define f :: "modelBuilder \<Rightarrow> typeResolverPair list" where "f mb = (SOME xs. set xs = dom (mb_resolvers mb) \<and> distinct xs)" for mb
  have "set (f mb) = dom (mb_resolvers mb) \<and> distinct (f mb)" if "finite_table mb" for mb
    unfolding f_def by (rule someI_ex [OF finite_distinct_list [OF that]])
  then have "table_order f"
    unfolding table_order_def by blast
  then show ?thesis
    by (rule exI [where x = f])
qed

lemma set_map_filter': "y \<in> set (List.map_filter f xs) \<longleftrightarrow> (\<exists>x \<in> set xs. f x = Some y)"
  by (induction xs) (auto simp: List.map_filter_simps split: option.splits)

definition model_bound :: "analysis_env \<Rightarrow> addr \<Rightarrow> go_type \<Rightarrow> Model \<Rightarrow> (typeResolverPair \<rightharpoonup> addr) \<Rightarrow> bool" where
  "model_bound env d t m reg \<longleftrightarrow> reg (DefRef d, t) = Some (md_rootResolver m) \<and>
     (\<forall>d' t' a. reg (DefRef d', t') = Some a \<longrightarrow> a \<in> set (md_allResolvers m) \<and> object_bound env (md_heap m) reg d' t' a) \<and>
     (\<forall>loc u t' a. reg (TypeRef loc (List u), t') = Some a \<longrightarrow> a \<in> set (md_allResolvers m) \<and> list_bound env (md_heap m) reg loc u t' a) \<and>
     (\<forall>a r. a \<in> set (md_allResolvers m) \<longrightarrow> md_heap m ! a = ObjectR r \<longrightarrow> (\<exists>d' t'. reg (DefRef d', t') = Some a)) \<and>
     sorted (map (\<lambda>a. GetName (md_heap m ! a)) (md_allResolvers m))"

lemma model_bound:
  assumes ord: "table_order rorder" and b: "BuildModel env fuel rorder iorder (Some d) (Some t) = Built m"
  shows "\<exists>reg. model_bound env d t m reg"
proof -
  obtain mb br where r: "buildResolver env fuel (DefRef d, t) newModelBuilder = Built (mb, br)"
    and m: "m = \<lparr>md_heap = mb_heap mb, md_rootResolver = br,
      md_allResolvers = sort_key (\<lambda>a. GetName (mb_heap mb ! a)) (List.map_filter (mb_resolvers mb) (rorder mb)),
      md_rootSchema = d, md_imports = iorder (mb_imports mb)\<rparr>"
    using b by (auto simp: BuildModel_def bind_result_Built split: prod.splits)
  note facts = buildResolver_bound [OF r]
  have "finite_table mb"
    using finite_builderD [OF buildResolver_finite _ r] by (simp add: newModelBuilder_def)
  then have "set (rorder mb) = dom (mb_resolvers mb)"
    using ord unfolding table_order_def by blast
  then have mem: "a \<in> set (md_allResolvers m) \<longleftrightarrow> (\<exists>p. mb_resolvers mb p = Some a)" for a
    unfolding m by (simp add: set_map_filter' Bex_def domIff del: split_paired_Ex) (metis option.distinct(1))
  have all: "a \<in> set (md_allResolvers m)" if "mb_resolvers mb p = Some a" for p a
    unfolding mem using that by blast
  have less: "a < length (mb_heap mb)" if "a \<in> set (md_allResolvers m)" for a
    using that facts(5) unfolding mem by blast
  have "model_bound env d t m (mb_resolvers mb)"
    unfolding model_bound_def
  proof (intro conjI allI impI)
    show "mb_resolvers mb (DefRef d, t) = Some (md_rootResolver m)"
      using facts(1) by (simp add: m)
    show "a \<in> set (md_allResolvers m)" if "mb_resolvers mb (DefRef d', t') = Some a" for d' t' a
      by (rule all [OF that])
    show "a \<in> set (md_allResolvers m)" if "mb_resolvers mb (TypeRef loc (List u), t') = Some a" for loc u t' a
      by (rule all [OF that])
    show "object_bound env (md_heap m) (mb_resolvers mb) d' t' a" if "mb_resolvers mb (DefRef d', t') = Some a" for d' t' a
      using facts(2) [OF that] by (simp add: m)
    show "list_bound env (md_heap m) (mb_resolvers mb) loc u t' a" if "mb_resolvers mb (TypeRef loc (List u), t') = Some a" for loc u t' a
      using facts(3) [OF that] by (simp add: m)
    show "\<exists>d' t'. mb_resolvers mb (DefRef d', t') = Some a" if "a \<in> set (md_allResolvers m)" "md_heap m ! a = ObjectR x" for a x
      by (rule facts(4) [OF less [OF that(1)]]) (use that(2) in \<open>simp add: m\<close>)
    show "sorted (map (\<lambda>a. GetName (md_heap m ! a)) (md_allResolvers m))"
      by (simp add: m)
  qed
  then show ?thesis
    by blast
qed

text \<open>
  C6: When the analysis returns a model, the model binds the schema to the program: the pair of the root has the root
  resolver; every definition that was paired with a Go type has an object resolver of its name, with exactly one function
  for each of its fields, and that function calls the method of the Go type that the name of the field finds, has what
  the signature of the method says, and hands its result to a resolver that is bound to the type of the field and the type
  of the result; every list resolver is bound in the same way; the resolvers are sorted by name.
\<close>

theorem model_binds_every_field:
  assumes "table_order rorder" and "BuildModel env fuel rorder iorder (Some d) (Some t) = Built m"
  shows "\<exists>reg. model_bound env d t m reg"
  by (rule model_bound [OF assms])

lemma model_binds_every_field_witness:
  "\<exists>rorder m reg. BuildModel simple_env 12 rorder (\<lambda>_. []) (Some 0) (Some (NamedT 0)) = Built m \<and> model_bound simple_env 0 (NamedT 0) m reg"
proof -
  obtain rorder where ord: "table_order rorder"
    using some_table_order by blast
  obtain m where m: "BuildModel simple_env 12 rorder (\<lambda>_. []) (Some 0) (Some (NamedT 0)) = Built m"
    using simple_builds by (force simp: BuildModel_def)
  show ?thesis
    using model_binds_every_field [OF ord m] m by blast
qed

end
