(* ===== verification/AnalysisEnds.thy ===== *)
theory AnalysisEnds
  imports Binding
begin

text \<open>
  When the analysis ends: the recursion of \<open>buildResolver\<close> is bounded by the pairs of a definition and a Go type that
  are not in the table, and below that by the depth of the AST type and the rank of the Go type. More fuel does not change
  a result. A type that is a pointer to itself is the exception, and there the loop of \<open>BasicTypLoop\<close> does not end.
\<close>

subsection \<open>The analysis ends\<close>

text \<open>The Go types of a program: a finite set that has the parts of its types, in which no pointer
  and no channel leads back to itself. The types of a schema refer to its definitions.\<close>

definition closed_types :: "go_types \<Rightarrow> go_type set \<Rightarrow> bool" where
  "closed_types gts T \<longleftrightarrow> finite T \<and>
     (\<forall>i e. PointerT i e \<in> T \<longrightarrow> e \<in> T) \<and> (\<forall>i d e. ChanT i d e \<in> T \<longrightarrow> e \<in> T) \<and> (\<forall>i e. SliceT i e \<in> T \<longrightarrow> e \<in> T) \<and>
     (\<forall>a. NamedT a \<in> T \<longrightarrow> gn_underlying (gts ! a) \<in> T \<and>
        (\<forall>f \<in> set (gn_methods (gts ! a)). set (gf_params f) \<subseteq> T \<and> set (gf_results f) \<subseteq> T))"

definition ranked_types :: "go_types \<Rightarrow> go_type set \<Rightarrow> (go_type \<Rightarrow> nat) \<Rightarrow> nat \<Rightarrow> bool" where
  "ranked_types gts T rank B \<longleftrightarrow> (\<forall>t \<in> T. rank t \<le> B) \<and>
     (\<forall>i e. PointerT i e \<in> T \<longrightarrow> rank e < rank (PointerT i e)) \<and>
     (\<forall>i d e. ChanT i d e \<in> T \<longrightarrow> rank e < rank (ChanT i d e)) \<and>
     (\<forall>a. NamedT a \<in> T \<longrightarrow> rank (gn_underlying (gts ! a)) < rank (NamedT a))"

primrec type_refs_ok :: "nat \<Rightarrow> ast_type \<Rightarrow> bool" where
  "type_refs_ok n (Named x) = True"
| "type_refs_ok n (List t) = type_refs_ok n t"
| "type_refs_ok n (NonNull t) = type_refs_ok n t"
| "type_refs_ok n (AsDefinition d) = (d < n)"
| "type_refs_ok n OtherType = True"

primrec type_depth :: "ast_type \<Rightarrow> nat" where
  "type_depth (Named x) = 1"
| "type_depth (List t) = type_depth t + 1"
| "type_depth (NonNull t) = type_depth t + 1"
| "type_depth (AsDefinition d) = 1"
| "type_depth OtherType = 1"

definition schema_refs_ok :: "analysis_env \<Rightarrow> nat \<Rightarrow> bool" where
  "schema_refs_ok env depth \<longleftrightarrow>
     (\<forall>t d. en_lookup env t = Some d \<longrightarrow> d < length (en_defs env)) \<and>
     (\<forall>d < length (en_defs env). \<forall>f \<in> set (od_fields (en_defs env ! d)).
        type_refs_ok (length (en_defs env)) (fd_type f) \<and> type_depth (fd_type f) \<le> depth)"

lemma closed_typesD:
  assumes "closed_types gts T"
  shows "PointerT i e \<in> T \<Longrightarrow> e \<in> T" and "ChanT i dir e \<in> T \<Longrightarrow> e \<in> T" and "SliceT i e \<in> T \<Longrightarrow> e \<in> T"
    and "NamedT a \<in> T \<Longrightarrow> gn_underlying (gts ! a) \<in> T"
    and "NamedT a \<in> T \<Longrightarrow> f \<in> set (gn_methods (gts ! a)) \<Longrightarrow> set (gf_params f) \<subseteq> T \<and> set (gf_results f) \<subseteq> T"
  using assms unfolding closed_types_def by - blast+

lemma closed_strip:
  assumes c: "closed_types gts T" and t: "t \<in> T"
  shows "strip_pointer t \<in> T"
  using t by (cases t) (auto simp: strip_pointer_def dest: closed_typesD(1) [OF c])

lemma closed_Underlying:
  assumes c: "closed_types gts T" and t: "t \<in> T"
  shows "Underlying gts t \<in> T"
  using t by (cases t) (auto simp: Underlying_def dest: closed_typesD(4) [OF c])

lemma closed_list_elem:
  assumes c: "closed_types gts T" and t: "t \<in> T" and le: "list_elem gts t = (p, SliceT i e)"
  shows "strip_pointer e \<in> T"
proof -
  have u: "Underlying gts t \<in> T"
    by (rule closed_Underlying [OF c t])
  have "SliceT i e \<in> T"
  proof (cases "Underlying gts t")
    case (PointerT j x)
    then have "Underlying gts x \<in> T"
      using u closed_Underlying [OF c] closed_typesD(1) [OF c] by metis
    then show ?thesis
      using le PointerT by (simp add: list_elem_def)
  qed (use le u in \<open>simp_all add: list_elem_def\<close>)
  then show ?thesis
    by (rule closed_strip [OF c closed_typesD(3) [OF c]])
qed

lemma rank_bound:
  "ranked_types gts T rank B \<Longrightarrow> t \<in> T \<Longrightarrow> rank t \<le> B"
  unfolding ranked_types_def by blast

lemma basic_loop_ends:
  assumes "closed_types gts T" and "ranked_types gts T rank B"
  shows "t \<in> T \<Longrightarrow> rank t < fuel \<Longrightarrow>
    \<exists>n u. basic_loop gts fuel depth t = Some (n, u) \<and> u \<in> T \<and> rank u \<le> rank t"
proof (induction fuel arbitrary: t depth)
  case (Suc fuel)
  show ?case
  proof (cases t)
    case (PointerT i e)
    have e: "e \<in> T" "rank e < rank t"
      using Suc.prems(1) assms(2) closed_typesD(1) [OF assms(1)] unfolding PointerT ranked_types_def by blast+
    then obtain n u where "basic_loop gts fuel (depth + 1) e = Some (n, u)" "u \<in> T" "rank u \<le> rank e"
      using Suc.IH [of e "depth + 1"] Suc.prems(2) by auto
    then show ?thesis
      using e(2) PointerT by auto
  next
    case (NamedT a)
    have e: "gn_underlying (gts ! a) \<in> T" "rank (gn_underlying (gts ! a)) < rank t"
      using Suc.prems(1) assms(2) closed_typesD(4) [OF assms(1)] unfolding NamedT ranked_types_def by blast+
    then obtain n u where "basic_loop gts fuel depth (gn_underlying (gts ! a)) = Some (n, u)" "u \<in> T"
      "rank u \<le> rank (gn_underlying (gts ! a))"
      using Suc.IH [of "gn_underlying (gts ! a)" depth] Suc.prems(2) by auto
    then show ?thesis
      using e(2) NamedT by auto
  qed (use Suc.prems in auto)
qed simp

text \<open>Nothing but the recursion runs out of fuel.\<close>

lemma bind_result_NoFuel: "bind_result x f = NoFuel \<longleftrightarrow> x = NoFuel \<or> (\<exists>z. x = Built z \<and> f z = NoFuel)"
  by (cases x) auto

lemma check_field_fuel: "check_field gts n t \<noteq> NoFuel"
  by (auto simp: check_field_def Let_def split: go_type.splits option.splits prod.splits)

lemma find_arg_field_fuel: "find_arg_field gts e n flds acc \<noteq> NoFuel"
  by (induction gts e n flds acc rule: find_arg_field.induct) (auto simp: bind_result_NoFuel check_field_fuel)

lemma args_fields_fuel: "args_fields gts p flds args acc \<noteq> NoFuel"
  by (induction gts p flds args acc rule: args_fields.induct)
    (auto simp: bind_result_NoFuel find_arg_field_fuel Let_def split: ast_type.splits option.splits prod.splits)

lemma func_param_Built:
  assumes "func_param gts args t i res = Built r"
  obtains (ctxparam) "r = res\<lparr>fr_contextArg := i + 1\<rparr>"
  | (argparam) fs isPtr where "r = res\<lparr>fr_argsFields := fs, fr_argsArg := i + 1, fr_argsType := Some t, fr_argsIsPtr := isPtr\<rparr>"
  | (chanparam) j e where "t = ChanT j SendOnly e" "r = res\<lparr>fr_outputType := Some e, fr_outputChanArg := i + 1\<rparr>"
  using assms unfolding func_param_def bind_result_Built
  by (simp split: option.splits prod.splits go_type.splits if_splits add: bind_result_Built) blast+

lemma func_param_fuel: "func_param gts args t i res \<noteq> NoFuel"
  unfolding func_param_def
  by (simp add: bind_result_NoFuel args_fields_fuel split: option.splits prod.splits go_type.splits)

lemma func_params_fuel: "func_params gts args ts i res \<noteq> NoFuel"
  by (induction ts arbitrary: i res) (simp_all add: bind_result_NoFuel func_param_fuel)

lemma func_results_fuel: "func_results gts rs res \<noteq> NoFuel"
  by (auto simp: func_results_def split: list.splits if_splits)

lemma findResolverFunc_fuel: "findResolverFunc gts t n \<noteq> NoFuel"
  by (auto simp: findResolverFunc_def split: go_type.splits option.splits)

text \<open>The types that a function gives to its result.\<close>

lemma func_params_type:
  assumes "closed_types gts T"
  shows "func_params gts args ts i res = Built r \<Longrightarrow> set ts \<subseteq> T \<Longrightarrow> (\<And>u. fr_outputType res = Some u \<Longrightarrow> u \<in> T) \<Longrightarrow>
    fr_outputType r = Some out \<Longrightarrow> out \<in> T"
proof (induction ts arbitrary: i res)
  case (Cons t ts)
  obtain r1 where r1: "func_param gts args t i res = Built r1" "func_params gts args ts (i + 1) r1 = Built r"
    using Cons.prems(1) by (auto simp: bind_result_Built)
  have "u \<in> T" if "fr_outputType r1 = Some u" for u
    using r1(1)
  proof (cases rule: func_param_Built)
    case (chanparam j e)
    then have "ChanT j SendOnly u \<in> T"
      using that Cons.prems(2) by simp
    then show ?thesis
      by (rule closed_typesD(2) [OF assms])
  qed (use that Cons.prems(3) in simp_all)
  then show ?case
    using Cons.IH [OF r1(2)] Cons.prems(2,4) by simp
qed simp

lemma func_results_type:
  "func_results gts rs res = Built r \<Longrightarrow> set rs \<subseteq> T \<Longrightarrow> (\<And>u. fr_outputType res = Some u \<Longrightarrow> u \<in> T) \<Longrightarrow>
    fr_outputType r = Some out \<Longrightarrow> out \<in> T"
  by (auto simp: func_results_def split: list.splits if_splits)

lemma findResolverFunc_method:
  assumes "closed_types gts T" and "t \<in> T" and "findResolverFunc gts t n = Built f"
  shows "set (gf_params f) \<subseteq> T \<and> set (gf_results f) \<subseteq> T"
proof -
  obtain a where "t = NamedT a" "f \<in> set (gn_methods (gts ! a))"
    using assms(3) by (auto simp: findResolverFunc_def find_Some_iff split: go_type.splits option.splits)
  then show ?thesis
    using closed_typesD(5) [OF assms(1)] assms(2) by metis
qed

text \<open>The pairs of a definition and a type that are not in the table.\<close>

definition missing_pairs :: "analysis_env \<Rightarrow> go_type set \<Rightarrow> (typeResolverPair \<rightharpoonup> addr) \<Rightarrow> nat" where
  "missing_pairs env T reg = card {(d, t). d < length (en_defs env) \<and> t \<in> T \<and> reg (DefRef d, t) = None}"

definition keeps_keys :: "(typeResolverPair \<rightharpoonup> addr) \<Rightarrow> (typeResolverPair \<rightharpoonup> addr) \<Rightarrow> bool" where
  "keeps_keys reg reg' \<longleftrightarrow> (\<forall>p a. main_key p \<longrightarrow> reg p = Some a \<longrightarrow> reg' p = Some a)"

lemma keeps_keys_trans: "keeps_keys r r' \<Longrightarrow> keeps_keys r' r'' \<Longrightarrow> keeps_keys r r''"
  unfolding keeps_keys_def by blast

lemma grows_keeps_keys: "grows h r h' r' \<Longrightarrow> keeps_keys r r'"
  unfolding grows_def keeps_keys_def by blast

lemma finite_pairs: "finite T \<Longrightarrow> finite {(d, t). d < (n :: nat) \<and> t \<in> T \<and> P d t}"
  by (rule finite_subset [of _ "{..<n} \<times> T"]) auto

lemma missing_pairs_mono:
  assumes "finite T" and "keeps_keys reg reg'"
  shows "missing_pairs env T reg' \<le> missing_pairs env T reg"
  unfolding missing_pairs_def
proof (rule card_mono [OF finite_pairs [OF assms(1)]])
  have "reg (DefRef d, t) = None" if "reg' (DefRef d, t) = None" for d t
    using assms(2) that unfolding keeps_keys_def by (metis main_key.simps(1) option.exhaust option.distinct(1))
  then show "{(d, t). d < length (en_defs env) \<and> t \<in> T \<and> reg' (DefRef d, t) = None} \<subseteq>
      {(d, t). d < length (en_defs env) \<and> t \<in> T \<and> reg (DefRef d, t) = None}"
    by auto
qed

lemma missing_pairs_enter:
  assumes "finite T" and "d < length (en_defs env)" and "t \<in> T" and "reg (DefRef d, t) = None"
  shows "missing_pairs env T (reg((DefRef d, t) \<mapsto> a)) < missing_pairs env T reg"
  unfolding missing_pairs_def
  by (rule psubset_card_mono [OF finite_pairs [OF assms(1)]]) (use assms(2-4) in \<open>auto simp: psubset_eq set_eq_iff\<close>)

primrec node_ok :: "analysis_env \<Rightarrow> nat \<Rightarrow> ast_ref \<Rightarrow> bool" where
  "node_ok env depth (DefRef d) = (d < length (en_defs env))"
| "node_ok env depth (TypeRef loc u) = (type_refs_ok (length (en_defs env)) u \<and> type_depth u \<le> depth)"

primrec node_weight :: "nat \<Rightarrow> (go_type \<Rightarrow> nat) \<Rightarrow> go_type \<Rightarrow> ast_ref \<Rightarrow> nat" where
  "node_weight B rank t (DefRef d) = 0"
| "node_weight B rank t (TypeRef loc u) = type_depth u * (B + 1) + rank t"

lemma type_depth_pos: "0 < type_depth u"
  by (cases u) auto

lemma node_ref_ok:
  "type_refs_ok (length (en_defs env)) u \<Longrightarrow> type_depth u \<le> depth \<Longrightarrow> node_ok env depth (node_ref loc u)"
  by (cases u) (simp_all add: node_ref_def)

lemma node_ref_weight: "node_weight B rank t (node_ref loc u) \<le> type_depth u * (B + 1) + rank t"
  by (cases u) (simp_all add: node_ref_def)

lemma node_weight_bound: "node_ok env depth node \<Longrightarrow> rank t \<le> B \<Longrightarrow> node_weight B rank t node \<le> depth * (B + 1) + B"
proof (cases node)
  case (TypeRef loc u)
  assume "node_ok env depth node" "rank t \<le> B"
  then show ?thesis
    using mult_le_mono1 [of "type_depth u" depth "B + 1"] TypeRef by (simp add: add_le_mono)
qed simp

text \<open>A builder that ends on some nodes, from a table on.\<close>

definition ends_from :: "analysis_env \<Rightarrow> go_type set \<Rightarrow> (ast_ref \<Rightarrow> bool) \<Rightarrow> builder \<Rightarrow> (typeResolverPair \<rightharpoonup> addr) \<Rightarrow> bool" where
  "ends_from env T P rec reg \<longleftrightarrow>
     (\<forall>opened mb node t. inv_mb env opened mb \<longrightarrow> keeps_keys reg (mb_resolvers mb) \<longrightarrow> P node \<longrightarrow> t \<in> T \<longrightarrow>
        rec (node, t) mb \<noteq> NoFuel)"

lemma func_ends:
  assumes ends: "ends_from env T (node_ok env depth) rec reg" and c: "closed_types (en_types env) T"
    and inv: "inv_mb env opened mb" "keeps_keys reg (mb_resolvers mb)"
    and f: "findResolverFunc (en_types env) t n = Built f" "t \<in> T"
    and fld: "type_refs_ok (length (en_defs env)) (fd_type fieldt)" "type_depth (fd_type fieldt) \<le> depth"
  shows "buildFuncResolver env rec loc f fieldt mb \<noteq> NoFuel"
proof
  assume n: "buildFuncResolver env rec loc f fieldt mb = NoFuel"
  obtain r0 r1 where ps: "func_params (en_types env) (fd_arguments fieldt) (gf_params f) 0 (new_func (gf_name f)) = Built r0"
    "func_results (en_types env) (gf_results f) r0 = Built r1"
    using n by (auto simp: buildFuncResolver_def bind_result_NoFuel func_params_fuel func_results_fuel)
  obtain out where out: "fr_outputType r1 = Some out"
    using n by (cases "fr_outputType r1") (simp_all add: buildFuncResolver_def ps)
  have rc: "rec (result_ref loc (fd_type fieldt) (fr_outputChanArg r1 \<noteq> 0), strip_pointer out) mb = NoFuel"
    using n by (cases "rec (result_ref loc (fd_type fieldt) (fr_outputChanArg r1 \<noteq> 0), strip_pointer out) mb")
      (simp_all add: buildFuncResolver_def ps out Let_def split: prod.splits)
  have m: "set (gf_params f) \<subseteq> T" "set (gf_results f) \<subseteq> T"
    using findResolverFunc_method [OF c f(2,1)] by simp_all
  have "u \<in> T" if "fr_outputType r0 = Some u" for u
    by (rule func_params_type [OF c ps(1) m(1) _ that]) (simp add: new_func_def)
  then have "out \<in> T"
    using func_results_type [OF ps(2) m(2) _ out] by blast
  then have "strip_pointer out \<in> T"
    by (rule closed_strip [OF c])
  moreover have "node_ok env depth (result_ref loc (fd_type fieldt) (fr_outputChanArg r1 \<noteq> 0))"
    using fld by (cases "fd_type fieldt") (auto simp: result_ref_def intro!: node_ref_ok)
  ultimately show False
    using ends inv rc unfolding ends_from_def by blast
qed

lemma object_fields_ends:
  assumes ends: "ends_from env T (node_ok env depth) rec reg" and good: "good_builder env rec" and c: "closed_types (en_types env) T" "t \<in> T"
    and fs: "\<forall>f \<in> set flds. type_refs_ok (length (en_defs env)) (fd_type f) \<and> type_depth (fd_type f) \<le> depth"
  shows "inv_mb env (insert a opened) mb \<Longrightarrow> keeps_keys reg (mb_resolvers mb) \<Longrightarrow> mb_heap mb ! a = ObjectR r \<Longrightarrow>
    object_fields env rec t d a i flds mb \<noteq> NoFuel"
  using fs
proof (induction flds arbitrary: i mb r)
  case (Cons field flds)
  show ?case
  proof (cases "skipped_field field")
    case True
    have "object_fields env rec t d a (i + 1) flds mb \<noteq> NoFuel"
      by (rule Cons.IH [OF Cons.prems(1-3)]) (use Cons.prems(4) in simp)
    then show ?thesis
      using True by simp
  next
    case False
    let ?name = "the (fd_field_name field)"
    have "object_fields env rec t d a (i + 1) flds
        (set_object a (\<lambda>o'. o'\<lparr>ob_fieldResolvers := AList.update ?name (snd r1) (ob_fieldResolvers o'), ob_arrayFields := arr o'\<rparr>) (fst r1)) \<noteq> NoFuel"
      if f: "findResolverFunc (en_types env) t ?name = Built f" and r1: "buildFuncResolver env rec [d, i] f field mb = Built r1" for f r1 arr
    proof -
      note fb = func_builds [OF good Cons.prems(1) f r1]
      have a: "a < length (mb_heap mb)"
        using builder_invD(8) [OF Cons.prems(1)] by simp
      have a1: "mb_heap (fst r1) ! a = ObjectR r" "a < length (mb_heap (fst r1))"
        using fb a Cons.prems(3) grows_nth grows_length by (metis, metis order_less_le_trans)
      let ?r2 = "r\<lparr>ob_fieldResolvers := AList.update ?name (snd r1) (ob_fieldResolvers r), ob_arrayFields := arr r\<rparr>"
      have upd: "builder_inv env (insert a opened) ((mb_heap (fst r1))[a := ObjectR ?r2]) (mb_resolvers (fst r1))"
        using update_open [of env "insert a opened" "mb_heap (fst r1)" "mb_resolvers (fst r1)" a "ObjectR ?r2"] fb a1 by simp
      have k: "keeps_keys reg (mb_resolvers (fst r1))"
        using keeps_keys_trans [OF Cons.prems(2)] grows_keeps_keys fb by blast
      have "object_fields env rec t d a (i + 1) flds ((fst r1)\<lparr>mb_heap := (mb_heap (fst r1))[a := ObjectR ?r2]\<rparr>) \<noteq> NoFuel"
        by (rule Cons.IH [where r = ?r2]) (use upd k a1 Cons.prems(4) in simp_all)
      then show ?thesis
        by (simp add: set_object_def a1)
    qed
    moreover have "buildFuncResolver env rec [d, i] f field mb \<noteq> NoFuel" if "findResolverFunc (en_types env) t ?name = Built f" for f
      by (rule func_ends [OF ends c(1) Cons.prems(1,2) that c(2)]) (use Cons.prems(4) in simp_all)
    ultimately show ?thesis
      using False by (fastforce simp: bind_result_NoFuel findResolverFunc_fuel Let_def split: prod.splits if_splits)
  qed
qed simp


lemma object_ends:
  assumes ends: "ends_from env T (node_ok env depth) rec ((mb_resolvers mb)((DefRef d, t) \<mapsto> length (mb_heap mb)))"
    and good: "good_builder env rec" and inv: "inv_mb env opened mb" and c: "closed_types (en_types env) T" "t \<in> T"
    and new: "mb_resolvers mb (DefRef d, t) = None"
    and fs: "\<forall>f \<in> set flds. type_refs_ok (length (en_defs env)) (fd_type f) \<and> type_depth (fd_type f) \<le> depth"
  shows "buildObjectResolver env rec (DefRef d, t) d n flds mb \<noteq> NoFuel"
proof -
  let ?p = "(DefRef d, t)" and ?a = "length (mb_heap mb)"
  have "object_fields env rec t d ?a 0 flds (mb\<lparr>mb_heap := mb_heap mb @ [ObjectR r], mb_resolvers := (mb_resolvers mb)(?p \<mapsto> ?a),
      mb_imports := im\<rparr>) \<noteq> NoFuel" for r im
  proof (rule object_fields_ends [OF ends good c fs])
    show "inv_mb env (insert ?a opened) (mb\<lparr>mb_heap := mb_heap mb @ [ObjectR r], mb_resolvers := (mb_resolvers mb)(?p \<mapsto> ?a), mb_imports := im\<rparr>)"
      using enter_main [OF inv _ new, of "ObjectR r"] by simp
  qed (simp_all add: keeps_keys_def)
  then show ?thesis
    by (simp add: buildObjectResolver_def enter_pair_def alloc_def bind_result_NoFuel split: option.splits)
qed

lemma primitive_ends:
  assumes ends: "\<And>i dir e. basic_loop (en_types env) fuel 0 (Underlying (en_types env) t) = Some (n, ChanT i dir e) \<Longrightarrow>
      rec (gnode, e) mb \<noteq> NoFuel"
    and loop: "basic_loop (en_types env) fuel 0 (Underlying (en_types env) t) = Some (n, u)"
  shows "buildPrimitiveResolver env fuel rec t gnode name mb \<noteq> NoFuel"
  using ends by (auto simp: buildPrimitiveResolver_def loop buildChanValueResolver_def bind_result_NoFuel split: go_type.splits option.splits)


lemma list_ends:
  assumes ends: "ends_from env T (\<lambda>node. node = node_ref (loc @ [0]) u) rec ((mb_resolvers mb)((TypeRef loc (List u), t) \<mapsto> length (mb_heap mb)))"
    and inv: "inv_mb env opened mb" and c: "closed_types (en_types env) T" "t \<in> T"
    and new: "mb_resolvers mb (TypeRef loc (List u), t) = None"
  shows "buildListResolver env rec (TypeRef loc (List u), t) loc u mb \<noteq> NoFuel"
proof -
  let ?p = "(TypeRef loc (List u), t)" and ?a = "length (mb_heap mb)"
  have "rec (node_ref (loc @ [0]) u, strip_pointer e) (mb\<lparr>mb_heap := mb_heap mb @ [ListR x], mb_resolvers := (mb_resolvers mb)(?p \<mapsto> ?a)\<rparr>) \<noteq> NoFuel"
    if e: "list_elem (en_types env) t = (isPtr, SliceT i e)" for x isPtr i e
  proof -
    have "inv_mb env (insert ?a opened) (mb\<lparr>mb_heap := mb_heap mb @ [ListR x], mb_resolvers := (mb_resolvers mb)(?p \<mapsto> ?a)\<rparr>)"
      using enter_main [OF inv _ new, of "ListR x"] by simp
    moreover have "strip_pointer e \<in> T"
      by (rule closed_list_elem [OF c e])
    ultimately show ?thesis
      using ends unfolding ends_from_def by (simp add: keeps_keys_def)
  qed
  then show ?thesis
    by (auto simp: buildListResolver_def enter_pair_def alloc_def bind_result_NoFuel split: prod.splits go_type.splits)
qed


lemma rank_Underlying: "ranked_types gts T rank B \<Longrightarrow> t \<in> T \<Longrightarrow> rank (Underlying gts t) \<le> rank t"
  by (cases t) (auto simp: Underlying_def ranked_types_def intro: less_imp_le)

lemma rank_chan: "ranked_types gts T rank B \<Longrightarrow> ChanT i dir e \<in> T \<Longrightarrow> rank e < rank (ChanT i dir e)"
  unfolding ranked_types_def by blast

lemma buildResolver_ends:
  assumes c: "closed_types (en_types env) T" and rk: "ranked_types (en_types env) T rank B" and sch: "schema_refs_ok env depth"
  shows "inv_mb env opened mb \<Longrightarrow> t \<in> T \<Longrightarrow> node_ok env depth node \<Longrightarrow>
    missing_pairs env T (mb_resolvers mb) * (depth * (B + 1) + B + 1) + node_weight B rank t node < fuel \<Longrightarrow>
    buildResolver env fuel (node, t) mb \<noteq> NoFuel"
proof (induction fuel arbitrary: opened mb node t)
  case (Suc fuel)
  let ?K = "depth * (B + 1) + B + 1" and ?m = "missing_pairs env T (mb_resolvers mb)"
  have fin: "finite T"
    using c by (simp add: closed_types_def)
  have ends: "ends_from env T P (buildResolver env fuel) reg"
    if "\<And>node t. P node \<Longrightarrow> t \<in> T \<Longrightarrow> node_ok env depth node \<and> missing_pairs env T reg * ?K + node_weight B rank t node < fuel" for P reg
    unfolding ends_from_def
  proof (intro allI impI)
    fix opened mb' node t
    assume a: "inv_mb env opened mb'" "keeps_keys reg (mb_resolvers mb')" "P node" "t \<in> T"
    have "missing_pairs env T (mb_resolvers mb') * ?K \<le> missing_pairs env T reg * ?K"
      by (rule mult_le_mono1 [OF missing_pairs_mono [OF fin a(2)]])
    then show "buildResolver env fuel (node, t) mb' \<noteq> NoFuel"
      using that [OF a(3,4)] by (intro Suc.IH [OF a(1,4)]) simp_all
  qed
  show ?case
  proof (cases "mb_resolvers mb (node, t)")
    case None
    show ?thesis
    proof (cases node)
      case (DefRef d)
      let ?reg = "(mb_resolvers mb)((DefRef d, t) \<mapsto> length (mb_heap mb))"
      have d: "d < length (en_defs env)"
        using Suc.prems(3) DefRef by simp
      have "Suc (missing_pairs env T ?reg) * ?K \<le> ?m * ?K"
        by (intro mult_le_mono1 Suc_leI missing_pairs_enter [OF fin d Suc.prems(2)]) (use None DefRef in simp)
      then have w: "missing_pairs env T ?reg * ?K + w < fuel" if "w \<le> depth * (B + 1) + B" for w
        using Suc.prems(4) that by simp
      have e: "ends_from env T (node_ok env depth) (buildResolver env fuel) ?reg"
        by (rule ends) (use w node_weight_bound rank_bound [OF rk] in blast)
      show ?thesis
        using object_ends [OF e buildResolver_good Suc.prems(1) c Suc.prems(2)] None DefRef sch d
        by (auto simp: bind_result_NoFuel schema_refs_ok_def split: type_definition.splits)
    next
      case (TypeRef loc u)
      have same: "buildResolver env fuel (node', t') mb \<noteq> NoFuel"
        if "t' \<in> T" "node_ok env depth node'" "node_weight B rank t' node' < node_weight B rank t node" for node' t'
        by (rule Suc.IH [OF Suc.prems(1) that(1,2)]) (use that(3) Suc.prems(4) in simp)
      show ?thesis
      proof (cases u)
        case (Named n)
        have follow: "buildResolver env fuel (DefRef d, t) mb \<noteq> NoFuel" if "en_lookup env (Named n) = Some d" for d
          by (rule same [OF Suc.prems(2)]) (use that sch TypeRef Named in \<open>auto simp: schema_refs_ok_def\<close>)
        have t: "Underlying (en_types env) t \<in> T"
          by (rule closed_Underlying [OF c(1) Suc.prems(2)])
        have rt: "rank (Underlying (en_types env) t) \<le> rank t"
          by (rule rank_Underlying [OF rk Suc.prems(2)])
        obtain k v where loop: "basic_loop (en_types env) fuel 0 (Underlying (en_types env) t) = Some (k, v)" "v \<in> T" "rank v \<le> rank t"
          using basic_loop_ends [OF c(1) rk t, of fuel 0] rt Suc.prems(4) TypeRef Named by auto
        have "buildPrimitiveResolver env fuel (buildResolver env fuel) t (TypeRef loc (Named n)) name mb \<noteq> NoFuel" for name
        proof (rule primitive_ends [OF _ loop(1)])
          fix i dir e
          assume "basic_loop (en_types env) fuel 0 (Underlying (en_types env) t) = Some (k, ChanT i dir e)"
          then have ch: "ChanT i dir e \<in> T" "rank (ChanT i dir e) \<le> rank t"
            using loop by simp_all
          have "e \<in> T" "rank e < rank t"
            using closed_typesD(2) [OF c(1) ch(1)] order_less_le_trans [OF rank_chan [OF rk ch(1)] ch(2)] by simp_all
          then show "buildResolver env fuel (TypeRef loc (Named n), e) mb \<noteq> NoFuel"
            by (intro same) (use Suc.prems(3) TypeRef Named in simp_all)
        qed
        then show ?thesis
          using follow None TypeRef Named
          by (auto simp: buildFollowResolver_def simp del: IsAstPrimitive.simps split: option.splits)
      next
        case (List v)
        have "ends_from env T (\<lambda>node. node = node_ref (loc @ [0]) v) (buildResolver env fuel)
            ((mb_resolvers mb)((TypeRef loc (List v), t) \<mapsto> length (mb_heap mb)))"
        proof (rule ends)
          fix node' t'
          assume a: "node' = node_ref (loc @ [0]) v" "t' \<in> T"
          have "missing_pairs env T ((mb_resolvers mb)((TypeRef loc (List v), t) \<mapsto> length (mb_heap mb))) = ?m"
            by (simp add: missing_pairs_def)
          then show "node_ok env depth node' \<and> missing_pairs env T
              ((mb_resolvers mb)((TypeRef loc (List v), t) \<mapsto> length (mb_heap mb))) * ?K + node_weight B rank t' node' < fuel"
            using node_ref_ok [of env v depth "loc @ [0]"] node_ref_weight [of B rank t' "loc @ [0]" v] rank_bound [OF rk a(2)]
              Suc.prems(3,4) TypeRef List a(1) by simp
        qed
        then show ?thesis
          using list_ends [OF _ Suc.prems(1) c Suc.prems(2)] None TypeRef List by (auto simp: bind_result_NoFuel)
      next
        case (NonNull v)
        have "buildResolver env fuel (node_ref (loc @ [0]) v, t) mb \<noteq> NoFuel"
          using node_ref_weight [of B rank t "loc @ [0]" v] Suc.prems(3) TypeRef NonNull
          by (intro same [OF Suc.prems(2) node_ref_ok]) simp_all
        then show ?thesis
          using None TypeRef NonNull by (auto simp: bind_result_NoFuel)
      qed (use None TypeRef in simp_all)
    qed
  qed simp
qed simp

text \<open>More fuel does not change a result.\<close>

definition extends_builder :: "builder \<Rightarrow> builder \<Rightarrow> bool" where
  "extends_builder rec rec' \<longleftrightarrow> (\<forall>p mb. rec p mb \<noteq> NoFuel \<longrightarrow> rec' p mb = rec p mb)"

lemma extends_builderD: "extends_builder rec rec' \<Longrightarrow> rec p mb \<noteq> NoFuel \<Longrightarrow> rec' p mb = rec p mb"
  unfolding extends_builder_def by blast

lemma bind_result_extends:
  "bind_result x f \<noteq> NoFuel \<Longrightarrow> (x \<noteq> NoFuel \<Longrightarrow> x' = x) \<Longrightarrow> (\<And>z. x = Built z \<Longrightarrow> f z \<noteq> NoFuel \<Longrightarrow> g z = f z) \<Longrightarrow>
    bind_result x' g = bind_result x f"
  by (cases x) auto

lemma basic_loop_extends: "basic_loop gts fuel depth t = Some r \<Longrightarrow> basic_loop gts (Suc fuel) depth t = Some r"
proof (induction fuel arbitrary: depth t)
  case (Suc fuel)
  show ?case
  proof (cases t)
    case (PointerT i e)
    have "basic_loop gts (Suc fuel) (depth + 1) e = Some r"
      by (rule Suc.IH) (use Suc.prems PointerT in simp)
    then show ?thesis
      unfolding PointerT by (subst basic_loop.simps(2)) (simp only: go_type.case)
  next
    case (NamedT a)
    have "basic_loop gts (Suc fuel) depth (gn_underlying (gts ! a)) = Some r"
      by (rule Suc.IH) (use Suc.prems NamedT in simp)
    then show ?thesis
      unfolding NamedT by (subst basic_loop.simps(2)) (simp only: go_type.case)
  qed (use Suc.prems in simp_all)
qed simp

lemma primitive_extends:
  assumes "extends_builder rec rec'" and n: "buildPrimitiveResolver env fuel rec t gnode name mb \<noteq> NoFuel"
  shows "buildPrimitiveResolver env (Suc fuel) rec' t gnode name mb = buildPrimitiveResolver env fuel rec t gnode name mb"
proof -
  obtain k u where loop: "basic_loop (en_types env) fuel 0 (Underlying (en_types env) t) = Some (k, u)"
    using n by (cases "basic_loop (en_types env) fuel 0 (Underlying (en_types env) t)") (auto simp: buildPrimitiveResolver_def)
  have ch: "buildChanValueResolver rec' dir e u gnode mb = buildChanValueResolver rec dir e u gnode mb"
    if "buildChanValueResolver rec dir e u gnode mb \<noteq> NoFuel" for dir e
    using that extends_builderD [OF assms(1), of "(gnode, e)" mb] by (auto simp: buildChanValueResolver_def bind_result_NoFuel)
  show ?thesis
    using n ch by (cases u) (simp_all add: buildPrimitiveResolver_def loop basic_loop_extends [OF loop] del: basic_loop.simps)
qed

lemma follow_extends:
  assumes "extends_builder rec rec'" and "buildFollowResolver env fuel rec t loc n mb \<noteq> NoFuel"
  shows "buildFollowResolver env (Suc fuel) rec' t loc n mb = buildFollowResolver env fuel rec t loc n mb"
  using assms(2) primitive_extends [OF assms(1)] extends_builderD [OF assms(1)]
  unfolding buildFollowResolver_def by (auto simp del: IsAstPrimitive.simps split: option.splits)

lemma list_extends:
  assumes "extends_builder rec rec'" and "buildListResolver env rec p loc u mb \<noteq> NoFuel"
  shows "buildListResolver env rec' p loc u mb = buildListResolver env rec p loc u mb"
  using assms(2) extends_builderD [OF assms(1)]
  by (auto simp: buildListResolver_def bind_result_NoFuel split: prod.splits go_type.splits intro: bind_result_extends)

lemma func_extends:
  assumes "extends_builder rec rec'" and "buildFuncResolver env rec loc f fieldt mb \<noteq> NoFuel"
  shows "buildFuncResolver env rec' loc f fieldt mb = buildFuncResolver env rec loc f fieldt mb"
  unfolding buildFuncResolver_def
proof (intro bind_result_extends refl)
  fix res1 res2
  let ?c = "\<lambda>rec. case fr_outputType res2 of
      None \<Rightarrow> Crashed
    | Some outputType \<Rightarrow>
        let res = res2\<lparr>fr_outputIsList := is_list (fd_type fieldt)\<rparr>
        in (case rec (result_ref loc (fd_type fieldt) (fr_outputChanArg res \<noteq> 0), strip_pointer outputType) mb of
              Failed e \<Rightarrow> Failed (Wrapped ''build result resolver'' e)
            | Built (mb', r) \<Rightarrow> Built (alloc (FuncR (res\<lparr>fr_resultResolver := r\<rparr>)) mb')
            | e \<Rightarrow> e)"
  assume "?c rec \<noteq> NoFuel"
  then have "rec (result_ref loc (fd_type fieldt) (fr_outputChanArg res2 \<noteq> 0), strip_pointer out) mb \<noteq> NoFuel"
    if "fr_outputType res2 = Some out" for out
    using that by (auto simp: Let_def)
  then show "?c rec' = ?c rec"
    using extends_builderD [OF assms(1)] by (simp add: Let_def split: option.splits)
qed (use assms(2) in \<open>simp_all add: buildFuncResolver_def\<close>)

lemma object_fields_extends:
  assumes "extends_builder rec rec'"
  shows "object_fields env rec t d a i flds mb \<noteq> NoFuel \<Longrightarrow> object_fields env rec' t d a i flds mb = object_fields env rec t d a i flds mb"
proof (induction flds arbitrary: i mb)
  case (Cons field flds)
  show ?case
  proof (cases "skipped_field field")
    case False
    let ?name = "the (fd_field_name field)"
    show ?thesis
      using False Cons.prems unfolding object_fields.simps Let_def
      by (simp, intro bind_result_extends refl)
        (auto intro!: Cons.IH func_extends [OF assms])
  qed (use Cons in simp)
qed simp

lemma object_extends:
  assumes "extends_builder rec rec'" and "buildObjectResolver env rec p d n flds mb \<noteq> NoFuel"
  shows "buildObjectResolver env rec' p d n flds mb = buildObjectResolver env rec p d n flds mb"
  using assms(2) object_fields_extends [OF assms(1)]
  by (auto simp: buildObjectResolver_def bind_result_NoFuel split: option.splits prod.splits intro!: bind_result_extends)

lemma buildResolver_extends: "extends_builder (buildResolver env fuel) (buildResolver env (Suc fuel))"
proof (induction fuel)
  case (Suc fuel)
  show ?case
    unfolding extends_builder_def
  proof (intro allI impI)
    fix p :: typeResolverPair and mb
    assume n: "buildResolver env (Suc fuel) p mb \<noteq> NoFuel"
    obtain node t where p: "p = (node, t)"
      by (cases p)
    define rec where "rec = buildResolver env fuel"
    define rec' where "rec' = buildResolver env (Suc fuel)"
    have ext: "extends_builder rec rec'"
      unfolding rec_def rec'_def by (rule Suc.IH)
    note s1 = buildResolver.simps(2) [of env fuel p mb, folded rec_def]
      and s2 = buildResolver.simps(2) [of env "Suc fuel" p mb, folded rec'_def]
    show "buildResolver env (Suc (Suc fuel)) p mb = buildResolver env (Suc fuel) p mb"
    proof (cases "mb_resolvers mb p")
      case None
      show ?thesis
        using n object_extends [OF ext] follow_extends [OF ext] list_extends [OF ext] extends_builderD [OF ext]
        unfolding s1 s2 None option.case
        by (auto simp: p split: ast_ref.splits ast_type.splits type_definition.splits intro!: bind_result_extends)
    qed (simp only: s1 s2 option.case)
  qed
qed (simp add: extends_builder_def)

lemma buildResolver_fuel:
  assumes "fuel \<le> fuel'" and "buildResolver env fuel p mb \<noteq> NoFuel"
  shows "buildResolver env fuel' p mb = buildResolver env fuel p mb"
  using assms(1)
proof (induction fuel' rule: dec_induct)
  case (step n)
  then show ?case
    using extends_builderD [OF buildResolver_extends] assms(2) by metis
qed simp

subsection \<open>Properties\<close>

definition simple_set :: "go_type set" where
  "simple_set = {NamedT 0, NamedT 1, NamedT 2, NamedT 3, StructT 0 [], StructT 4 [], OtherT 5, OtherT 6,
     ChanT 1 SendOnly (BasicT Kind_String ''string''), BasicT Kind_String ''string'', BasicT Kind_Int ''int'',
     SliceT 2 (PointerT 3 (NamedT 1)), PointerT 3 (NamedT 1)}"

fun simple_rank :: "go_type \<Rightarrow> nat" where
  "simple_rank (NamedT a) = 1"
| "simple_rank (PointerT i e) = 2"
| "simple_rank (ChanT i d e) = 1"
| "simple_rank t = 0"

lemma simple_closed: "closed_types simple_types simple_set"
  by (simp add: closed_types_def simple_types_def simple_set_def)

lemma simple_ranked: "ranked_types simple_types simple_set simple_rank 2"
  by (auto simp: ranked_types_def simple_types_def simple_set_def)

lemma simple_refs: "schema_refs_ok simple_env 2"
  by (auto simp: schema_refs_ok_def simple_env_def simple_defs_def less_Suc_eq nth_Cons' numeral_2_eq_2)

lemma missing_pairs_bound:
  assumes "finite T"
  shows "missing_pairs env T reg \<le> length (en_defs env) * card T"
proof -
  have "missing_pairs env T reg \<le> card ({..<length (en_defs env)} \<times> T)"
    unfolding missing_pairs_def by (rule card_mono) (use assms in auto)
  then show ?thesis
    by (simp only: card_cartesian_product card_lessThan)
qed

lemma BuildModel_ends:
  assumes c: "closed_types (en_types env) T" and rk: "ranked_types (en_types env) T rank B" and sch: "schema_refs_ok env depth"
    and d: "d < length (en_defs env)" and t: "t \<in> T" and fuel: "length (en_defs env) * card T * (depth * (B + 1) + B + 1) < fuel"
  shows "BuildModel env fuel rorder iorder (Some d) (Some t) \<noteq> NoFuel"
proof -
  have "missing_pairs env T (mb_resolvers newModelBuilder) * (depth * (B + 1) + B + 1) \<le>
      length (en_defs env) * card T * (depth * (B + 1) + B + 1)"
    by (intro mult_le_mono1 missing_pairs_bound) (use c in \<open>simp add: closed_types_def\<close>)
  then have "buildResolver env fuel (DefRef d, t) newModelBuilder \<noteq> NoFuel"
    by (intro buildResolver_ends [OF c rk sch new_builder_inv t]) (use d fuel in simp_all)
  then show ?thesis
    by (auto simp: BuildModel_def bind_result_NoFuel split: prod.splits)
qed

lemma BuildModel_fuel:
  assumes "fuel \<le> fuel'" and "BuildModel env fuel rorder iorder d t \<noteq> NoFuel"
  shows "BuildModel env fuel' rorder iorder d t = BuildModel env fuel rorder iorder d t"
  using assms(2) buildResolver_fuel [OF assms(1)] by (auto simp: BuildModel_def bind_result_NoFuel split: option.splits)



text \<open>A Go type that is a pointer to itself, \<open>type P *P\<close>: the loop through the pointers does not end.\<close>

definition pointer_cycle_env :: analysis_env where
  "pointer_cycle_env =
     \<lparr>en_defs = [ObjectDefinition (Some ''RootQuery'') [FieldDefinition (Some ''p'') [] (Named (Some ''String''))]], en_lookup = (\<lambda>_. None),
      en_types =
        [\<lparr>gn_name = ''Root'', gn_pkg = Some (''simple'', ''simple''), gn_underlying = StructT 0 [],
          gn_methods = [\<lparr>gf_name = ''P'', gf_params = [], gf_results = [NamedT 1]\<rparr>]\<rparr>,
         \<lparr>gn_name = ''P'', gn_pkg = Some (''simple'', ''simple''), gn_underlying = PointerT 1 (NamedT 1), gn_methods = []\<rparr>]\<rparr>"

lemma pointer_cycle_loop:
  "basic_loop (en_types pointer_cycle_env) fuel n (NamedT 1) = None \<and> basic_loop (en_types pointer_cycle_env) fuel n (PointerT 1 (NamedT 1)) = None"
  by (induction fuel arbitrary: n) (simp_all add: pointer_cycle_env_def)

lemma string_primitive: "IsPrimitive ''String''"
  by code_simp

lemma pointer_cycle_never_ends:
  assumes new: "mb_resolvers mb (TypeRef loc (Named (Some ''String'')), NamedT 1) = None"
  shows "buildResolver pointer_cycle_env fuel (TypeRef loc (Named (Some ''String'')), NamedT 1) mb = NoFuel"
proof (cases fuel)
  case (Suc n)
  have "Underlying (en_types pointer_cycle_env) (NamedT 1) = PointerT 1 (NamedT 1)"
    by (simp add: Underlying_def pointer_cycle_env_def)
  then show ?thesis
    using new pointer_cycle_loop [of n 0] string_primitive
    by (simp add: Suc buildFollowResolver_def buildPrimitiveResolver_def)
qed simp

end
