(* ===== verification/CodeGen.thy ===== *)
theory CodeGen
  imports Analysis Resolver
begin

text \<open>
  The generators of \<open>analysis/resolve-*.go\<close> and of \<open>analysis/model.go\<close>: the Go statements and
  declarations that a model stands for. The generator of a resolver calls the generators of the
  resolvers that it points to; \<open>fuel\<close> bounds the depth. The order of the range over the argument
  fields is the parameter \<open>aorder\<close>, and that over the fields of an object is \<open>forder\<close>.
\<close>

subsection \<open>Names (resolve-func.go, resolver.go)\<close>

abbreviation (input) resolverPkg :: string where "resolverPkg \<equiv> ''resolver''"
abbreviation (input) outChRef :: string where "outChRef \<equiv> ''outCh''"
abbreviation (input) rctxRef :: string where "rctxRef \<equiv> ''rctx''"
abbreviation (input) vctxRef :: string where "vctxRef \<equiv> ''vctx''"
abbreviation (input) errChRef :: string where "errChRef \<equiv> ''errCh''"
abbreviation (input) ctxRef :: string where "ctxRef \<equiv> ''ctx''"
abbreviation (input) argsRef :: string where "argsRef \<equiv> ''rargs''"
abbreviation (input) resolverObjRef :: string where "resolverObjRef \<equiv> ''r''"
abbreviation (input) resultIndexRef :: string where "resultIndexRef \<equiv> ''ri''"
abbreviation (input) argVarRef :: string where "argVarRef \<equiv> ''argVar''"

definition context_type :: go_expr where
  "context_type = StarExpr (Selector (Ident resolverPkg) ''Context'')"

subsection \<open>Primitives (resolve-primitive.go)\<close>

text \<open>\<open>strconv.Itoa\<close>, on indices.\<close>

fun digits :: "nat \<Rightarrow> string" where
  "digits n = (if n < 10 then [char_of (48 + n)] else digits (n div 10) @ [char_of (48 + n mod 10)])"

definition val_ref :: "nat \<Rightarrow> string" where
  "val_ref i = (if i = 0 then ''v'' else ''v'' @ digits i)"

text \<open>One pointer: the check for nil and the value behind it.\<close>

definition deref_stmts :: "nat \<Rightarrow> go_stmt list" where
  "deref_stmts i =
     [IfStmt None (Binary (Ident (val_ref i)) EQL (Ident ''nil''))
        [ReturnStmt [Call (Selector (Ident resolverPkg) ''BuildNullValue'') []]],
      AssignStmt [Ident (val_ref (i + 1))] DEFINE [StarExpr (Ident (val_ref i))]]"

definition convert_stmts :: "nat \<Rightarrow> string \<Rightarrow> go_stmt list" where
  "convert_stmts i target =
     (if target = ''int32''
      then [IfStmt None (Binary (Binary (Ident (val_ref i)) GTR (Ident ''math.MaxInt32'')) LOR
                           (Binary (Ident (val_ref i)) LSS (Ident ''math.MinInt32'')))
              [ExprStmt (Call (Selector (Ident resolverPkg) ''ResolveValOverflowError'') [Ident rctxRef]), ReturnStmt []]]
      else []) @
     [AssignStmt [Ident (val_ref (i + 1))] DEFINE [Call (Paren (Ident target)) [Ident (val_ref i)]]]"

definition primitive_value_stmts :: "string \<Rightarrow> go_expr list \<Rightarrow> go_stmt list" where
  "primitive_value_stmts buildValFn args =
     [ExprStmt (Call (Selector (Ident resolverPkg) ''ResolveValue'')
        [Ident rctxRef, Ident ''true'',
         FuncLit [] [([], StarExpr (Selector (Ident resolverPkg) ''Value''))]
           [ReturnStmt [Call (Selector (Ident resolverPkg) buildValFn) args]]])]"

definition primitive_ref :: "primitiveResolver \<Rightarrow> go_stmt list build_result" where
  "primitive_ref r =
     (let n = pr_ptrDepth r;
          m = (if pr_convertTo r = None then n else n + 1);
          buildValFn = GetPrimValueFuncName (pr_primKind r)
      in if buildValFn = '''' then Failed UnrecognizedPrimitiveKind
         else Built (concat (map deref_stmts [0 ..< n]) @
           (case pr_convertTo r of None \<Rightarrow> [] | Some target \<Rightarrow> convert_stmts n target) @
           primitive_value_stmts buildValFn
             (if pr_primKind r \<noteq> PRIMITIVE_KIND_NULL then [Ident (val_ref m)] else [])))"

subsection \<open>Lists (resolve-list.go)\<close>

definition list_ref :: "go_stmt list \<Rightarrow> go_stmt list" where
  "list_ref rvs =
     [ExprStmt (Call (Selector (Ident resolverPkg) ''ResolveSlice'')
        [Ident rctxRef, Call (Ident ''len'') [Ident ''v''],
         FuncLit [([rctxRef], context_type), ([''i''], Ident ''int'')] []
           (AssignStmt [Ident ''v''] DEFINE [IndexExpr (Ident ''v'') (Ident ''i'')] # rvs)])]"

subsection \<open>Arguments of functions (resolve-func-args.go)\<close>

definition generateFuncParams :: "funcResolver \<Rightarrow> (nat \<times> go_expr) list" where
  "generateFuncParams r =
     sort_key fst
       ((if fr_outputChanArg r \<noteq> 0 then [(fr_outputChanArg r - 1, Ident outChRef)] else []) @
        (if fr_contextArg r \<noteq> 0 then [(fr_contextArg r - 1, Ident ctxRef)] else []) @
        (if fr_argsArg r \<noteq> 0 then [(fr_argsArg r - 1, Ident argsRef)] else []))"

definition arg_setter :: "string \<times> funcArgField \<Rightarrow> go_stmt" where
  "arg_setter a =
     (case a of (fieldName, arg) \<Rightarrow>
        IfStmt (Some (AssignStmt [Ident argVarRef] DEFINE
                  [Call (Selector (Ident rctxRef) ''GetQueryArgument'') [StringLit fieldName]]))
          (Binary (Ident argVarRef) NEQ (Ident ''nil''))
          [AssignStmt [Ident ''val''] DEFINE
             [Call (Selector (Call (Selector (Ident argVarRef) ''GetValue'') []) ''GetStringValue'') []],
           AssignStmt [Selector (Ident argsRef) (af_fieldName arg)] ASSIGN [Ident ''val'']])"

definition generateArgsConstructor :: "go_types \<Rightarrow> ((string \<times> funcArgField) list \<Rightarrow> (string \<times> funcArgField) list) \<Rightarrow>
    funcResolver \<Rightarrow> go_stmt list build_result" where
  "generateArgsConstructor gts aorder r =
     (case fr_argsType r of
        None \<Rightarrow> Crashed
      | Some t \<Rightarrow>
          (case buildGoTypeReferenceExpr gts t of
             None \<Rightarrow> Failed UnknownGoType
           | Some e \<Rightarrow>
               let typ = (case e of StarExpr x \<Rightarrow> x | _ \<Rightarrow> e)
               in Built (AssignStmt [Ident argsRef] DEFINE [Unary ADDRESS (CompositeLit typ)] #
                    map arg_setter (aorder (fr_argsFields r)))))"

subsection \<open>Channels of functions (resolve-func-outch.go)\<close>

definition make_chan :: "string \<Rightarrow> go_expr \<Rightarrow> go_expr list \<Rightarrow> go_stmt" where
  "make_chan ref elem cap =
     AssignStmt [Ident ref] DEFINE [Call (Ident ''make'') (ChanType True elem # cap)]"

text \<open>The goroutine that calls the resolver function.\<close>

definition call_stmt :: "funcResolver \<Rightarrow> go_expr \<Rightarrow> go_stmt" where
  "call_stmt r resolverCallExpr =
     GoStmt (Call (FuncLit [] []
       [if fr_returnsError r then SendStmt (Ident errChRef) resolverCallExpr else ExprStmt resolverCallExpr]) [])"

text \<open>What is done to the context before a value is resolved.\<close>

definition value_context_stmts :: "funcResolver \<Rightarrow> go_stmt list" where
  "value_context_stmts r =
     (if fr_outputIsList r
      then [AssignStmt [Ident rctxRef] DEFINE [Call (Selector (Ident rctxRef) ''ArrayChild'') [Ident resultIndexRef]],
            IncStmt (Ident resultIndexRef)]
      else [IfStmt None (Binary (Ident vctxRef) NEQ (Ident ''nil'')) [ExprStmt (Call (Selector (Ident vctxRef) ''Purge'') [])],
            AssignStmt [Ident vctxRef] ASSIGN [Call (Selector (Ident rctxRef) ''VirtualChild'') []],
            AssignStmt [Ident rctxRef] DEFINE [Ident vctxRef]])"

definition comm_clauses :: "funcResolver \<Rightarrow> go_stmt list \<Rightarrow> go_stmt list" where
  "comm_clauses r resolveResultStmts =
     [CommClause (ExprStmt (Unary ARROW (Call (Selector (Ident ctxRef) ''Done'') []))) [ReturnStmt []],
      CommClause (AssignStmt [Ident ''v''] DEFINE [Unary ARROW (Ident outChRef)])
        (value_context_stmts r @ resolveResultStmts)] @
     (if fr_returnsError r
      then [CommClause (AssignStmt [Ident ''err''] DEFINE [Unary ARROW (Ident errChRef)])
              [ExprStmt (Call (Selector (Ident resolverPkg) ''ResolveError'') [Ident rctxRef, Ident ''err'']), ReturnStmt []]]
      else [])"

definition generateOutputChanProcessor :: "go_types \<Rightarrow> funcResolver \<Rightarrow> go_expr \<Rightarrow> go_stmt list \<Rightarrow> go_stmt list build_result" where
  "generateOutputChanProcessor gts r resolverCallExpr resolveResultStmts =
     (case fr_outputType r of
        None \<Rightarrow> Crashed
      | Some t \<Rightarrow>
          (case buildGoTypeReferenceExpr gts t of
             None \<Rightarrow> Failed UnknownGoType
           | Some refExpr \<Rightarrow>
               Built ([make_chan outChRef refExpr []] @
                 (if fr_returnsError r then [make_chan errChRef (Ident ''error'') [Ident ''1'']] else []) @
                 [call_stmt r resolverCallExpr] @
                 (if fr_outputIsList r then [VarDecl resultIndexRef (Ident ''uint32'')] else []) @
                 [ForStmt [SelectStmt (comm_clauses r resolveResultStmts)]])))"

subsection \<open>Functions (resolve-func.go)\<close>

definition context_stmts :: "funcResolver \<Rightarrow> go_stmt list" where
  "context_stmts r =
     (if fr_contextArg r \<noteq> 0
      then AssignStmt [Ident ctxRef] DEFINE [Selector (Ident rctxRef) ''Context''] #
           (if fr_outputIsList r then [] else [VarDecl ''vctx'' context_type])
      else [])"

text \<open>The call of a function without a channel, and the check of its error.\<close>

definition direct_stmts :: "funcResolver \<Rightarrow> go_expr \<Rightarrow> go_stmt list" where
  "direct_stmts r resolverCallExpr =
     AssignStmt (Ident ''v'' # (if fr_returnsError r then [Ident ''err''] else [])) DEFINE [resolverCallExpr] #
     (if fr_returnsError r
      then [IfStmt None (Binary (Ident ''err'') NEQ (Ident ''nil''))
              [ExprStmt (Call (Selector (Ident resolverPkg) ''ResolveError'') [Ident rctxRef, Ident ''err'']), ReturnStmt []]]
      else [])"

definition func_ref :: "go_types \<Rightarrow> ((string \<times> funcArgField) list \<Rightarrow> (string \<times> funcArgField) list) \<Rightarrow>
    funcResolver \<Rightarrow> go_stmt list \<Rightarrow> go_stmt list build_result" where
  "func_ref gts aorder r resolveResultStmts =
     (let resolverCallExpr = Call (Selector (Ident resolverObjRef) (fr_fieldName r)) (map snd (generateFuncParams r))
      in bind_result (if fr_argsArg r \<noteq> 0 then generateArgsConstructor gts aorder r else Built [])
        (\<lambda>argsStmts.
           if fr_outputChanArg r \<noteq> 0
           then bind_result (generateOutputChanProcessor gts r resolverCallExpr resolveResultStmts)
                  (\<lambda>stmts. Built (argsStmts @ context_stmts r @ stmts))
           else Built (argsStmts @ context_stmts r @ direct_stmts r resolverCallExpr @ resolveResultStmts)))"

subsection \<open>GenerateGoASTRef\<close>

definition object_ref :: "objectResolver \<Rightarrow> go_stmt list" where
  "object_ref r = [GoStmt (Call (Ident (ob_goGenResolverFuncName r)) [Ident rctxRef, Ident ''v''])]"

primrec GenerateGoASTRef :: "go_types \<Rightarrow> ((string \<times> funcArgField) list \<Rightarrow> (string \<times> funcArgField) list) \<Rightarrow>
    Resolver list \<Rightarrow> nat \<Rightarrow> addr \<Rightarrow> go_stmt list build_result" where
  "GenerateGoASTRef gts aorder heap 0 a = NoFuel"
| "GenerateGoASTRef gts aorder heap (Suc fuel) a =
     (case heap ! a of
        PrimR r \<Rightarrow> primitive_ref r
      | ObjectR r \<Rightarrow> Built (object_ref r)
      | ListR r \<Rightarrow>
          (case lr_elemResolver r of
             None \<Rightarrow> Crashed
           | Some e \<Rightarrow> bind_result (GenerateGoASTRef gts aorder heap fuel e) (\<lambda>rvs. Built (list_ref rvs)))
      | FuncR r \<Rightarrow> bind_result (GenerateGoASTRef gts aorder heap fuel (fr_resultResolver r)) (func_ref gts aorder r))"

subsection \<open>GenerateGoASTDecls (resolve-object.go)\<close>

text \<open>\<open>strconv.Quote\<close>, of the name of a field, which needs no escapes.\<close>

definition quoted :: "string \<Rightarrow> string" where
  "quoted s = CHR 0x22 # s @ [CHR 0x22]"

definition field_func :: "go_stmt list \<Rightarrow> go_expr" where
  "field_func stmts = FuncLit [([''rctx''], context_type)] [] stmts"

text \<open>The elements of the field map, in the order of the range.\<close>

fun field_elts :: "go_types \<Rightarrow> ((string \<times> funcArgField) list \<Rightarrow> (string \<times> funcArgField) list) \<Rightarrow> Resolver list \<Rightarrow> nat \<Rightarrow>
    (string \<times> addr) list \<Rightarrow> (string \<times> go_expr) list build_result" where
  "field_elts gts aorder heap fuel [] = Built []"
| "field_elts gts aorder heap fuel ((name, a) # rest) =
     (case GenerateGoASTRef gts aorder heap fuel a of
        Failed e \<Rightarrow> Failed (Wrapped (''unable to build field '' @ name) e)
      | Built stmts \<Rightarrow>
          bind_result (field_elts gts aorder heap fuel rest) (\<lambda>elts. Built ((quoted name, field_func stmts) # elts))
      | Crashed \<Rightarrow> Crashed
      | NoFuel \<Rightarrow> NoFuel)"

definition nil_check :: go_stmt where
  "nil_check = IfStmt None (Binary (Ident ''r'') EQL (Ident ''nil''))
     [ExprStmt (Call (Selector (Ident ''rctx'') ''WriteValue'')
        [Call (Selector (Ident ''resolver'') ''BuildNullValue'') [], Ident ''true'']), ReturnStmt []]"

definition case_clause :: "string \<times> go_expr \<Rightarrow> go_stmt" where
  "case_clause kv = CaseClause [StringLit (fst kv)] [AssignStmt [Ident ''fieldResolver''] ASSIGN [snd kv]]"

definition resolve_object_stmt :: "(string \<times> go_expr) list \<Rightarrow> go_stmt" where
  "resolve_object_stmt elts =
     ExprStmt (Call (Selector (Ident ''resolver'') ''ResolveObject'')
       [Ident ''rctx'',
        FuncLit [([''fieldName''], Ident ''string'')] [([], Selector (Ident ''resolver'') ''FieldResolver'')]
          [VarDecl ''fieldResolver'' (Selector (Ident ''resolver'') ''FieldResolver''),
           SwitchStmt (Ident ''fieldName'') (map case_clause elts),
           ReturnStmt [Ident ''fieldResolver'']]])"

definition object_decl :: "go_types \<Rightarrow> objectResolver \<Rightarrow> (string \<times> go_expr) list \<Rightarrow> go_decl build_result" where
  "object_decl gts r elts =
     (case gn_pkg (gts ! ob_goTypeName r) of
        None \<Rightarrow> Crashed
      | Some (path, pkg) \<Rightarrow>
          Built (FuncDecl (ob_goGenResolverFuncName r)
            [([''rctx''], context_type),
             ([''r''], StarExpr (Selector (Ident pkg) (gn_name (gts ! ob_goTypeName r))))]
            [nil_check, resolve_object_stmt (sort_key fst elts)]))"

definition GenerateGoASTDecls :: "go_types \<Rightarrow> ((string \<times> funcArgField) list \<Rightarrow> (string \<times> funcArgField) list) \<Rightarrow>
    ((string \<times> addr) list \<Rightarrow> (string \<times> addr) list) \<Rightarrow> Resolver list \<Rightarrow> nat \<Rightarrow> addr \<Rightarrow> go_decl list build_result" where
  "GenerateGoASTDecls gts aorder forder heap fuel a =
     (case heap ! a of
        ObjectR r \<Rightarrow>
          bind_result (field_elts gts aorder heap fuel (forder (ob_fieldResolvers r)))
            (\<lambda>elts. bind_result (object_decl gts r elts) (\<lambda>d. Built [d]))
      | _ \<Rightarrow> Built [])"

subsection \<open>GenerateResolverFile (model.go)\<close>

fun all_decls :: "('a \<Rightarrow> go_decl list build_result) \<Rightarrow> 'a list \<Rightarrow> go_decl list build_result" where
  "all_decls gen [] = Built []"
| "all_decls gen (a # as) = bind_result (gen a) (\<lambda>ds. bind_result (all_decls gen as) (\<lambda>rest. Built (ds @ rest)))"

definition GenerateResolverFile :: "go_types \<Rightarrow> ((string \<times> funcArgField) list \<Rightarrow> (string \<times> funcArgField) list) \<Rightarrow>
    ((string \<times> addr) list \<Rightarrow> (string \<times> addr) list) \<Rightarrow> nat \<Rightarrow> string \<Rightarrow> Model \<Rightarrow> go_file build_result" where
  "GenerateResolverFile gts aorder forder fuel packageName m =
     bind_result (all_decls (GenerateGoASTDecls gts aorder forder (md_heap m) fuel) (md_allResolvers m))
       (\<lambda>ds. Built \<lparr>file_Name = packageName,
          file_Decls = ImportDecl ([''context'', ''math'', ''github.com/rgraphql/rgraphql/resolver''] @ md_imports m) # ds\<rparr>)"

end
