(* ===== verification/Generated.thy ===== *)
theory Generated
  imports AnalysisEnds CodeGen
begin

text \<open>
  What the compiler demands of the functions that \<open>GenerateResolverFile\<close> writes, beyond their types: that identifiers
  are in scope, that \<open>:=\<close> declares something new, that what is declared is used, that a return has as many results as its
  function. The generators meet these demands on every model, but for two kinds of resolvers.
\<close>

subsection \<open>Scopes and uses\<close>

definition param_names :: "(string list \<times> go_expr) list \<Rightarrow> string set" where
  "param_names ps = (\<Union>p \<in> set ps. set (fst p))"

fun ident :: "go_expr \<Rightarrow> string option" where
  "ident (Ident x) = Some x"
| "ident e = None"

definition idents :: "go_expr list \<Rightarrow> string set" where
  "idents es = {x. Ident x \<in> set es}"

lemma idents_simps [simp]:
  "idents [] = {}" "idents (Ident x # es) = insert x (idents es)"
  by (auto simp: idents_def)

fun is_return :: "go_stmt \<Rightarrow> bool" where
  "is_return (ReturnStmt es) = True"
| "is_return s = False"

text \<open>Whether a variable is used: an assignment to it is no use, nor is anything below a new declaration.\<close>

fun uses_expr :: "string \<Rightarrow> go_expr \<Rightarrow> bool" and uses_exprs :: "string \<Rightarrow> go_expr list \<Rightarrow> bool" and
  uses_lhs :: "string \<Rightarrow> go_expr list \<Rightarrow> bool" and uses :: "string \<Rightarrow> go_stmt list \<Rightarrow> bool" where
  "uses_expr x (Ident y) = (x = y)"
| "uses_expr x (StringLit s) = False"
| "uses_expr x (Selector e n) = uses_expr x e"
| "uses_expr x (Call f es) = (uses_expr x f \<or> uses_exprs x es)"
| "uses_expr x (StarExpr e) = uses_expr x e"
| "uses_expr x (Unary tok e) = uses_expr x e"
| "uses_expr x (Binary e tok f) = (uses_expr x e \<or> uses_expr x f)"
| "uses_expr x (IndexExpr e f) = (uses_expr x e \<or> uses_expr x f)"
| "uses_expr x (Paren e) = uses_expr x e"
| "uses_expr x (CompositeLit t) = False"
| "uses_expr x (ChanType b t) = False"
| "uses_expr x (FuncLit ps rs body) = (x \<notin> param_names ps \<and> uses x body)"
| "uses_exprs x [] = False"
| "uses_exprs x (e # es) = (uses_expr x e \<or> uses_exprs x es)"
| "uses_lhs x [] = False"
| "uses_lhs x (e # es) = (ident e = None \<and> uses_expr x e \<or> uses_lhs x es)"
| "uses x [] = False"
| "uses x (AssignStmt ls tok es # rest) =
     (uses_exprs x es \<or> uses_lhs x ls \<or> (tok \<noteq> DEFINE \<or> x \<notin> idents ls) \<and> uses x rest)"
| "uses x (ExprStmt e # rest) = (uses_expr x e \<or> uses x rest)"
| "uses x (ReturnStmt es # rest) = (uses_exprs x es \<or> uses x rest)"
| "uses x (IfStmt None c body # rest) = (uses_expr x c \<or> uses x body \<or> uses x rest)"
| "uses x (IfStmt (Some (AssignStmt ls tok es)) c body # rest) =
     (uses_exprs x es \<or> x \<notin> idents ls \<and> (uses_expr x c \<or> uses x body) \<or> uses x rest)"
| "uses x (IfStmt (Some s) c body # rest) = (uses x rest)"
| "uses x (GoStmt e # rest) = (uses_expr x e \<or> uses x rest)"
| "uses x (VarDecl y t # rest) = (x \<noteq> y \<and> uses x rest)"
| "uses x (SendStmt e f # rest) = (uses_expr x e \<or> uses_expr x f \<or> uses x rest)"
| "uses x (IncStmt e # rest) = (ident e = None \<and> uses_expr x e \<or> uses x rest)"
| "uses x (ForStmt body # rest) = (uses x body \<or> uses x rest)"
| "uses x (SelectStmt cs # rest) = (uses x cs \<or> uses x rest)"
| "uses x (CommClause (ExprStmt e) body # rest) = (uses_expr x e \<or> uses x body \<or> uses x rest)"
| "uses x (CommClause (AssignStmt ls tok es) body # rest) = (uses_exprs x es \<or> x \<notin> idents ls \<and> uses x body \<or> uses x rest)"
| "uses x (CommClause s body # rest) = uses x rest"
| "uses x (SwitchStmt e cs # rest) = (uses_expr x e \<or> uses x cs \<or> uses x rest)"
| "uses x (CaseClause es body # rest) = (uses_exprs x es \<or> uses x body \<or> uses x rest)"

text \<open>\<open>block_ok S L n\<close>: the statements are in order where the names \<open>S\<close> are in scope, of which \<open>L\<close> were declared in
  this very block, in a function of \<open>n\<close> results.\<close>

fun expr_ok :: "string set \<Rightarrow> go_expr \<Rightarrow> bool" and exprs_ok :: "string set \<Rightarrow> go_expr list \<Rightarrow> bool" and
  block_ok :: "string set \<Rightarrow> string set \<Rightarrow> nat \<Rightarrow> go_stmt list \<Rightarrow> bool" where
  "expr_ok S (Ident y) = (y \<in> S)"
| "expr_ok S (StringLit s) = True"
| "expr_ok S (Selector e n) = expr_ok S e"
| "expr_ok S (Call f es) = (expr_ok S f \<and> exprs_ok S es)"
| "expr_ok S (StarExpr e) = expr_ok S e"
| "expr_ok S (Unary tok e) = expr_ok S e"
| "expr_ok S (Binary e tok f) = (expr_ok S e \<and> expr_ok S f)"
| "expr_ok S (IndexExpr e f) = (expr_ok S e \<and> expr_ok S f)"
| "expr_ok S (Paren e) = expr_ok S e"
| "expr_ok S (CompositeLit t) = True"
| "expr_ok S (ChanType b t) = True"
| "expr_ok S (FuncLit ps rs body) =
     (block_ok (S \<union> param_names ps) (param_names ps) (length rs) body \<and> (rs \<noteq> [] \<longrightarrow> body \<noteq> [] \<and> is_return (last body)))"
| "exprs_ok S [] = True"
| "exprs_ok S (e # es) = (expr_ok S e \<and> exprs_ok S es)"
| "block_ok S L n [] = True"
| "block_ok S L n (AssignStmt ls tok es # rest) =
     (exprs_ok S es \<and>
      (if tok = DEFINE
       then (\<forall>l \<in> set ls. ident l \<noteq> None) \<and> \<not> idents ls \<subseteq> L \<and> (\<forall>x \<in> idents ls - L. uses x rest) \<and>
         block_ok (S \<union> idents ls) (L \<union> idents ls) n rest
       else exprs_ok S ls \<and> block_ok S L n rest))"
| "block_ok S L n (ExprStmt e # rest) = (expr_ok S e \<and> block_ok S L n rest)"
| "block_ok S L n (ReturnStmt es # rest) = (length es = n \<and> exprs_ok S es \<and> block_ok S L n rest)"
| "block_ok S L n (IfStmt None c body # rest) = (expr_ok S c \<and> block_ok S {} n body \<and> block_ok S L n rest)"
| "block_ok S L n (IfStmt (Some (AssignStmt ls tok es)) c body # rest) =
     (exprs_ok S es \<and> tok = DEFINE \<and> expr_ok (S \<union> idents ls) c \<and> (\<forall>x \<in> idents ls. uses_expr x c \<or> uses x body) \<and>
      block_ok (S \<union> idents ls) {} n body \<and> block_ok S L n rest)"
| "block_ok S L n (IfStmt (Some s) c body # rest) = False"
| "block_ok S L n (GoStmt e # rest) = (expr_ok S e \<and> block_ok S L n rest)"
| "block_ok S L n (VarDecl y t # rest) = (y \<notin> L \<and> uses y rest \<and> block_ok (insert y S) (insert y L) n rest)"
| "block_ok S L n (SendStmt e f # rest) = (expr_ok S e \<and> expr_ok S f \<and> block_ok S L n rest)"
| "block_ok S L n (IncStmt e # rest) = (expr_ok S e \<and> block_ok S L n rest)"
| "block_ok S L n (ForStmt body # rest) = (block_ok S {} n body \<and> block_ok S L n rest)"
| "block_ok S L n (SelectStmt cs # rest) = (block_ok S {} n cs \<and> block_ok S L n rest)"
| "block_ok S L n (CommClause (ExprStmt e) body # rest) = (expr_ok S e \<and> block_ok S {} n body \<and> block_ok S L n rest)"
| "block_ok S L n (CommClause (AssignStmt ls tok es) body # rest) =
     (exprs_ok S es \<and> tok = DEFINE \<and> (\<forall>x \<in> idents ls. uses x body) \<and>
      block_ok (S \<union> idents ls) (idents ls) n body \<and> block_ok S L n rest)"
| "block_ok S L n (CommClause s body # rest) = False"
| "block_ok S L n (SwitchStmt e cs # rest) = (expr_ok S e \<and> block_ok S {} n cs \<and> block_ok S L n rest)"
| "block_ok S L n (CaseClause es body # rest) = (exprs_ok S es \<and> block_ok S {} n body \<and> block_ok S L n rest)"

fun decl_ok :: "string set \<Rightarrow> go_decl \<Rightarrow> bool" where
  "decl_ok S (ImportDecl paths) = True"
| "decl_ok S (FuncDecl name ps body) = block_ok (S \<union> param_names ps) (param_names ps) 0 body"

subsection \<open>The statements of values\<close>

definition universe :: "string set" where
  "universe = {''nil'', ''true'', ''len'', ''make'', ''1'', ''int32'', ''string'', ''float32'', ''bool'', ''math.MaxInt32'', ''math.MinInt32'', ''resolver''}"

text \<open>Statements that resolve the value \<open>v\<close> with the context \<open>rctx\<close>, below functions with names \<open>G\<close>.\<close>

definition value_ok :: "string set \<Rightarrow> go_stmt list \<Rightarrow> bool" where
  "value_ok G stmts \<longleftrightarrow>
     (\<forall>S L. universe \<subseteq> S \<longrightarrow> G \<subseteq> S \<longrightarrow> ''rctx'' \<in> S \<longrightarrow> ''v'' \<in> S \<longrightarrow> ''v1'' \<notin> L \<longrightarrow> block_ok S L 0 stmts) \<and>
     uses ''v'' stmts \<and> uses ''rctx'' stmts"

lemma value_okD:
  assumes "value_ok G stmts"
  shows "universe \<subseteq> S \<Longrightarrow> G \<subseteq> S \<Longrightarrow> ''rctx'' \<in> S \<Longrightarrow> ''v'' \<in> S \<Longrightarrow> ''v1'' \<notin> L \<Longrightarrow> block_ok S L 0 stmts"
    and "uses ''v'' stmts" and "uses ''rctx'' stmts"
  using assms unfolding value_ok_def by blast+

lemma universe_in:
  assumes "universe \<subseteq> S"
  shows "''nil'' \<in> S" "''true'' \<in> S" "''len'' \<in> S" "''make'' \<in> S" "''1'' \<in> S" "''int32'' \<in> S" "''string'' \<in> S" "''float32'' \<in> S"
    "''bool'' \<in> S" "''math.MaxInt32'' \<in> S" "''math.MinInt32'' \<in> S" "''resolver'' \<in> S"
  using assms by (simp_all add: universe_def)

lemma val_ref_small [simp]: "val_ref 0 = ''v''" "val_ref 1 = ''v1''" "val_ref (Suc 0) = ''v1''"
  by code_simp+

lemma prim_bound_parts:
  assumes "prim_bound env name t r"
  shows "GetPrimValueFuncName (pr_primKind r) \<noteq> ''''" and "pr_primKind r \<noteq> PRIMITIVE_KIND_NULL"
    and "pr_convertTo r \<in> {None, Some ''int32'', Some ''string'', Some ''float32'', Some ''bool''}"
proof -
  have "name \<in> {''Int'', ''String'', ''Float'', ''Boolean'', ''ID''}"
    using assms by (auto simp: prim_bound_def PrimitivesTypes_def split: if_splits)
  then show "GetPrimValueFuncName (pr_primKind r) \<noteq> ''''" "pr_primKind r \<noteq> PRIMITIVE_KIND_NULL"
    "pr_convertTo r \<in> {None, Some ''int32'', Some ''string'', Some ''float32'', Some ''bool''}"
    using assms by (auto simp: prim_bound_def PrimitivesTypes_def GraphQLPrimitivesProtoKinds_def GetPrimValueFuncName_def split: if_splits)
qed

lemma param_names_simps [simp]: "param_names [] = {}" "param_names (p # ps) = set (fst p) \<union> param_names ps"
  by (simp_all add: param_names_def)

lemma value_ok_primitive:
  assumes b: "prim_bound env name t r" and plain: "pr_ptrDepth r = 0"
  shows "\<exists>stmts. primitive_ref r = Built stmts \<and> value_ok G stmts"
proof -
  note parts = prim_bound_parts [OF b]
  have k: "(if pr_primKind r = PRIMITIVE_KIND_NULL then [] else [Ident x]) = [Ident x]" for x
    using parts(2) by simp
  show ?thesis
    using parts by (auto simp: primitive_ref_def plain k convert_stmts_def primitive_value_stmts_def value_ok_def universe_in)
qed

lemma value_ok_list:
  assumes "value_ok G stmts"
  shows "value_ok G (list_ref stmts)"
  using value_okD [OF assms] by (auto simp: list_ref_def value_ok_def universe_in subset_insertI2)

lemma value_ok_object: "ob_goGenResolverFuncName r \<in> G \<Longrightarrow> value_ok G (object_ref r)"
  by (auto simp: object_ref_def value_ok_def)

subsection \<open>Functions\<close>

lemma exprs_ok_set: "exprs_ok S es \<longleftrightarrow> (\<forall>e \<in> set es. expr_ok S e)"
  by (induction es) simp_all

lemma uses_exprs_set: "uses_exprs x es \<longleftrightarrow> (\<exists>e \<in> set es. uses_expr x e)"
  by (induction es) auto

lemma call_ok:
  "exprs_ok S (map snd (generateFuncParams r)) \<longleftrightarrow>
     (fr_outputChanArg r \<noteq> 0 \<longrightarrow> ''outCh'' \<in> S) \<and> (fr_contextArg r \<noteq> 0 \<longrightarrow> ''ctx'' \<in> S) \<and> (fr_argsArg r \<noteq> 0 \<longrightarrow> ''rargs'' \<in> S)"
  by (auto simp: exprs_ok_set generateFuncParams_def)

lemma call_uses:
  "uses_exprs ''ctx'' (map snd (generateFuncParams r)) \<longleftrightarrow> fr_contextArg r \<noteq> 0"
  "uses_exprs ''rargs'' (map snd (generateFuncParams r)) \<longleftrightarrow> fr_argsArg r \<noteq> 0"
  "uses_exprs ''outCh'' (map snd (generateFuncParams r)) \<longleftrightarrow> fr_outputChanArg r \<noteq> 0"
  by (auto simp: uses_exprs_set generateFuncParams_def)

lemma arg_setters_ok:
  "''rargs'' \<in> S \<Longrightarrow> ''rctx'' \<in> S \<Longrightarrow> ''nil'' \<in> S \<Longrightarrow> block_ok S L n (map arg_setter as @ rest) = block_ok S L n rest"
  by (induction as) (auto simp: arg_setter_def)

lemma arg_setters_uses: "uses x rest \<Longrightarrow> uses x (map arg_setter as @ rest)"
  by (induction as) (auto simp: arg_setter_def)

definition func_wf :: "funcResolver \<Rightarrow> bool" where
  "func_wf r \<longleftrightarrow> (fr_argsArg r \<noteq> 0 \<longrightarrow> fr_argsType r \<noteq> None) \<and> (fr_outputChanArg r \<noteq> 0 \<longrightarrow> fr_contextArg r \<noteq> 0) \<and>
     fr_outputType r \<noteq> None"

text \<open>The variable \<open>vctx\<close> is declared with the context, and used in the loop over a channel only.\<close>

definition vctx_used :: "funcResolver \<Rightarrow> bool" where
  "vctx_used r \<longleftrightarrow> (fr_contextArg r \<noteq> 0 \<longrightarrow> fr_outputChanArg r \<noteq> 0 \<or> fr_outputIsList r)"

lemma value_okI:
  assumes v: "value_ok G rvs" and S: "universe \<subseteq> S" "G \<subseteq> S" "''rctx'' \<in> S"
  shows "insert ''v'' S \<subseteq> S' \<Longrightarrow> ''v1'' \<notin> L \<Longrightarrow> block_ok S' L 0 rvs"
  by (rule value_okD(1) [OF v]) (use S in auto)

lemma direct_ok:
  assumes v: "value_ok G rvs" and S: "universe \<subseteq> S" "G \<subseteq> S" "''rctx'' \<in> S" "expr_ok S call" and L: "''v'' \<notin> L" "''err'' \<notin> L" "''v1'' \<notin> L"
  shows "block_ok S L 0 (direct_stmts r call @ rvs)"
proof -
  have "block_ok (insert ''v'' S) (insert ''v'' L) 0 rvs" "block_ok (insert ''v'' (insert ''err'' S)) (insert ''v'' (insert ''err'' L)) 0 rvs"
    using L by (auto intro!: value_okI [OF v S(1-3)])
  then show ?thesis
    using S(3,4) L universe_in(1,12) [OF S(1)] value_okD(2,3) [OF v] by (cases "fr_returnsError r") (simp_all add: direct_stmts_def, blast)
qed

lemma comm_clauses_ok:
  assumes v: "value_ok G rvs" and S: "universe \<subseteq> S" "G \<subseteq> S" "''rctx'' \<in> S" "''ctx'' \<in> S" "''outCh'' \<in> S"
    and err: "fr_returnsError r \<longrightarrow> ''errCh'' \<in> S" and lst: "if fr_outputIsList r then ''ri'' \<in> S else ''vctx'' \<in> S"
  shows "block_ok S L 0 (comm_clauses r rvs)"
proof -
  have "block_ok (insert ''rctx'' (insert ''v'' S)) {''rctx'', ''v''} 0 rvs"
    by (auto intro!: value_okI [OF v S(1-3)])
  then show ?thesis
    using S(3-5) err lst universe_in(1,12) [OF S(1)] value_okD(2,3) [OF v]
    by (cases "fr_outputIsList r") (simp_all add: comm_clauses_def value_context_stmts_def insert_commute)
qed

lemma comm_clauses_uses:
  "uses ''ctx'' (comm_clauses r rvs)" "uses ''outCh'' (comm_clauses r rvs)"
  "fr_returnsError r \<Longrightarrow> uses ''errCh'' (comm_clauses r rvs)"
  "fr_outputIsList r \<Longrightarrow> uses ''ri'' (comm_clauses r rvs)" "\<not> fr_outputIsList r \<Longrightarrow> uses ''vctx'' (comm_clauses r rvs)"
  by (simp_all add: comm_clauses_def value_context_stmts_def)

lemma channel_ok:
  assumes v: "value_ok G rvs" and S: "universe \<subseteq> S" "G \<subseteq> S" "''rctx'' \<in> S" "''ctx'' \<in> S"
    and call: "\<And>S'. insert ''outCh'' S \<subseteq> S' \<Longrightarrow> expr_ok S' call"
    and vctx: "\<not> fr_outputIsList r \<longrightarrow> ''vctx'' \<in> S" and L: "''outCh'' \<notin> L" "''errCh'' \<notin> L" "''ri'' \<notin> L"
    and b: "generateOutputChanProcessor gts r call rvs = Built stmts"
  shows "block_ok S L 0 stmts \<and> (\<not> fr_outputIsList r \<longrightarrow> uses ''vctx'' stmts) \<and>
    (uses_expr x call \<longrightarrow> x \<noteq> ''outCh'' \<longrightarrow> x \<noteq> ''errCh'' \<longrightarrow> uses x stmts)"
proof -
  define err where "err = (if fr_returnsError r then {''errCh''} else {})"
  define ri where "ri = (if fr_outputIsList r then {''ri''} else {})"
  obtain e where stmts: "stmts = [make_chan outChRef e []] @ (if fr_returnsError r then [make_chan errChRef (Ident ''error'') [Ident ''1'']] else []) @
      [call_stmt r call] @ (if fr_outputIsList r then [VarDecl resultIndexRef (Ident ''uint32'')] else []) @
      [ForStmt [SelectStmt (comm_clauses r rvs)]]"
    using b by (auto simp: generateOutputChanProcessor_def split: option.splits)
  have call': "expr_ok (insert ''outCh'' S \<union> err) call"
    by (rule call) auto
  have loop: "block_ok (insert ''outCh'' S \<union> err \<union> ri) {} 0 (comm_clauses r rvs)"
    by (rule comm_clauses_ok [OF v]) (use S vctx in \<open>auto simp: err_def ri_def\<close>)
  show ?thesis
    using call' loop comm_clauses_uses [of r rvs] L universe_in(4,5) [OF S(1)]
    by (cases "fr_returnsError r"; cases "fr_outputIsList r")
      (simp_all add: stmts make_chan_def call_stmt_def err_def ri_def insert_commute)
qed

lemma direct_uses: "uses_expr x call \<Longrightarrow> uses x (direct_stmts r call @ rvs)"
  by (simp add: direct_stmts_def)

text \<open>The call, and what comes after it.\<close>

lemma call_part_ok:
  assumes v: "value_ok G rvs" and wf: "func_wf r" and S: "universe \<subseteq> S" "G \<subseteq> S" "''r'' \<in> S" "''rctx'' \<in> S"
    and vars: "fr_contextArg r \<noteq> 0 \<longrightarrow> ''ctx'' \<in> S" "fr_argsArg r \<noteq> 0 \<longrightarrow> ''rargs'' \<in> S"
      "fr_contextArg r \<noteq> 0 \<longrightarrow> \<not> fr_outputIsList r \<longrightarrow> ''vctx'' \<in> S"
    and L: "''outCh'' \<notin> L" "''errCh'' \<notin> L" "''ri'' \<notin> L" "''v'' \<notin> L" "''err'' \<notin> L" "''v1'' \<notin> L"
    and call: "call = Call (Selector (Ident resolverObjRef) (fr_fieldName r)) (map snd (generateFuncParams r))"
    and b: "(if fr_outputChanArg r \<noteq> 0 then generateOutputChanProcessor gts r call rvs else Built (direct_stmts r call @ rvs)) = Built stmts"
  shows "block_ok S L 0 stmts" and "fr_contextArg r \<noteq> 0 \<Longrightarrow> uses ''ctx'' stmts" and "fr_argsArg r \<noteq> 0 \<Longrightarrow> uses ''rargs'' stmts"
    and "fr_outputChanArg r \<noteq> 0 \<Longrightarrow> \<not> fr_outputIsList r \<Longrightarrow> uses ''vctx'' stmts"
proof -
  have call_ok: "expr_ok S' call" if "insert ''outCh'' S \<subseteq> S' \<or> fr_outputChanArg r = 0 \<and> S' = S" for S'
    using that S(3) vars(1,2) by (auto simp: call call_ok)
  have u: "fr_contextArg r \<noteq> 0 \<Longrightarrow> uses_expr ''ctx'' call" "fr_argsArg r \<noteq> 0 \<Longrightarrow> uses_expr ''rargs'' call"
    by (simp_all add: call call_uses)
  have "block_ok S L 0 stmts \<and> (fr_contextArg r \<noteq> 0 \<longrightarrow> uses ''ctx'' stmts) \<and> (fr_argsArg r \<noteq> 0 \<longrightarrow> uses ''rargs'' stmts) \<and>
    (fr_outputChanArg r \<noteq> 0 \<longrightarrow> \<not> fr_outputIsList r \<longrightarrow> uses ''vctx'' stmts)"
  proof (cases "fr_outputChanArg r = 0")
    case True
    then show ?thesis
      using b u direct_uses direct_ok [OF v S(1,2,4) call_ok L(4-6), of r] by auto
  next
    case False
    then have c: "fr_contextArg r \<noteq> 0"
      using wf by (simp add: func_wf_def)
    have "block_ok S L 0 stmts \<and> (\<not> fr_outputIsList r \<longrightarrow> uses ''vctx'' stmts) \<and>
        (uses_expr x call \<longrightarrow> x \<noteq> ''outCh'' \<longrightarrow> x \<noteq> ''errCh'' \<longrightarrow> uses x stmts)" for x
      by (rule channel_ok [OF v S(1,2,4), where call = call and gts = gts]) (use c vars L False b call_ok in auto)
    then show ?thesis
      using u by simp
  qed
  then show "block_ok S L 0 stmts" and "fr_contextArg r \<noteq> 0 \<Longrightarrow> uses ''ctx'' stmts" and "fr_argsArg r \<noteq> 0 \<Longrightarrow> uses ''rargs'' stmts"
    and "fr_outputChanArg r \<noteq> 0 \<Longrightarrow> \<not> fr_outputIsList r \<Longrightarrow> uses ''vctx'' stmts"
    by blast+
qed

lemma func_ok:
  assumes v: "value_ok G rvs" and wf: "func_wf r" "vctx_used r" and S: "universe \<subseteq> S" "G \<subseteq> S" "''r'' \<in> S"
    and b: "func_ref gts aorder r rvs = Built stmts"
  shows "expr_ok S (field_func stmts)"
proof -
  define call where "call = Call (Selector (Ident resolverObjRef) (fr_fieldName r)) (map snd (generateFuncParams r))"
  obtain args rest where args: "(if fr_argsArg r \<noteq> 0 then generateArgsConstructor gts aorder r else Built []) = Built args"
    and rest: "(if fr_outputChanArg r \<noteq> 0 then generateOutputChanProcessor gts r call rvs else Built (direct_stmts r call @ rvs)) = Built rest"
    and stmts: "stmts = args @ context_stmts r @ rest"
    using b unfolding call_def by (cases "fr_outputChanArg r = 0") (auto simp: func_ref_def Let_def bind_result_Built)
  define A where "A = (if fr_argsArg r = 0 then {} else {''rargs''})"
  define C where "C = (if fr_contextArg r = 0 then {} else if fr_outputIsList r then {''ctx''} else {''ctx'', ''vctx''})"
  let ?S = "insert ''rctx'' S \<union> A \<union> C" and ?L = "{''rctx''} \<union> A \<union> C"
  have scope: "universe \<subseteq> ?S" "G \<subseteq> ?S" "''r'' \<in> ?S" "''rctx'' \<in> ?S" "fr_contextArg r \<noteq> 0 \<longrightarrow> ''ctx'' \<in> ?S"
    "fr_argsArg r \<noteq> 0 \<longrightarrow> ''rargs'' \<in> ?S" "fr_contextArg r \<noteq> 0 \<longrightarrow> \<not> fr_outputIsList r \<longrightarrow> ''vctx'' \<in> ?S"
    using S by (auto simp: A_def C_def)
  have new: "''outCh'' \<notin> ?L" "''errCh'' \<notin> ?L" "''ri'' \<notin> ?L" "''v'' \<notin> ?L" "''err'' \<notin> ?L" "''v1'' \<notin> ?L"
    by (simp_all add: A_def C_def)
  note part = call_part_ok [OF v wf(1) scope new call_def rest]
  have u: "fr_contextArg r \<noteq> 0 \<Longrightarrow> \<not> fr_outputIsList r \<Longrightarrow> uses ''vctx'' rest"
    using part(4) wf(2) by (simp add: vctx_used_def)
  have ctx: "block_ok (insert ''rctx'' S \<union> A) ({''rctx''} \<union> A) 0 (context_stmts r @ rest)"
    "fr_argsArg r \<noteq> 0 \<longrightarrow> uses ''rargs'' (context_stmts r @ rest)"
    using part(1-3) u by (auto simp: context_stmts_def C_def A_def insert_commute)
  show ?thesis
  proof (cases "fr_argsArg r = 0")
    case True
    then show ?thesis
      using ctx args by (simp add: field_func_def stmts A_def)
  next
    case False
    then obtain e as where "args = AssignStmt [Ident argsRef] DEFINE [Unary ADDRESS (CompositeLit e)] # map arg_setter as"
      using args by (auto simp: generateArgsConstructor_def Let_def split: option.splits)
    then show ?thesis
      using ctx False universe_in(1) [OF S(1)]
      by (simp add: field_func_def stmts A_def arg_setters_ok arg_setters_uses insert_commute)
  qed
qed

subsection \<open>The resolvers of a model\<close>

text \<open>No pointers to primitives, and no context that only a function without a channel takes.\<close>

definition plain_resolver :: "Resolver \<Rightarrow> bool" where
  "plain_resolver r = (case r of PrimR p \<Rightarrow> pr_ptrDepth p = 0 | FuncR f \<Rightarrow> vctx_used f | _ \<Rightarrow> True)"

definition plain_heap :: "Resolver list \<Rightarrow> bool" where
  "plain_heap heap \<longleftrightarrow> (\<forall>a < length heap. plain_resolver (heap ! a))"

text \<open>The table of a model, with the names of its object resolvers.\<close>

definition table_ok :: "analysis_env \<Rightarrow> Resolver list \<Rightarrow> (typeResolverPair \<rightharpoonup> addr) \<Rightarrow> string set \<Rightarrow> bool" where
  "table_ok env heap reg G \<longleftrightarrow>
     (\<forall>d t a. reg (DefRef d, t) = Some a \<longrightarrow> object_bound env heap reg d t a \<and> GetName (heap ! a) \<in> G) \<and>
     (\<forall>loc u t a. reg (TypeRef loc (List u), t) = Some a \<longrightarrow> list_bound env heap reg loc u t a)"

text \<open>The code of the value at \<open>a\<close>, from a depth on.\<close>

definition generates :: "go_types \<Rightarrow> ((string \<times> funcArgField) list \<Rightarrow> (string \<times> funcArgField) list) \<Rightarrow> Resolver list \<Rightarrow> nat \<Rightarrow> addr \<Rightarrow>
    go_stmt list build_result \<Rightarrow> bool" where
  "generates gts aorder heap n a res \<longleftrightarrow> (\<forall>k. n \<le> k \<longrightarrow> GenerateGoASTRef gts aorder heap (Suc k) a = res)"

lemma generatesI: "(\<And>k. n \<le> k \<Longrightarrow> GenerateGoASTRef gts aorder heap (Suc k) a = res) \<Longrightarrow> generates gts aorder heap n a res"
  unfolding generates_def by blast

lemma generatesD: "generates gts aorder heap n a res \<Longrightarrow> n < k \<Longrightarrow> GenerateGoASTRef gts aorder heap k a = res"
  unfolding generates_def by (cases k) (simp_all del: GenerateGoASTRef.simps)

lemma object_value:
  assumes "table_ok env heap reg G" and "reg (DefRef d, t) = Some a"
  shows "\<exists>stmts. generates gts aorder heap n a (Built stmts) \<and> value_ok G stmts"
proof -
  have "object_bound env heap reg d t a" "GetName (heap ! a) \<in> G"
    using assms unfolding table_ok_def by blast+
  then obtain r where r: "heap ! a = ObjectR r" "ob_goGenResolverFuncName r \<in> G"
    by (auto simp: object_bound_def GetName_def)
  have "generates gts aorder heap n a (Built (object_ref r))"
    by (rule generatesI) (simp add: r)
  then show ?thesis
    using value_ok_object [OF r(2)] by blast
qed

lemma type_value:
  assumes t: "table_ok env heap reg G" and plain: "plain_heap heap"
  shows "bound env heap reg loc u t a \<Longrightarrow> \<exists>stmts. generates gts aorder heap (type_depth u) a (Built stmts) \<and> value_ok G stmts"
proof (induction u arbitrary: loc t a)
  case (Named m)
  show ?case
  proof (cases "IsAstPrimitive (Named m)")
    case True
    then obtain r where r: "a < length heap" "heap ! a = PrimR r" "prim_bound env (the m) t r"
      using Named by auto
    then have "pr_ptrDepth r = 0"
      using plain unfolding plain_heap_def plain_resolver_def by force
    then obtain stmts where "primitive_ref r = Built stmts" "value_ok G stmts"
      using value_ok_primitive [OF r(3)] by blast
    then show ?thesis
      using r(2) by (intro exI [of _ stmts] conjI generatesI) simp_all
  next
    case False
    then show ?thesis
      using Named object_value [OF t] by auto
  qed
next
  case (List u)
  then have "list_bound env heap reg loc u t a"
    using t unfolding table_ok_def by simp
  then obtain isPtr e b where l: "heap ! a = ListR \<lparr>lr_isPtr = isPtr, lr_elemResolver = Some b\<rparr>"
    and b: "bound env heap reg (loc @ [0]) u (strip_pointer e) b"
    by (auto simp: list_bound_def)
  obtain stmts where s: "generates gts aorder heap (type_depth u) b (Built stmts)" "value_ok G stmts"
    using List.IH [OF b] by blast
  have "generates gts aorder heap (type_depth (List u)) a (Built (list_ref stmts))"
    by (rule generatesI) (use generatesD [OF s(1)] in \<open>simp add: l\<close>)
  then show ?case
    using value_ok_list [OF s(2)] by blast
next
  case (NonNull u)
  then have "bound env heap reg (loc @ [0]) u t a"
    by simp
  then obtain stmts where s: "generates gts aorder heap (type_depth u) a (Built stmts)" "value_ok G stmts"
    using NonNull.IH by blast
  have "generates gts aorder heap (type_depth (NonNull u)) a (Built stmts)"
    by (rule generatesI) (rule generatesD [OF s(1)], simp)
  then show ?case
    using s(2) by blast
next
  case (AsDefinition d)
  then show ?case
    using object_value [OF t] by auto
qed simp

text \<open>What the analysis makes of the signature of a method.\<close>

definition half_wf :: "funcResolver \<Rightarrow> bool" where
  "half_wf r \<longleftrightarrow> (fr_argsArg r \<noteq> 0 \<longrightarrow> fr_argsType r \<noteq> None) \<and> (fr_outputChanArg r \<noteq> 0 \<longrightarrow> fr_outputType r \<noteq> None)"

lemma func_params_half_wf: "func_params gts args ts i res = Built r \<Longrightarrow> half_wf res \<Longrightarrow> half_wf r"
proof (induction ts arbitrary: i res)
  case (Cons t ts)
  then obtain r1 where r1: "func_param gts args t i res = Built r1" "func_params gts args ts (i + 1) r1 = Built r"
    by (auto simp: bind_result_Built)
  have "half_wf r1"
    using r1(1) by (cases rule: func_param_Built) (use Cons.prems(2) in \<open>auto simp: half_wf_def\<close>)
  then show ?case
    by (rule Cons.IH [OF r1(2)])
qed simp

lemma func_results_wf: "func_results gts rs r0 = Built r \<Longrightarrow> half_wf r0 \<Longrightarrow> func_wf r"
  by (auto simp: func_results_def half_wf_def func_wf_def split: list.splits if_splits)

lemma result_ref_node: "\<exists>loc' u. result_ref loc t chan = node_ref loc' u"
  unfolding result_ref_def by (cases t; cases chan) (simp, blast)+

lemma field_func_wf:
  assumes "field_bound env heap reg loc fieldt t a"
  obtains r where "a < length heap" and "heap ! a = FuncR r" and "func_wf r"
    and "\<exists>u v loc'. bound env heap reg loc' u v (fr_resultResolver r)"
proof -
  obtain f r r0 r1 out where a: "a < length heap" "heap ! a = FuncR r"
    and "findResolverFunc (en_types env) t (the (fd_field_name fieldt)) = Built f"
    and p: "func_params (en_types env) (fd_arguments fieldt) (gf_params f) 0 (new_func (gf_name f)) = Built r0"
    "func_results (en_types env) (gf_results f) r0 = Built r1"
    and r: "r = r1\<lparr>fr_outputIsList := is_list (fd_type fieldt), fr_resultResolver := fr_resultResolver r\<rparr>"
    and b: "bound_ref env heap reg (result_ref loc (fd_type fieldt) (fr_outputChanArg r1 \<noteq> 0)) (strip_pointer out) (fr_resultResolver r)"
    using assms unfolding field_bound_def by blast
  have "half_wf (new_func (gf_name f))"
    by (simp add: half_wf_def new_func_def)
  then have "func_wf r1"
    using func_results_wf [OF p(2) func_params_half_wf [OF p(1)]] by simp
  then have "func_wf r"
    by (subst r) (simp add: func_wf_def)
  moreover have "\<exists>u v loc'. bound env heap reg loc' u v (fr_resultResolver r)"
    using b result_ref_node [of loc "fd_type fieldt"] node_ref_bound by metis
  ultimately show thesis
    using that a by blast
qed

lemma func_ref_result:
  assumes "func_wf r"
  shows "(\<exists>stmts. func_ref gts aorder r rvs = Built stmts) \<or> func_ref gts aorder r rvs = Failed UnknownGoType"
  using assms
  by (auto simp: func_ref_def func_wf_def generateArgsConstructor_def generateOutputChanProcessor_def Let_def split: option.splits)

text \<open>The code of a field.\<close>

definition field_result :: "string set \<Rightarrow> go_stmt list build_result \<Rightarrow> bool" where
  "field_result G res \<longleftrightarrow> res = Failed UnknownGoType \<or> (\<exists>stmts. res = Built stmts \<and>
     (\<forall>S. universe \<subseteq> S \<longrightarrow> G \<subseteq> S \<longrightarrow> ''r'' \<in> S \<longrightarrow> expr_ok S (field_func stmts)))"

lemma field_value:
  assumes t: "table_ok env heap reg G" and plain: "plain_heap heap" and f: "field_bound env heap reg loc fieldt t a"
  shows "\<exists>n res. generates gts aorder heap n a res \<and> field_result G res"
proof -
  obtain r u v loc' where r: "a < length heap" "heap ! a = FuncR r" "func_wf r" and b: "bound env heap reg loc' u v (fr_resultResolver r)"
    using field_func_wf [OF f] by metis
  have vctx: "vctx_used r"
    using plain r(1,2) unfolding plain_heap_def plain_resolver_def by force
  obtain rvs where rvs: "generates gts aorder heap (type_depth u) (fr_resultResolver r) (Built rvs)" "value_ok G rvs"
    using type_value [OF t plain b] by blast
  have "generates gts aorder heap (Suc (type_depth u)) a (func_ref gts aorder r rvs)"
    by (rule generatesI) (use generatesD [OF rvs(1)] in \<open>simp add: r(2)\<close>)
  moreover have "field_result G (func_ref gts aorder r rvs)"
    using func_ref_result [OF r(3), of gts aorder rvs]
  proof (elim disjE exE)
    fix stmts
    assume s: "func_ref gts aorder r rvs = Built stmts"
    show ?thesis
      using func_ok [OF rvs(2) r(3) vctx _ _ _ s] s unfolding field_result_def by simp
  qed (simp add: field_result_def)
  ultimately show ?thesis
    by blast
qed

subsection \<open>Declarations\<close>

lemma generates_mono: "generates gts aorder heap n a res \<Longrightarrow> n \<le> n' \<Longrightarrow> generates gts aorder heap n' a res"
  unfolding generates_def by simp

lemma common_bound:
  assumes "\<And>x n n'. P x n \<Longrightarrow> n \<le> n' \<Longrightarrow> P x (n' :: nat)"
  shows "\<forall>x \<in> set xs. \<exists>n. P x n \<Longrightarrow> \<exists>n. \<forall>x \<in> set xs. P x n"
proof (induction xs)
  case (Cons x xs)
  then obtain n m where "P x n" "\<forall>y \<in> set xs. P y m"
    by auto
  then have "\<forall>y \<in> set (x # xs). P y (max n m)"
    using assms by (auto intro: assms [of _ _ "max n m"])
  then show ?case
    by blast
qed simp

definition field_settled :: "go_types \<Rightarrow> ((string \<times> funcArgField) list \<Rightarrow> (string \<times> funcArgField) list) \<Rightarrow> Resolver list \<Rightarrow> string set \<Rightarrow>
    addr \<Rightarrow> nat \<Rightarrow> bool" where
  "field_settled gts aorder heap G a n \<longleftrightarrow> (\<exists>res. generates gts aorder heap n a res \<and> field_result G res)"

lemma field_settled_mono: "field_settled gts aorder heap G a n \<Longrightarrow> n \<le> n' \<Longrightarrow> field_settled gts aorder heap G a n'"
  unfolding field_settled_def using generates_mono by blast

definition unnameable :: "analysis_error \<Rightarrow> bool" where
  "unnameable e \<longleftrightarrow> (\<exists>name. e = Wrapped (''unable to build field '' @ name) UnknownGoType)"

definition elts_result :: "string set \<Rightarrow> (string \<times> go_expr) list build_result \<Rightarrow> bool" where
  "elts_result G r \<longleftrightarrow> (\<exists>e. r = Failed e \<and> unnameable e) \<or>
     (\<exists>elts. r = Built elts \<and> (\<forall>x \<in> set elts. \<forall>S. universe \<subseteq> S \<longrightarrow> G \<subseteq> S \<longrightarrow> ''r'' \<in> S \<longrightarrow> expr_ok S (snd x)))"

lemma field_elts_result:
  "\<forall>x \<in> set xs. field_settled gts aorder heap G (snd x) n \<Longrightarrow>
    \<exists>r. elts_result G r \<and> (\<forall>k > n. field_elts gts aorder heap k xs = r)"
proof (induction xs)
  case Nil
  show ?case
    by (rule exI [of _ "Built []"]) (simp add: elts_result_def)
next
  case (Cons x xs)
  obtain name a where x: "x = (name, a)"
    by (cases x)
  obtain r where r: "elts_result G r" "\<forall>k > n. field_elts gts aorder heap k xs = r"
    using Cons by auto
  obtain res where res: "field_result G res" "\<forall>k > n. GenerateGoASTRef gts aorder heap k a = res"
    using Cons.prems generatesD unfolding x field_settled_def by fastforce
  define r' where "r' = (case res of Failed e \<Rightarrow> Failed (Wrapped (''unable to build field '' @ name) e)
    | Built stmts \<Rightarrow> bind_result r (\<lambda>elts. Built ((quoted name, field_func stmts) # elts)) | Crashed \<Rightarrow> Crashed | NoFuel \<Rightarrow> NoFuel)"
  have "\<forall>k > n. field_elts gts aorder heap k (x # xs) = r'"
    using r(2) res(2) by (simp add: x r'_def split: build_result.splits)
  moreover have "elts_result G r'"
    using r(1) res(1) unfolding r'_def elts_result_def field_result_def unnameable_def by auto
  ultimately show ?case
    by blast
qed

lemma object_decl_ok:
  assumes elts: "\<forall>x \<in> set elts. \<forall>S. universe \<subseteq> S \<longrightarrow> G \<subseteq> S \<longrightarrow> ''r'' \<in> S \<longrightarrow> expr_ok S (snd x)"
    and S: "universe \<subseteq> S" "G \<subseteq> S" and b: "object_decl gts r elts = Built d"
  shows "decl_ok S d \<and> (\<exists>ps body. d = FuncDecl (ob_goGenResolverFuncName r) ps body)"
proof -
  have cases_ok: "block_ok S' L n (map case_clause es)" if "\<forall>x \<in> set es. expr_ok S' (snd x)" "''fieldResolver'' \<in> S'" for S' L n es
    using that by (induction es) (auto simp: case_clause_def)
  let ?S = "insert ''fieldResolver'' (insert ''fieldName'' (insert ''rctx'' (insert ''r'' S)))"
  have "universe \<subseteq> ?S" "G \<subseteq> ?S"
    using S by auto
  then have "\<forall>x \<in> set (sort_key fst elts). expr_ok ?S (snd x)"
    using elts by simp
  then have "block_ok ?S {} (Suc 0) (map case_clause (sort_key fst elts))"
    by (intro cases_ok) auto
  then show ?thesis
    using b universe_in(1,2,12) [OF S(1)]
    by (auto simp: object_decl_def nil_check_def resolve_object_stmt_def insert_commute split: option.splits)
qed

text \<open>The declarations of a resolver.\<close>

definition decls_result :: "string set \<Rightarrow> Resolver \<Rightarrow> go_decl list build_result \<Rightarrow> bool" where
  "decls_result G x r \<longleftrightarrow> (\<exists>e. r = Failed e \<and> unnameable e) \<or>
     (\<exists>ds. r = Built ds \<and> (\<forall>d \<in> set ds. \<forall>S. universe \<subseteq> S \<longrightarrow> G \<subseteq> S \<longrightarrow> decl_ok S d) \<and>
        (\<forall>o'. x = ObjectR o' \<longrightarrow> (\<exists>ps body. FuncDecl (ob_goGenResolverFuncName o') ps body \<in> set ds)))"

definition decls_settled :: "go_types \<Rightarrow> ((string \<times> funcArgField) list \<Rightarrow> (string \<times> funcArgField) list) \<Rightarrow>
    ((string \<times> addr) list \<Rightarrow> (string \<times> addr) list) \<Rightarrow> Resolver list \<Rightarrow> string set \<Rightarrow> addr \<Rightarrow> nat \<Rightarrow> bool" where
  "decls_settled gts aorder forder heap G a n \<longleftrightarrow>
     (\<exists>r. decls_result G (heap ! a) r \<and> (\<forall>k > n. GenerateGoASTDecls gts aorder forder heap k a = r))"

lemma decls_settled_mono: "decls_settled gts aorder forder heap G a n \<Longrightarrow> n \<le> n' \<Longrightarrow> decls_settled gts aorder forder heap G a n'"
  unfolding decls_settled_def by (meson order_le_less_trans)

lemma object_decls:
  assumes r: "heap ! a = ObjectR r" and pkg: "gn_pkg (gts ! ob_goTypeName r) \<noteq> None" and ord: "\<And>xs. set (forder xs) = set xs"
    and flds: "\<forall>x \<in> set (ob_fieldResolvers r). \<exists>n. field_settled gts aorder heap G (snd x) n"
  shows "\<exists>n. decls_settled gts aorder forder heap G a n"
proof -
  obtain n where "\<forall>x \<in> set (forder (ob_fieldResolvers r)). field_settled gts aorder heap G (snd x) n"
    using common_bound [of "\<lambda>x. field_settled gts aorder heap G (snd x)" "forder (ob_fieldResolvers r)"] field_settled_mono flds ord by metis
  then obtain e where e: "elts_result G e" "\<forall>k > n. field_elts gts aorder heap k (forder (ob_fieldResolvers r)) = e"
    using field_elts_result by blast
  define res where "res = bind_result e (\<lambda>elts. bind_result (object_decl gts r elts) (\<lambda>d. Built [d]))"
  have "\<forall>k > n. GenerateGoASTDecls gts aorder forder heap k a = res"
    using e(2) by (simp add: GenerateGoASTDecls_def r res_def)
  moreover have "decls_result G (heap ! a) res"
  proof (cases "\<exists>x. e = Failed x")
    case True
    then show ?thesis
      using e(1) by (auto simp: elts_result_def decls_result_def res_def)
  next
    case False
    then obtain elts where elts: "e = Built elts" "\<forall>x \<in> set elts. \<forall>S. universe \<subseteq> S \<longrightarrow> G \<subseteq> S \<longrightarrow> ''r'' \<in> S \<longrightarrow> expr_ok S (snd x)"
      using e(1) unfolding elts_result_def by blast
    obtain d where d: "object_decl gts r elts = Built d"
      using pkg by (auto simp: object_decl_def)
    have dk: "decl_ok S d" "\<exists>ps body. d = FuncDecl (ob_goGenResolverFuncName r) ps body" if "universe \<subseteq> S" "G \<subseteq> S" for S
      using object_decl_ok [OF elts(2) that d] by simp_all
    then have "\<exists>ps body. d = FuncDecl (ob_goGenResolverFuncName r) ps body"
      by blast
    then show ?thesis
      using dk(1) d elts(1) unfolding decls_result_def res_def r by auto
  qed
  ultimately show ?thesis
    unfolding decls_settled_def by blast
qed

text \<open>The file.\<close>

definition declared :: "go_decl list \<Rightarrow> string set" where
  "declared ds = {name. \<exists>ps body. FuncDecl name ps body \<in> set ds}"

lemma mem_declared: "name \<in> declared ds \<longleftrightarrow> (\<exists>ps body. FuncDecl name ps body \<in> set ds)"
  by (simp add: declared_def)

lemma declared_import: "declared (ImportDecl ps # ds) = declared ds"
  by (simp add: declared_def)

lemma declared_append: "declared (ds @ ds') = declared ds \<union> declared ds'"
  by (auto simp: declared_def)

definition all_result :: "string set \<Rightarrow> Resolver list \<Rightarrow> addr list \<Rightarrow> go_decl list build_result \<Rightarrow> bool" where
  "all_result G heap as r \<longleftrightarrow> (\<exists>e. r = Failed e \<and> unnameable e) \<or>
     (\<exists>ds. r = Built ds \<and> (\<forall>d \<in> set ds. \<forall>S. universe \<subseteq> S \<longrightarrow> G \<subseteq> S \<longrightarrow> decl_ok S d) \<and>
        (\<forall>a \<in> set as. \<forall>o'. heap ! a = ObjectR o' \<longrightarrow> ob_goGenResolverFuncName o' \<in> declared ds))"

lemma all_result_Cons:
  assumes x: "decls_result G (heap ! a) x" and r: "all_result G heap as r"
  shows "all_result G heap (a # as) (bind_result x (\<lambda>ds. bind_result r (\<lambda>rest. Built (ds @ rest))))"
proof (cases "(\<exists>ds. x = Built ds) \<and> (\<exists>ds. r = Built ds)")
  case False
  then show ?thesis
    using x r by (auto simp: decls_result_def all_result_def)
next
  case True
  then obtain ds rest where b: "x = Built ds" "r = Built rest"
    by blast
  have d: "\<forall>d \<in> set ds. \<forall>S. universe \<subseteq> S \<longrightarrow> G \<subseteq> S \<longrightarrow> decl_ok S d"
    "\<And>o'. heap ! a = ObjectR o' \<Longrightarrow> ob_goGenResolverFuncName o' \<in> declared ds"
    using x b(1) unfolding decls_result_def mem_declared by blast+
  have e: "\<forall>d \<in> set rest. \<forall>S. universe \<subseteq> S \<longrightarrow> G \<subseteq> S \<longrightarrow> decl_ok S d"
    "\<And>b o'. b \<in> set as \<Longrightarrow> heap ! b = ObjectR o' \<Longrightarrow> ob_goGenResolverFuncName o' \<in> declared rest"
    using r b(2) unfolding all_result_def by blast+
  have "\<forall>d \<in> set (ds @ rest). \<forall>S. universe \<subseteq> S \<longrightarrow> G \<subseteq> S \<longrightarrow> decl_ok S d"
    using d(1) e(1) unfolding set_append by blast
  moreover have "\<forall>b \<in> set (a # as). \<forall>o'. heap ! b = ObjectR o' \<longrightarrow> ob_goGenResolverFuncName o' \<in> declared (ds @ rest)"
    using d(2) e(2) by (auto simp: declared_append)
  ultimately show ?thesis
    unfolding all_result_def b bind_result.simps by blast
qed

lemma all_decls_result:
  "\<forall>a \<in> set as. decls_settled gts aorder forder heap G a n \<Longrightarrow>
    \<exists>r. all_result G heap as r \<and> (\<forall>k > n. all_decls (GenerateGoASTDecls gts aorder forder heap k) as = r)"
proof (induction as)
  case Nil
  show ?case
    by (rule exI [of _ "Built []"]) (simp add: all_result_def)
next
  case (Cons a as)
  obtain r where r: "all_result G heap as r" "\<forall>k > n. all_decls (GenerateGoASTDecls gts aorder forder heap k) as = r"
    using Cons by auto
  obtain x where x: "decls_result G (heap ! a) x" "\<forall>k > n. GenerateGoASTDecls gts aorder forder heap k a = x"
    using Cons.prems unfolding decls_settled_def by auto
  show ?case
    using all_result_Cons [OF x(1) r(1)] r(2) x(2) by auto
qed

subsection \<open>Properties\<close>

definition file_ok :: "go_file \<Rightarrow> bool" where
  "file_ok f \<longleftrightarrow> (\<forall>d \<in> set (file_Decls f). decl_ok (universe \<union> declared (file_Decls f)) d)"

lemma model_table:
  assumes "model_bound env d t m reg"
  shows "table_ok env (md_heap m) reg {GetName (md_heap m ! a) |a. \<exists>d t. reg (DefRef d, t) = Some a}"
  using assms unfolding model_bound_def table_ok_def by blast

lemma object_settled:
  assumes t: "table_ok env heap reg G" and plain: "plain_heap heap" and ord: "\<And>xs. set (forder xs) = set xs"
    and o': "object_bound env heap reg d t a"
  shows "\<exists>n. decls_settled (en_types env) aorder forder heap G a n"
proof -
  obtain n fs g pkg r where o: "gn_pkg (en_types env ! g) = Some pkg" "heap ! a = ObjectR r" "ob_goTypeName r = g"
    "fields_bound env heap reg d fs (length fs) t r"
    using o' unfolding object_bound_def by blast
  show ?thesis
  proof (rule object_decls [OF o(2) _ ord], goal_cases)
    case 1
    then show ?case
      using o(1,3) by simp
  next
    case 2
    then show ?case
      using o(4) field_value [OF t plain] unfolding fields_bound_def field_settled_def by meson
  qed
qed

lemma leaf_settled: "(\<And>r. heap ! a \<noteq> ObjectR r) \<Longrightarrow> decls_settled gts aorder forder heap G a n"
  unfolding decls_settled_def
  by (rule exI [of _ "Built []"]) (auto simp: decls_result_def GenerateGoASTDecls_def split: Analysis.Resolver.splits)

lemma generated_file:
  assumes b: "model_bound env d t m reg" and plain: "plain_heap (md_heap m)" and ord: "\<And>xs. set (forder xs) = set xs"
  shows "\<exists>n r. (\<forall>fuel > n. GenerateResolverFile (en_types env) aorder forder fuel pkg m = r) \<and>
    ((\<exists>f. r = Built f \<and> file_ok f) \<or> (\<exists>e. r = Failed e \<and> unnameable e))"
proof -
  let ?h = "md_heap m" and ?G = "{GetName (md_heap m ! a) |a. \<exists>d t. reg (DefRef d, t) = Some a}"
  have "\<forall>a \<in> set (md_allResolvers m). \<exists>n. decls_settled (en_types env) aorder forder ?h ?G a n"
  proof
    fix a
    assume a: "a \<in> set (md_allResolvers m)"
    show "\<exists>n. decls_settled (en_types env) aorder forder ?h ?G a n"
    proof (cases "\<exists>r. ?h ! a = ObjectR r")
      case True
      then obtain d' t' where "reg (DefRef d', t') = Some a"
        using b a unfolding model_bound_def by blast
      then have "object_bound env ?h reg d' t' a"
        using b unfolding model_bound_def by blast
      then show ?thesis
        by (rule object_settled [OF model_table [OF b] plain ord])
    next
      case False
      then show ?thesis
        using leaf_settled by blast
    qed
  qed
  then have "\<exists>n. \<forall>a \<in> set (md_allResolvers m). decls_settled (en_types env) aorder forder ?h ?G a n"
    by (intro common_bound) (rule decls_settled_mono)
  then obtain n where n: "\<forall>a \<in> set (md_allResolvers m). decls_settled (en_types env) aorder forder ?h ?G a n"
    by blast
  obtain r where r: "all_result ?G ?h (md_allResolvers m) r"
    "\<forall>k > n. all_decls (GenerateGoASTDecls (en_types env) aorder forder ?h k) (md_allResolvers m) = r"
    using all_decls_result [OF n] by blast
  define res where "res = bind_result r (\<lambda>ds. Built \<lparr>file_Name = pkg,
      file_Decls = ImportDecl ([''context'', ''math'', ''github.com/rgraphql/rgraphql/resolver''] @ md_imports m) # ds\<rparr>)"
  have "\<forall>fuel > n. GenerateResolverFile (en_types env) aorder forder fuel pkg m = res"
    using r(2) by (simp add: GenerateResolverFile_def res_def)
  moreover have "(\<exists>f. res = Built f \<and> file_ok f) \<or> (\<exists>e. res = Failed e \<and> unnameable e)"
    using r(1) unfolding all_result_def
  proof (elim disjE exE conjE)
    fix ds
    assume ds: "r = Built ds" "\<forall>d \<in> set ds. \<forall>S. universe \<subseteq> S \<longrightarrow> ?G \<subseteq> S \<longrightarrow> decl_ok S d"
      "\<forall>a \<in> set (md_allResolvers m). \<forall>o'. ?h ! a = ObjectR o' \<longrightarrow> ob_goGenResolverFuncName o' \<in> declared ds"
    have sub: "?G \<subseteq> declared ds"
    proof clarify
      fix a d' t'
      assume a: "reg (DefRef d', t') = Some a"
      then have "a \<in> set (md_allResolvers m)" "\<exists>o'. ?h ! a = ObjectR o'"
        using b unfolding model_bound_def object_bound_def by blast+
      then show "GetName (?h ! a) \<in> declared ds"
        using ds(3) by (auto simp: GetName_def)
    qed
    have "decl_ok (universe \<union> declared ds) d" if "d \<in> set ds" for d
      by (rule ds(2) [rule_format, OF that Un_upper1 le_supI2 [OF sub]])
    then have all: "\<forall>d \<in> set ds. decl_ok (universe \<union> declared ds) d"
      by (rule ballI)
    have "file_ok \<lparr>file_Name = pkg,
      file_Decls = ImportDecl ([''context'', ''math'', ''github.com/rgraphql/rgraphql/resolver''] @ md_imports m) # ds\<rparr>"
      using all by (simp add: file_ok_def declared_import)
    then show ?thesis
      by (simp add: res_def ds(1))
  qed (simp add: res_def)
  ultimately show ?thesis
    by blast
qed

subsection \<open>More fuel does not change the code\<close>

lemma bind_result_mono:
  "bind_result x f \<noteq> NoFuel \<Longrightarrow> (x \<noteq> NoFuel \<Longrightarrow> x' = x) \<Longrightarrow> (\<And>z. x = Built z \<Longrightarrow> f z \<noteq> NoFuel \<Longrightarrow> g z = f z) \<Longrightarrow>
    bind_result x' g = bind_result x f"
  by (cases x) auto

lemma ref_fuel_Suc:
  "GenerateGoASTRef gts aorder heap k a \<noteq> NoFuel \<Longrightarrow> GenerateGoASTRef gts aorder heap (Suc k) a = GenerateGoASTRef gts aorder heap k a"
proof (induction k arbitrary: a)
  case (Suc k)
  show ?case
  proof (cases "heap ! a")
    case (ListR r)
    show ?thesis
    proof (cases "lr_elemResolver r")
      case (Some e)
      have "GenerateGoASTRef gts aorder heap k e \<noteq> NoFuel"
        using Suc.prems ListR Some by (auto simp: bind_result_NoFuel)
      then have "GenerateGoASTRef gts aorder heap (Suc k) e = GenerateGoASTRef gts aorder heap k e"
        by (rule Suc.IH)
      then show ?thesis
        by (subst (1 2) GenerateGoASTRef.simps(2)) (simp only: ListR Some Analysis.Resolver.case option.case)
    qed (simp add: ListR)
  next
    case (FuncR r)
    have "GenerateGoASTRef gts aorder heap k (fr_resultResolver r) \<noteq> NoFuel"
      using Suc.prems FuncR by (auto simp: bind_result_NoFuel)
    then have "GenerateGoASTRef gts aorder heap (Suc k) (fr_resultResolver r) = GenerateGoASTRef gts aorder heap k (fr_resultResolver r)"
      by (rule Suc.IH)
    then show ?thesis
      by (subst (1 2) GenerateGoASTRef.simps(2)) (simp only: FuncR Analysis.Resolver.case)
  qed simp_all
qed simp

lemma elts_fuel_Suc:
  "field_elts gts aorder heap k xs \<noteq> NoFuel \<Longrightarrow> field_elts gts aorder heap (Suc k) xs = field_elts gts aorder heap k xs"
proof (induction xs)
  case (Cons x xs)
  obtain name a where x: "x = (name, a)"
    by (cases x)
  have "GenerateGoASTRef gts aorder heap k a \<noteq> NoFuel"
    using Cons.prems by (auto simp: x)
  then have r: "GenerateGoASTRef gts aorder heap (Suc k) a = GenerateGoASTRef gts aorder heap k a"
    by (rule ref_fuel_Suc)
  show ?case
    using Cons r by (auto simp: x bind_result_NoFuel simp del: GenerateGoASTRef.simps split: build_result.splits)
qed simp

lemma decls_fuel_Suc:
  "GenerateGoASTDecls gts aorder forder heap k a \<noteq> NoFuel \<Longrightarrow>
    GenerateGoASTDecls gts aorder forder heap (Suc k) a = GenerateGoASTDecls gts aorder forder heap k a"
  by (auto simp: GenerateGoASTDecls_def bind_result_NoFuel elts_fuel_Suc split: Analysis.Resolver.splits)

lemma all_decls_fuel_Suc:
  "all_decls (GenerateGoASTDecls gts aorder forder heap k) as \<noteq> NoFuel \<Longrightarrow>
    all_decls (GenerateGoASTDecls gts aorder forder heap (Suc k)) as = all_decls (GenerateGoASTDecls gts aorder forder heap k) as"
proof (induction as)
  case (Cons a as)
  show ?case
    unfolding all_decls.simps
    by (rule bind_result_mono) (use Cons in \<open>auto simp: decls_fuel_Suc bind_result_NoFuel intro!: bind_result_mono\<close>)
qed simp

lemma file_fuel:
  assumes "k \<le> k'" and "GenerateResolverFile gts aorder forder k pkg m \<noteq> NoFuel"
  shows "GenerateResolverFile gts aorder forder k' pkg m = GenerateResolverFile gts aorder forder k pkg m"
  using assms(1)
proof (induction k' rule: dec_induct)
  case (step n)
  have "GenerateResolverFile gts aorder forder n pkg m \<noteq> NoFuel"
    using step.IH assms(2) by simp
  then have "GenerateResolverFile gts aorder forder (Suc n) pkg m = GenerateResolverFile gts aorder forder n pkg m"
    by (auto simp: GenerateResolverFile_def bind_result_NoFuel all_decls_fuel_Suc)
  then show ?case
    using step.IH by simp
qed simp

text \<open>The file that is written at any depth at which the generator returns.\<close>

lemma written_file_ok:
  assumes b: "model_bound env d t m reg" and plain: "plain_heap (md_heap m)" and ord: "\<And>xs. set (forder xs) = set xs"
    and f: "GenerateResolverFile (en_types env) aorder forder fuel pkg m = Built f"
  shows "file_ok f"
proof -
  obtain n r where r: "\<forall>k > n. GenerateResolverFile (en_types env) aorder forder k pkg m = r"
    "(\<exists>f. r = Built f \<and> file_ok f) \<or> (\<exists>e. r = Failed e \<and> unnameable e)"
    using generated_file [OF b plain ord, where aorder = aorder and pkg = pkg] by (elim exE conjE) (rule that)
  have "GenerateResolverFile (en_types env) aorder forder (max fuel (Suc n)) pkg m = Built f"
    using file_fuel [of fuel "max fuel (Suc n)"] f by simp
  moreover have "GenerateResolverFile (en_types env) aorder forder (max fuel (Suc n)) pkg m = r"
    using r(1) by (simp add: less_max_iff_disj)
  ultimately show ?thesis
    using r(2) by auto
qed

text \<open>
  C7: The generator writes code that compiles as far as names go. From a model that the analysis has returned, at every
  depth of recursion above a bound, \<open>GenerateResolverFile\<close> returns one and the same result: a file, unless a field has an
  argument or a channel of a type without a name. In the file each function uses only variables that are in scope, the
  package of resolvers, the predeclared names that it needs and functions that the file declares; each \<open>:=\<close> declares a
  new variable, and what is declared is used; each return has the results of its function. The two kinds of resolvers
  that break this are excluded: a pointer to a primitive, and a function that takes a context but no channel.
\<close>

theorem generated_code_is_well_formed:
  assumes "table_order rorder" and "BuildModel env depth rorder iorder (Some d) (Some t) = Built m"
    and "plain_heap (md_heap m)" and "\<And>xs. set (forder xs) = set xs"
  shows "\<exists>n r. (\<forall>fuel > n. GenerateResolverFile (en_types env) aorder forder fuel pkg m = r) \<and>
    ((\<exists>f. r = Built f \<and> file_ok f) \<or> (\<exists>e. r = Failed e \<and> unnameable e))"
proof -
  obtain reg where "model_bound env d t m reg"
    using model_bound [OF assms(1,2)] by blast
  then show ?thesis
    by (rule generated_file [OF _ assms(3,4)])
qed

lemma simple_plain:
  "\<exists>mb a. buildResolver simple_env 12 (DefRef 0, NamedT 0) newModelBuilder = Built (mb, a) \<and> plain_heap (mb_heap mb)"
proof -
  have "(case buildResolver simple_env 12 (DefRef 0, NamedT 0) newModelBuilder of
      Built (mb, a) \<Rightarrow> list_all plain_resolver (mb_heap mb) | _ \<Rightarrow> False)"
    by code_simp
  then show ?thesis
    by (auto simp: plain_heap_def list_all_length split: build_result.splits)
qed

lemma generated_code_is_well_formed_witness:
  "\<exists>rorder m n. BuildModel simple_env 12 rorder (\<lambda>_. []) (Some 0) (Some (NamedT 0)) = Built m \<and>
    ((\<exists>f. GenerateResolverFile (en_types simple_env) id rev (Suc n) ''resolve'' m = Built f \<and> file_ok f) \<or>
     (\<exists>e. GenerateResolverFile (en_types simple_env) id rev (Suc n) ''resolve'' m = Failed e \<and> unnameable e))"
proof -
  obtain rorder where ord: "table_order rorder"
    using some_table_order by blast
  obtain m where m: "BuildModel simple_env 12 rorder (\<lambda>_. []) (Some 0) (Some (NamedT 0)) = Built m" "plain_heap (md_heap m)"
    using simple_plain by (force simp: BuildModel_def)
  obtain n r where r: "\<forall>fuel > n. GenerateResolverFile (en_types simple_env) id rev fuel ''resolve'' m = r"
    "(\<exists>f. r = Built f \<and> file_ok f) \<or> (\<exists>e. r = Failed e \<and> unnameable e)"
    using generated_code_is_well_formed [OF ord m, of rev id "''resolve''"] by auto
  then have "GenerateResolverFile (en_types simple_env) id rev (Suc n) ''resolve'' m = r"
    by simp
  then show ?thesis
    using m(1) r(2) by blast
qed

subsection \<open>An object that is not null\<close>

text \<open>A field of the type \<open>Person!\<close>: the resolver of the object is in the table twice, for the non-null type and for the
  definition, so the file declares its function twice.\<close>

definition nonnull_env :: analysis_env where
  "nonnull_env = \<lparr>en_defs =
       [ObjectDefinition (Some ''RootQuery'') [FieldDefinition (Some ''person'') [] (NonNull (Named (Some ''Person'')))],
        ObjectDefinition (Some ''Person'') [FieldDefinition (Some ''height'') [] (Named (Some ''Int''))]],
     en_lookup = (\<lambda>t. if t = Named (Some ''Person'') then Some 1 else None),
     en_types =
       [\<lparr>gn_name = ''RootResolver'', gn_pkg = Some (''simple'', ''simple''), gn_underlying = StructT 0 [], gn_methods =
           [\<lparr>gf_name = ''Person'', gf_params = [], gf_results = [PointerT 1 (NamedT 1)]\<rparr>]\<rparr>,
        \<lparr>gn_name = ''PersonResolver'', gn_pkg = Some (''simple'', ''simple''), gn_underlying = StructT 2 [], gn_methods =
           [\<lparr>gf_name = ''Height'', gf_params = [], gf_results = [BasicT Kind_Int32 ''int32'']\<rparr>]\<rparr>]\<rparr>"

definition nonnull_keys :: "typeResolverPair list" where
  "nonnull_keys = [(DefRef 0, NamedT 0), (DefRef 1, NamedT 1), (TypeRef [0, 0] (NonNull (Named (Some ''Person''))), NamedT 1)]"

fun decl_name :: "go_decl \<Rightarrow> string option" where
  "decl_name (FuncDecl name ps body) = Some name"
| "decl_name (ImportDecl paths) = None"

lemma nonnull_objects_are_declared_twice:
  "(case buildResolver nonnull_env 12 (DefRef 0, NamedT 0) newModelBuilder of
      Built (mb, a) \<Rightarrow> list_all (\<lambda>k. mb_resolvers mb k \<noteq> None) nonnull_keys | _ \<Rightarrow> False) \<and>
   (case BuildModel nonnull_env 12 (\<lambda>_. nonnull_keys) (\<lambda>_. [''simple'']) (Some 0) (Some (NamedT 0)) of
      Built m \<Rightarrow> (case GenerateResolverFile (en_types nonnull_env) id id 12 ''resolve'' m of
        Built f \<Rightarrow> length (filter (\<lambda>d. decl_name d = Some ''ResolvePerson'') (file_Decls f)) = 2 | _ \<Rightarrow> False) | _ \<Rightarrow> False)"
  by code_simp

end
