(* ===== verification/Analyze.thy ===== *)
theory Analyze
  imports Schema Generated
begin

text \<open>
  \<open>cmd/rgraphql/analyze.go\<close> and \<open>schema.Parse\<close>: the command that reads a schema and a Go package and writes the
  resolvers. What it calls outside of the repository, and the files, are the fields of \<open>toolchain\<close>; \<open>None\<close> is the error
  of such a call. The standard output is left out.
\<close>

subsection \<open>The command\<close>

text \<open>A package that was loaded: its module, the objects of its scope with their types.\<close>

record go_package =
  gp_Module :: "string option"
  gp_Scope :: "string \<rightharpoonup> go_type"

text \<open>\<open>packages.Load\<close> returns its types in a store of their own; \<open>parser.Parse\<close> the definitions and the document.\<close>

record toolchain =
  tc_ReadFile :: "string \<Rightarrow> string option"
  tc_parse :: "string \<Rightarrow> (definitions \<times> document_definition list) option"
  tc_Load :: "string \<Rightarrow> (go_types \<times> go_package list) option"
  tc_format :: "go_file \<Rightarrow> string option"
  tc_gofumpt :: "string \<Rightarrow> string \<Rightarrow> string option"
  tc_imports :: "string \<Rightarrow> string \<Rightarrow> string option"
  tc_WriteFile :: "string \<Rightarrow> string \<Rightarrow> bool"

text \<open>The orders of the ranges over maps.\<close>

record map_orders =
  mo_primitives :: "string list"
  mo_types :: "string list"
  mo_table :: "modelBuilder \<Rightarrow> typeResolverPair list"
  mo_imports :: "string set \<Rightarrow> string list"
  mo_args :: "(string \<times> funcArgField) list \<Rightarrow> (string \<times> funcArgField) list"
  mo_fields :: "(string \<times> addr) list \<Rightarrow> (string \<times> addr) list"

record analyzeArgs =
  aa_SchemaPath :: string
  aa_PackagePath :: string
  aa_QueryType :: string
  aa_OutputPath :: string
  aa_OutputPackageName :: string

datatype analyze_error =
    NoQueryType
  | NoSchemaPath
  | NoPackagePath
  | CannotReadSchema
  | CannotParseSchema
  | NoRootQuery
  | CannotLoadProgram
  | GoTypeNotFound string
  | AnalysisError analysis_error
  | CannotFormat
  | CannotWrite

text \<open>What a run does: it returns, with the file that it has written or with none, it fails, or it panics.\<close>

datatype run_result =
    Returned "(string \<times> string) option"
  | RunError analyze_error
  | RunPanic
  | RunNoFuel

text \<open>\<open>schema.Parse\<close>: \<open>Inr None\<close> is a panic.\<close>

definition Parse :: "toolchain \<Rightarrow> map_orders \<Rightarrow> string \<Rightarrow> analyze_error + (definitions \<times> Schema) option" where
  "Parse tc mo docStr =
     (case tc_parse tc docStr of
        None \<Rightarrow> Inl CannotParseSchema
      | Some (defs, doc) \<Rightarrow> Inr (FromDocument (mo_primitives mo) (mo_types mo) defs doc))"

text \<open>The file: the constraint, the code, formatted, with its imports.\<close>

definition build_tag :: string where
  "build_tag = ''//go:build !rgraphql_analyze'' @ [CHR 0x0A, CHR 0x0A]"

definition write_output :: "toolchain \<Rightarrow> analyzeArgs \<Rightarrow> string option \<Rightarrow> go_file \<Rightarrow> run_result" where
  "write_output tc args pkgModule outFile =
     (case tc_format tc outFile of
        None \<Rightarrow> RunError CannotFormat
      | Some code \<Rightarrow>
          (case tc_gofumpt tc (case pkgModule of None \<Rightarrow> '''' | Some p \<Rightarrow> p) (build_tag @ code) of
             None \<Rightarrow> RunError CannotFormat
           | Some outFormatted \<Rightarrow>
               (case tc_imports tc (aa_OutputPath args) outFormatted of
                  None \<Rightarrow> RunError CannotFormat
                | Some dat \<Rightarrow>
                    if tc_WriteFile tc (aa_OutputPath args) dat then Returned (Some (aa_OutputPath args, dat))
                    else RunError CannotWrite)))"

definition run_generate :: "toolchain \<Rightarrow> map_orders \<Rightarrow> nat \<Rightarrow> analyzeArgs \<Rightarrow> go_types \<Rightarrow> string option \<Rightarrow> Model \<Rightarrow> run_result" where
  "run_generate tc mo fuel args gts pkgModule model =
     (case GenerateResolverFile gts (mo_args mo) (mo_fields mo) fuel
             (if aa_OutputPackageName args = '''' then ''resolve'' else aa_OutputPackageName args) model of
        Built f \<Rightarrow> write_output tc args pkgModule f
      | Failed e \<Rightarrow> RunError (AnalysisError e)
      | Crashed \<Rightarrow> RunPanic
      | NoFuel \<Rightarrow> RunNoFuel)"

definition schema_env :: "definitions \<Rightarrow> ASTParts \<Rightarrow> go_types \<Rightarrow> analysis_env" where
  "schema_env defs ap gts = \<lparr>en_defs = defs, en_lookup = LookupType ap, en_types = gts\<rparr>"

text \<open>The error of a load that finds no package is that of the load, which is nil when the load succeeded.\<close>

definition run_program :: "toolchain \<Rightarrow> map_orders \<Rightarrow> nat \<Rightarrow> analyzeArgs \<Rightarrow> definitions \<Rightarrow> ASTParts \<Rightarrow> addr \<Rightarrow> run_result" where
  "run_program tc mo fuel args defs ap rootQuery =
     (case tc_Load tc (aa_PackagePath args) of
        None \<Rightarrow> RunError CannotLoadProgram
      | Some (gts, []) \<Rightarrow> Returned None
      | Some (gts, initPkg # pkgs) \<Rightarrow>
          (case gp_Scope initPkg (aa_QueryType args) of
             None \<Rightarrow> RunError (GoTypeNotFound (aa_QueryType args))
           | Some t \<Rightarrow>
               (case BuildModel (schema_env defs ap gts) fuel (mo_table mo) (mo_imports mo) (Some rootQuery) (Some t) of
                  Built model \<Rightarrow> run_generate tc mo fuel args gts (gp_Module initPkg) model
                | Failed e \<Rightarrow> RunError (AnalysisError e)
                | Crashed \<Rightarrow> RunPanic
                | NoFuel \<Rightarrow> RunNoFuel)))"

definition runAnalyze :: "toolchain \<Rightarrow> map_orders \<Rightarrow> nat \<Rightarrow> analyzeArgs \<Rightarrow> run_result" where
  "runAnalyze tc mo fuel args =
     (if aa_QueryType args = '''' then RunError NoQueryType
      else if aa_SchemaPath args = '''' then RunError NoSchemaPath
      else if aa_PackagePath args = '''' then RunError NoPackagePath
      else (case tc_ReadFile tc (aa_SchemaPath args) of
              None \<Rightarrow> RunError CannotReadSchema
            | Some doc \<Rightarrow>
                (case Parse tc mo doc of
                   Inl e \<Rightarrow> RunError e
                 | Inr None \<Rightarrow> RunPanic
                 | Inr (Some (defs, scm)) \<Rightarrow>
                     (case ap_RootQuery (Definitions scm) of
                        None \<Rightarrow> RunError NoRootQuery
                      | Some rootQuery \<Rightarrow> run_program tc mo fuel args defs (Definitions scm) rootQuery))))"

subsection \<open>What a run has written\<close>

text \<open>A load that finds no package is reported as a success, and no file is written.\<close>

lemma no_package_is_success:
  assumes "tc_Load tc (aa_PackagePath args) = Some (gts, [])"
  shows "run_program tc mo fuel args defs ap rootQuery = Returned None"
  using assms by (simp add: run_program_def)

definition output_package :: "analyzeArgs \<Rightarrow> string" where
  "output_package args = (if aa_OutputPackageName args = '''' then ''resolve'' else aa_OutputPackageName args)"

text \<open>The file at the output path is what the tools make of \<open>f\<close>.\<close>

definition written :: "toolchain \<Rightarrow> analyzeArgs \<Rightarrow> go_package \<Rightarrow> go_file \<Rightarrow> string \<Rightarrow> bool" where
  "written tc args pkg f dat \<longleftrightarrow> (\<exists>code text. tc_format tc f = Some code \<and>
     tc_gofumpt tc (case gp_Module pkg of None \<Rightarrow> '''' | Some p \<Rightarrow> p) (build_tag @ code) = Some text \<and>
     tc_imports tc (aa_OutputPath args) text = Some dat \<and> tc_WriteFile tc (aa_OutputPath args) dat)"

lemma write_output_written:
  "write_output tc args (gp_Module pkg) f = Returned r \<longleftrightarrow> (\<exists>dat. r = Some (aa_OutputPath args, dat) \<and> written tc args pkg f dat)"
  by (auto simp: write_output_def written_def split: option.splits if_splits)

text \<open>The schema and the package that a run has read, with the definition of the root and its Go type.\<close>

definition run_reads :: "toolchain \<Rightarrow> map_orders \<Rightarrow> analyzeArgs \<Rightarrow> analysis_env \<Rightarrow> addr \<Rightarrow> go_type \<Rightarrow> go_package \<Rightarrow> bool" where
  "run_reads tc mo args env d t pkg \<longleftrightarrow> (\<exists>text defs scm gts pkgs. tc_ReadFile tc (aa_SchemaPath args) = Some text \<and>
     Parse tc mo text = Inr (Some (defs, scm)) \<and> ap_RootQuery (Definitions scm) = Some d \<and>
     tc_Load tc (aa_PackagePath args) = Some (gts, pkg # pkgs) \<and> gp_Scope pkg (aa_QueryType args) = Some t \<and>
     env = schema_env defs (Definitions scm) gts)"

lemma run_generate_written:
  assumes "run_generate tc mo fuel args gts (gp_Module pkg) model = Returned r"
  shows "\<exists>f dat. GenerateResolverFile gts (mo_args mo) (mo_fields mo) fuel (output_package args) model = Built f \<and>
    r = Some (aa_OutputPath args, dat) \<and> written tc args pkg f dat"
  using assms by (auto simp: run_generate_def output_package_def write_output_written split: build_result.splits)

lemma run_written:
  assumes "runAnalyze tc mo fuel args = Returned (Some (path, dat))"
  shows "\<exists>env d t pkg m f. run_reads tc mo args env d t pkg \<and>
    BuildModel env fuel (mo_table mo) (mo_imports mo) (Some d) (Some t) = Built m \<and>
    GenerateResolverFile (en_types env) (mo_args mo) (mo_fields mo) fuel (output_package args) m = Built f \<and>
    path = aa_OutputPath args \<and> written tc args pkg f dat"
proof -
  obtain src defs scm d where src: "tc_ReadFile tc (aa_SchemaPath args) = Some src" "Parse tc mo src = Inr (Some (defs, scm))"
    "ap_RootQuery (Definitions scm) = Some d"
    and run: "run_program tc mo fuel args defs (Definitions scm) d = Returned (Some (path, dat))"
    using assms by (auto simp: runAnalyze_def split: if_splits option.splits sum.splits)
  obtain gts pkg pkgs t m where load: "tc_Load tc (aa_PackagePath args) = Some (gts, pkg # pkgs)"
    "gp_Scope pkg (aa_QueryType args) = Some t"
    and m: "BuildModel (schema_env defs (Definitions scm) gts) fuel (mo_table mo) (mo_imports mo) (Some d) (Some t) = Built m"
    and gen: "run_generate tc mo fuel args gts (gp_Module pkg) m = Returned (Some (path, dat))"
    using run by (auto simp: run_program_def split: option.splits list.splits build_result.splits)
  have "run_reads tc mo args (schema_env defs (Definitions scm) gts) d t pkg"
    unfolding run_reads_def using src load by blast
  moreover have "en_types (schema_env defs (Definitions scm) gts) = gts"
    by (simp add: schema_env_def)
  ultimately show ?thesis
    using m run_generate_written [OF gen] by force
qed

text \<open>
  C21: The command \<open>analyze\<close> writes resolvers that compile as far as names go. When a run succeeds with a file, the schema
  was read and parsed and has a root query, the package was loaded and its scope has the Go type of the root, and the
  file, at the output path, is what the formatters make of the code generated from the model of the two. That model binds
  every field, and the code is well formed, except for the two kinds of resolvers that break it.
\<close>

theorem analyze_writes_well_formed_code:
  assumes "table_order (mo_table mo)" and "\<And>xs. set (mo_fields mo xs) = set xs"
    and "runAnalyze tc mo fuel args = Returned (Some (path, dat))"
  shows "path = aa_OutputPath args \<and> (\<exists>env d t pkg m reg f. run_reads tc mo args env d t pkg \<and>
    BuildModel env fuel (mo_table mo) (mo_imports mo) (Some d) (Some t) = Built m \<and> model_bound env d t m reg \<and>
    GenerateResolverFile (en_types env) (mo_args mo) (mo_fields mo) fuel (output_package args) m = Built f \<and>
    written tc args pkg f dat \<and> (plain_heap (md_heap m) \<longrightarrow> file_ok f))"
proof -
  obtain env d t pkg m f where run: "run_reads tc mo args env d t pkg"
    "BuildModel env fuel (mo_table mo) (mo_imports mo) (Some d) (Some t) = Built m" "path = aa_OutputPath args"
    "written tc args pkg f dat"
    and f: "GenerateResolverFile (en_types env) (mo_args mo) (mo_fields mo) fuel (output_package args) m = Built f"
    using run_written [OF assms(3)] by blast
  obtain reg where reg: "model_bound env d t m reg"
    using model_bound [OF assms(1) run(2)] by blast
  have "plain_heap (md_heap m) \<longrightarrow> file_ok f"
    using written_file_ok [OF reg _ assms(2) f] by blast
  then show ?thesis
    using run reg f by blast
qed

subsection \<open>A run\<close>

text \<open>The sample schema, whose object has the field \<open>name\<close>, and a Go type with that method.\<close>

definition tiny_types :: go_types where
  "tiny_types =
     [\<lparr>gn_name = ''RootResolver'', gn_pkg = Some (''simple'', ''simple''), gn_underlying = StructT 0 [], gn_methods =
         [\<lparr>gf_name = ''Name'', gf_params = [], gf_results = [BasicT Kind_String ''string'']\<rparr>]\<rparr>]"

definition tiny_defs :: definitions where
  "tiny_defs = package_definitions @
     [ObjectDefinition (Some ''Query'') [FieldDefinition (Some ''name'') [] (named ''String''), schema_field]]"

definition tiny_args :: analyzeArgs where
  "tiny_args = \<lparr>aa_SchemaPath = ''schema.graphql'', aa_PackagePath = ''simple'', aa_QueryType = ''RootResolver'',
     aa_OutputPath = ''resolve.go'', aa_OutputPackageName = ''''\<rparr>"

definition tiny_tools :: toolchain where
  "tiny_tools = \<lparr>tc_ReadFile = (\<lambda>_. Some ''schema''), tc_parse = (\<lambda>_. Some (sample_defs, sample_document)),
     tc_Load = (\<lambda>_. Some (tiny_types, [\<lparr>gp_Module = None, gp_Scope = [''RootResolver'' \<mapsto> NamedT 0]\<rparr>])),
     tc_format = (\<lambda>f. Some (file_Name f)), tc_gofumpt = (\<lambda>_ text. Some text), tc_imports = (\<lambda>_ text. Some text),
     tc_WriteFile = (\<lambda>_ _. True)\<rparr>"

definition tiny_orders :: "(modelBuilder \<Rightarrow> typeResolverPair list) \<Rightarrow> map_orders" where
  "tiny_orders rorder = \<lparr>mo_primitives = primitive_names, mo_types = introspection_names, mo_table = rorder,
     mo_imports = (\<lambda>_. []), mo_args = id, mo_fields = rev\<rparr>"

lemma sample_applied_root:
  "fst sample_applied = tiny_defs" "ap_RootQuery (snd sample_applied) = Some 13"
proof -
  have field: "find_field ''__schema'' (od_fields (sample_defs ! 13)) = Some None"
    by code_simp
  show "fst sample_applied = tiny_defs"
    using field by (simp add: sample_applied_def ApplyIntrospection_root [OF sample_parts_facts(1)] Let_def tiny_defs_def
        sample_defs_def append_field_def upd_at_def list_update_append package_definitions_eval nth_append length_introspection_types
        split del: if_split)
  show "ap_RootQuery (snd sample_applied) = Some 13"
    using field by (simp add: sample_applied_def ApplyIntrospection_root [OF sample_parts_facts(1)] Let_def Apply_lookup
        add_primitives_lookup sample_parts_facts)
qed

lemma tiny_parse:
  "Parse tiny_tools (tiny_orders rorder) text = Inr (Some (tiny_defs, \<lparr>Document = sample_document, Definitions = snd sample_applied\<rparr>))"
  by (simp add: Parse_def tiny_tools_def tiny_orders_def FromDocument_def sample_parts_eval sample_applied_eval sample_applied_root)

definition builds_tiny :: "modelBuilder \<Rightarrow> bool" where
  "builds_tiny mb \<longleftrightarrow> length (mb_heap mb) = 3 \<and> list_all (\<lambda>a. case GenerateGoASTDecls tiny_types id rev (mb_heap mb) 12 a of
     Built _ \<Rightarrow> True | _ \<Rightarrow> False) [0 ..< 3]"

lemma tiny_builds:
  "case buildResolver \<lparr>en_defs = tiny_defs, en_lookup = lookup, en_types = tiny_types\<rparr> 12 (DefRef 13, NamedT 0) newModelBuilder of
     Built (mb, a) \<Rightarrow> builds_tiny mb | _ \<Rightarrow> False"
  by code_simp

lemma all_decls_built:
  assumes "\<And>a. a \<in> set as \<Longrightarrow> \<exists>ds. gen a = Built ds"
  shows "\<exists>ds. all_decls gen as = Built ds"
  using assms by (induction as) force+

lemma tiny_file:
  assumes "table_order rorder"
  shows "\<exists>m f. BuildModel \<lparr>en_defs = tiny_defs, en_lookup = lookup, en_types = tiny_types\<rparr> 12 rorder (\<lambda>_. []) (Some 13) (Some (NamedT 0)) = Built m \<and>
    GenerateResolverFile tiny_types id rev 12 ''resolve'' m = Built f \<and> file_Name f = ''resolve''"
proof -
  let ?env = "\<lparr>en_defs = tiny_defs, en_lookup = lookup, en_types = tiny_types\<rparr>"
  obtain mb a where mb: "buildResolver ?env 12 (DefRef 13, NamedT 0) newModelBuilder = Built (mb, a)" and ok: "builds_tiny mb"
    using tiny_builds [of lookup] by (auto split: build_result.splits)
  obtain m where m: "BuildModel ?env 12 rorder (\<lambda>_. []) (Some 13) (Some (NamedT 0)) = Built m" "md_heap m = mb_heap mb"
    "\<forall>b \<in> set (md_allResolvers m). \<exists>p. mb_resolvers mb p = Some b"
    using mb by (force simp: BuildModel_def set_map_filter')
  have "\<exists>ds. GenerateGoASTDecls tiny_types id rev (mb_heap mb) 12 b = Built ds" if "b \<in> set (md_allResolvers m)" for b
  proof -
    have "b < 3"
      using m(3) that buildResolver_bound(5) [OF mb] ok by (auto simp: builds_tiny_def)
    then show ?thesis
      using ok by (cases "GenerateGoASTDecls tiny_types id rev (mb_heap mb) 12 b") (force simp: builds_tiny_def list_all_iff)+
  qed
  then show ?thesis
    using m(1) all_decls_built [of "md_allResolvers m" "GenerateGoASTDecls tiny_types id rev (mb_heap mb) 12"]
    by (force simp: GenerateResolverFile_def m(2))
qed

text \<open>The tools of the sample write the build constraint and the name of the package.\<close>

lemma tiny_run:
  assumes "table_order rorder"
  shows "runAnalyze tiny_tools (tiny_orders rorder) 12 tiny_args = Returned (Some (''resolve.go'', build_tag @ ''resolve''))"
proof -
  obtain m f where m: "BuildModel \<lparr>en_defs = tiny_defs, en_lookup = LookupType (snd sample_applied), en_types = tiny_types\<rparr> 12 rorder (\<lambda>_. [])
      (Some 13) (Some (NamedT 0)) = Built m"
    "GenerateResolverFile tiny_types id rev 12 ''resolve'' m = Built f" "file_Name f = ''resolve''"
    using tiny_file [OF assms] by blast
  have "run_program tiny_tools (tiny_orders rorder) 12 tiny_args tiny_defs (snd sample_applied) 13 =
      Returned (Some (''resolve.go'', build_tag @ ''resolve''))"
    by (simp add: run_program_def run_generate_def write_output_def schema_env_def m tiny_tools_def tiny_orders_def tiny_args_def)
  moreover have "tc_ReadFile tiny_tools (aa_SchemaPath tiny_args) = Some ''schema''" "aa_QueryType tiny_args \<noteq> []"
    "aa_SchemaPath tiny_args \<noteq> []" "aa_PackagePath tiny_args \<noteq> []"
    by (simp_all add: tiny_tools_def tiny_args_def)
  ultimately show ?thesis
    by (simp add: runAnalyze_def tiny_parse sample_applied_root)
qed

lemma analyze_writes_well_formed_code_witness:
  "\<exists>mo env d t pkg m reg f. runAnalyze tiny_tools mo 12 tiny_args = Returned (Some (''resolve.go'', build_tag @ ''resolve'')) \<and>
    run_reads tiny_tools mo tiny_args env d t pkg \<and> model_bound env d t m reg \<and>
    written tiny_tools tiny_args pkg f (build_tag @ ''resolve'')"
proof -
  obtain rorder where ord: "table_order rorder"
    using some_table_order by blast
  have "table_order (mo_table (tiny_orders rorder))" "\<And>xs. set (mo_fields (tiny_orders rorder) xs) = set xs"
    using ord by (simp_all add: tiny_orders_def)
  then show ?thesis
    using analyze_writes_well_formed_code [OF _ _ tiny_run [OF ord]] tiny_run [OF ord] by meson
qed

end
