(* ===== verification/Spec2Isabelle.thy ===== *)
theory Spec2Isabelle
  imports QTree JsonDecoder Multiplexer Rpc Introspect Arguments Analyze
begin

text \<open>
  A model of rgraphql, a GraphQL server and client in Go that keep queries and results up to date over a connection, and of
  its code generator.

  \<^bold>\<open>The program.\<close> A client parses queries and attaches them to its query tree, whose nodes are the fields that any query
  selects and which counts the queries that use each node. Changes go to the server as tree mutations, with the arguments as
  variables of a store that both sides have. The server keeps a query tree per query: a node is bound to a definition of the
  schema, and subscribers are told of its changes. Resolvers, which the code generator writes for the Go types of an
  application, run in contexts that form a tree; each value that they write goes to the encoder of the query, which turns the
  path of its context into a sequence of path segments. A multiplexer merges the streams of all queries into messages. The
  client decodes the segments with a cursor into its result tree, and a handler builds a JSON object from it.

  \<^bold>\<open>Theories.\<close> Each models some files of the repository and holds the lemmas on them.
  \<^item> \<open>Prelude\<close>: Go's integers as words, objects as entries of a list indexed by address, slices, and shared lemmas.
  \<^item> \<open>Messages\<close>, \<open>GoAST\<close>, \<open>Types\<close>: the messages of \<open>rgraphql.pb.go\<close> with their getters, the nodes of a parsed GraphQL
    document, and \<open>types/*.go\<close>, \<open>types/gqlast/unwrap.go\<close>, \<open>util/case.go\<close>: primitive values, \<open>NewASTPrimitive\<close>,
    \<open>UnpackPrimitive\<close>, \<open>IsPrimEquiv\<close>, \<open>ToPascalCase\<close>.
  \<^item> \<open>VarStore\<close>: \<open>varstore/varstore.go\<close>. The invariant \<open>vs_inv\<close> says that a variable knows exactly its live handles.
  \<^item> \<open>Schema\<close>: \<open>schema/*.go\<close>: \<open>DocumentToParts\<close>, \<open>LookupType\<close>, \<open>ApplyIntrospection\<close>, \<open>FromDocument\<close>.
  \<^item> \<open>QTree\<close>: \<open>qtree/*.go\<close>, the tree of the server: \<open>ApplyTreeMutation\<close>, \<open>AddChild\<close>, \<open>Dispose\<close>, subscriptions with their
    bounded channels. \<open>qt_inv\<close> is preserved and no operation panics; the outcome of \<open>AddChild\<close> is stated for every branch.
  \<^item> \<open>QueryTree\<close>, \<open>QueryAttach\<close>, \<open>Arguments\<close>: \<open>client/query-*.go\<close>, the tree of the client: \<open>Attach\<close>, \<open>Detach\<close>, the sweep,
    and when two fields share a node. The invariant is that each count is the number of attached queries that use the node.
  \<^item> \<open>Resolver\<close>: \<open>resolver/*.go\<close>: contexts, \<open>WriteValue\<close>, observables, \<open>ResolveObject\<close> as a machine that follows the tree.
  \<^item> \<open>Encoder\<close>: \<open>encoder/*.go\<close>. The reference decoder \<open>dec_step\<close> states what the stream means; decoding what \<open>Run\<close>
    writes gives each value at the path of its context.
  \<^item> \<open>ResultTree\<close>, \<open>JsonDecoder\<close>: \<open>client/result-tree*.go\<close>, \<open>client/path-*.go\<close>, \<open>client/json-decoder*.go\<close>. On streams without
    labels the tree of the client refines the reference decoder.
  \<^item> \<open>Multiplexer\<close>: \<open>result/*.go\<close>: the goroutines as the steps of \<open>mux_step\<close>, with the arrays behind slices, so that a batch
    that is overwritten after it was sent is seen.
  \<^item> \<open>Session\<close>: \<open>server/*.go\<close>: \<open>HandleMessage\<close>, executions, and the loop that receives. \<open>session_run\<close> are the sessions
    that messages lead to.
  \<^item> \<open>Rpc\<close>: \<open>server/rpc/session.go\<close>: \<open>Execute\<close>, whose two loops are the steps of \<open>rpc_step\<close>, around a session.
  \<^item> \<open>Introspect\<close>: \<open>introspect/introspect.go\<close>.
  \<^item> \<open>GoCode\<close>, \<open>Analysis\<close>, \<open>CodeGen\<close>: \<open>analysis/*.go\<close>, \<open>types/gqlast/primitive.go\<close>. \<open>BuildModel\<close> pairs definitions with Go
    types, on a heap of resolvers; \<open>GenerateResolverFile\<close> writes the Go syntax of their functions.
  \<^item> \<open>Binding\<close>, \<open>AnalysisEnds\<close>, \<open>Generated\<close>: what a model binds (\<open>object_bound\<close>, \<open>field_bound\<close>, \<open>list_bound\<close>), that the
    analysis ends, and that the generated functions pass the compiler's checks on names (\<open>block_ok\<close>).
  \<^item> \<open>Analyze\<close>: \<open>cmd/rgraphql/analyze.go\<close>, \<open>schema.Parse\<close>: the command from the files to the file that it writes, over the
    parser, the package loader and the formatters as the record \<open>toolchain\<close>.

  \<^bold>\<open>Conventions.\<close> A Go object that is reached by pointer is an entry of a list and its address the index; a map is a partial
  function or, where its order can be seen, an association list, and the order in which a range visits a map is an argument
  with the law that it visits each key once. A panic is \<open>None\<close> or \<open>Crashed\<close>, an error the left of a sum or \<open>Failed\<close>. Integers
  have their width. Code that is not in the repository is an argument: \<open>strconv.ParseFloat\<close>, the varint of the protocol, the
  LRU cache of the path caches with the laws \<open>cache_laws\<close>, the visitor of the GraphQL library as the list of its callbacks,
  the kinds of AST nodes. \<open>go/types\<close> is a store of named types, and \<open>AssignableTo\<close> and \<open>ConvertibleTo\<close> are those of the Go
  specification on basic types.

  \<^bold>\<open>Interfaces.\<close> The locale \<open>handle_store\<close> is what a holder of handles relies on, and \<open>VarStore\<close> interprets it; \<open>type_lookup\<close>
  is the lookup of a schema, interpreted in \<open>Schema\<close>; \<open>result_handler\<close> is what the result tree needs of its handlers, and
  \<open>JsonDecoder\<close> interprets it.

  \<^bold>\<open>Fuel.\<close> Recursion through pointers has fuel. In the trees the number of nodes is enough, since a node is younger than its
  parent, and the operations are given it; that they return is part of the properties. The builders of \<open>Analysis\<close> recurse
  through definitions and Go types: \<open>AnalysisEnds\<close> bounds the depth by the number of pairs times the depth of types, and more
  fuel changes nothing. For the generator \<open>Generated\<close> shows a bound for each model. Loops that the scheduler drives
  (\<open>mux_step\<close>, \<open>rpc_step\<close>, the object machine) are steps, not recursion.

  \<^bold>\<open>Not modelled.\<close> The wire, JSON and text codecs of \<open>rgraphql.pb.go\<close>, which are generated; the declaration of the command
  line (\<open>init\<close> and \<open>main\<close> of \<open>cmd/rgraphql\<close>); logging and printing; the examples, the tests and their helpers, and the
  TypeScript client, which is a second implementation. Data races are not modelled: what a mutex guards is one step.
\<close>

end
